(* ===== verification/Prelude.thy ===== *)
theory Prelude
  imports Main "HOL-Library.Word" "HOL-Library.Signed_Division"
begin

text \<open>
  Prelude of the scratch-os development: machine types of the i386 target, the
  byte-addressed memory that every C object lives in, little-endian 32-bit
  accesses, and the generic lemmas on words and memory regions that the
  component theories share.

  A memory region is given by its first address \<open>a\<close> and its size \<open>n\<close> in bytes;
  \<open>in_reg a n x\<close> says that address \<open>x\<close> lies in it, counting modulo the address
  space as pointer arithmetic does.
\<close>

unbundle bit_operations_syntax

named_theorems mem_simps \<open>reads of updated memory\<close>
named_theorems nat_word \<open>translation of word facts to natural numbers\<close>

section \<open>Machine types\<close>

type_synonym byte = "8 word"
type_synonym u16 = "16 word"
type_synonym u32 = "32 word"
type_synonym u64 = "64 word"
type_synonym mem = "u32 \<Rightarrow> byte"

text \<open>How a modelled C function can fail to return normally: \<open>PANIC\<close> prints and spins
  for ever, and an access outside a C object has no defined behaviour.\<close>

type_synonym site = "string \<times> string \<times> u32"

datatype fault = Panic "site \<times> string" | OutOfBounds

type_synonym 'a result = "fault + 'a"

text \<open>Where what was done before the fault matters, the fault comes with the state it leaves.\<close>

type_synonym ('s, 'a) attempt = "(fault \<times> 's) + 'a"

text \<open>Sequencing of code that may not return, may fault, or goes on with a value.\<close>

definition and_then :: "('e + 'a) option \<Rightarrow> ('a \<Rightarrow> ('e + 'b) option) \<Rightarrow> ('e + 'b) option" where
  "and_then x f = (case x of None \<Rightarrow> None | Some (Inl e) \<Rightarrow> Some (Inl e) | Some (Inr a) \<Rightarrow> f a)"

lemma and_then_simps [simp]:
  "and_then None f = None" "and_then (Some (Inl e)) f = Some (Inl e)" "and_then (Some (Inr a)) f = f a"
  by (simp_all add: and_then_def)

lemma and_then_inr: "and_then x f = Some (Inr b) \<longleftrightarrow> (\<exists>a. x = Some (Inr a) \<and> f a = Some (Inr b))"
  by (simp add: and_then_def split: option.split sum.split)

text \<open>The macros of \<open>inc/types.h\<close> that take any integer type.\<close>

definition MIN_of :: "'a::linorder \<Rightarrow> 'a \<Rightarrow> 'a" where "MIN_of a b = (if a \<le> b then a else b)"
definition MAX_of :: "'a::linorder \<Rightarrow> 'a \<Rightarrow> 'a" where "MAX_of a b = (if a \<ge> b then a else b)"

lemma MIN_of_min [simp]: "MIN_of a b = min a b"
  by (simp add: MIN_of_def min_def)

lemma MAX_of_max [simp]: "MAX_of a b = max a b"
  by (auto simp: MAX_of_def max_def)

section \<open>Regions of the address space\<close>

definition in_reg :: "u32 \<Rightarrow> nat \<Rightarrow> u32 \<Rightarrow> bool" where
  "in_reg a n x \<longleftrightarrow> unat (x - a) < n"

lemma unat_lt32 [simp]: "unat (x :: u32) < 4294967296"
  using unsigned_less [of x] by simp

lemma unat_le32 [simp]: "unat (x :: u32) \<le> 4294967295"
  using unat_lt32 [of x] by linarith

lemma unat_diff_word: "unat (x - a :: u32) = (if unat a \<le> unat x then unat x - unat a
    else unat x + 4294967296 - unat a)"
  by (simp add: unat_sub_if')

lemma unat_add_word: "unat (a + b :: u32) = (if unat a + unat b < 4294967296
    then unat a + unat b else unat a + unat b - 4294967296)"
  by (simp add: unat_plus_if')

lemma unat_plus_one: "unat s < unat (e :: u32) \<Longrightarrow> unat (s + 1 :: u32) = unat s + 1"
  using unat_lt32 [of e] by (subst unat_add_word) (simp del: unat_lt32)

lemma bit_byte_beyond [simp]: "8 \<le> n \<Longrightarrow> \<not> bit (b :: byte) n"
  using bit_imp_le_length [of b n] by auto

lemma unat_of_nat32: "n < 4294967296 \<Longrightarrow> unat (of_nat n :: u32) = n"
  by (simp add: unat_of_nat take_bit_nat_eq_self)

lemma of_nat_unat32: "of_nat (unat (x :: u32)) = x"
  by simp

lemma of_nat_mod32: "(of_nat (n mod 4294967296) :: u32) = of_nat n"
proof -
  have "(of_nat n :: u32) = of_nat (n mod 4294967296 + 4294967296 * (n div 4294967296))"
    by simp
  also have "\<dots> = of_nat (n mod 4294967296) + of_nat 4294967296 * of_nat (n div 4294967296)"
    by (simp only: of_nat_add of_nat_mult)
  also have "(of_nat 4294967296 :: u32) = 0"
    by simp
  finally show ?thesis by simp
qed

lemma in_reg_nat [nat_word]:
  assumes "unat a + n \<le> 4294967296"
  shows "in_reg a n x \<longleftrightarrow> unat a \<le> unat x \<and> unat x < unat a + n"
  using assms unat_lt32 [of x] unat_lt32 [of a] by (auto simp: in_reg_def unat_diff_word)

lemma in_reg_0 [simp]: "\<not> in_reg a 0 x"
  by (simp add: in_reg_def)

lemma in_reg_add:
  assumes "k + n \<le> 4294967296"
  shows "in_reg a (k + n) x \<longleftrightarrow> in_reg a k x \<or> in_reg (a + of_nat k) n x"
proof (cases "k = 4294967296")
  case True
  with assms show ?thesis by (simp add: in_reg_def)
next
  case False
  with assms have "unat (of_nat k :: u32) = k" by (simp add: unat_of_nat32)
  moreover have "x - (a + of_nat k) = x - a - of_nat k" by (simp add: diff_diff_eq)
  ultimately have "unat (x - (a + of_nat k))
      = (if k \<le> unat (x - a) then unat (x - a) - k else unat (x - a) + 4294967296 - k)"
    by (simp only: unat_diff_word [of "x - a" "of_nat k"])
  then show ?thesis using assms False by (auto simp only: in_reg_def split: if_splits)
qed

lemma in_reg_Suc:
  assumes "n < 4294967296"
  shows "in_reg a (Suc n) x \<longleftrightarrow> x = a \<or> in_reg (a + 1) n x"
proof (cases "x = a")
  case True
  then show ?thesis by (simp add: in_reg_def)
next
  case False
  then have "unat (x - a) \<noteq> 0" by (simp add: unat_eq_0)
  then have "unat (x - a - 1) = unat (x - a) - 1"
    by (simp add: unat_minus_one unat_eq_0)
  moreover have "x - (a + 1) = x - a - 1" by (simp add: diff_diff_eq)
  ultimately show ?thesis
    using False \<open>unat (x - a) \<noteq> 0\<close> by (auto simp only: in_reg_def)
qed

lemma in_reg_4: "in_reg a 4 x \<longleftrightarrow> x = a \<or> x = a + 1 \<or> x = a + 2 \<or> x = a + 3"
proof -
  have "in_reg b 4 x \<longleftrightarrow> x = b \<or> in_reg (b + 1) 3 x" for b
    using in_reg_Suc [of 3 b x] by simp
  moreover have "in_reg b 3 x \<longleftrightarrow> x = b \<or> in_reg (b + 1) 2 x" for b
    using in_reg_Suc [of 2 b x] by simp
  moreover have "in_reg b 2 x \<longleftrightarrow> x = b \<or> in_reg (b + 1) 1 x" for b
    using in_reg_Suc [of 1 b x] by (simp add: numeral_2_eq_2)
  moreover have "in_reg b 1 x \<longleftrightarrow> x = b" for b
    using in_reg_Suc [of 0 b x] by simp
  ultimately show ?thesis by (simp add: add.assoc)
qed

lemma in_reg_self [simp]: "in_reg a n a \<longleftrightarrow> 0 < n"
  by (simp add: in_reg_def)

lemma in_reg_mono: "in_reg a n x \<Longrightarrow> n \<le> k \<Longrightarrow> in_reg a k x"
  by (simp add: in_reg_def)

lemma in_reg_plus: "in_reg a n (a + of_nat i) \<longleftrightarrow> i mod 4294967296 < n"
proof -
  have "unat (a + of_nat i - a) = i mod 4294967296"
    using unat_of_nat [where 'a = 32, of i] by (simp add: take_bit_nat_def)
  then show ?thesis by (simp only: in_reg_def)
qed

lemma in_reg_index: "i < n \<Longrightarrow> n \<le> 4294967296 \<Longrightarrow> in_reg a n (a + of_nat i)"
  unfolding in_reg_plus by (metis less_le_trans mod_less)

lemma in_reg_ex: "in_reg a n x \<Longrightarrow> \<exists>i < n. x = a + of_nat i"
  by (intro exI [of _ "unat (x - a)"]) (simp add: in_reg_def)

lemma uint_lt32: "uint (x :: u32) < 4294967296"
  using unsigned_less [of x] by simp

lemma uint_unat32: "uint (x :: u32) = int (unat x)"
  by simp

lemma sint_small:
  assumes "unat (n :: u32) < 2147483648"
  shows "sint n = uint n"
proof -
  have "int (unat n) < 2147483648" using assms by linarith
  then have "uint n < 2 ^ 31" by simp
  moreover have "- (2 ^ 31) \<le> uint n" using uint_nonnegative [of n] by (rule order_trans [rotated]) simp
  ultimately have "signed_take_bit 31 (uint n) = uint n" by (intro signed_take_bit_int_eq_self)
  then show ?thesis by (simp add: sint_uint)
qed

lemma unat_drop_bit32: "unat (drop_bit k (w :: u32)) = unat w div 2 ^ k"
  unfolding unat_drop_bit_eq by (rule drop_bit_eq_div)

lemma unat_push_bit32: "unat (push_bit k (w :: u32)) = (unat w * 2 ^ k) mod 4294967296"
  unfolding unsigned_push_bit_eq by (simp add: push_bit_eq_mult take_bit_eq_mod)

lemma unat_and_mask32: "unat (w AND mask k :: u32) = unat w mod 2 ^ k"
  unfolding take_bit_eq_mask [symmetric] unsigned_take_bit_eq by (simp add: take_bit_eq_mod)

lemma upt_split: "i \<le> j \<Longrightarrow> j \<le> k \<Longrightarrow> [i..<k] = [i..<j] @ [j..<k]"
  using upt_add_eq_append [of i j "k - j"] by simp

section \<open>Loops\<close>

text \<open>A C loop \<open>for (int i = lo; i < hi; i++) body\<close>: the body is run on the
  consecutive values of the counter, lowest first.\<close>

definition for_loop :: "int \<Rightarrow> int \<Rightarrow> (int \<Rightarrow> 's \<Rightarrow> 's) \<Rightarrow> 's \<Rightarrow> 's" where
  "for_loop lo hi body s = fold body [lo..hi - 1] s"

lemma for_loop_empty [simp]: "hi \<le> lo \<Longrightarrow> for_loop lo hi body s = s"
  by (simp add: for_loop_def)

lemma for_loop_step: "lo < hi \<Longrightarrow> for_loop lo hi body s = for_loop (lo + 1) hi body (body lo s)"
  by (simp add: for_loop_def upto_rec1)

lemma for_loop_last: "lo < hi \<Longrightarrow> for_loop lo hi body s = body (hi - 1) (for_loop lo (hi - 1) body s)"
  by (simp add: for_loop_def upto_rec2)

text \<open>The rule for invariants of a counted loop.\<close>

lemma for_loop_inv:
  assumes step: "\<And>i s. lo \<le> i \<Longrightarrow> i < hi \<Longrightarrow> I i s \<Longrightarrow> I (i + 1) (body i s)"
    and init: "I lo s" and le: "lo \<le> hi"
  shows "I hi (for_loop lo hi body s)"
  using le init step
proof (induction "nat (hi - lo)" arbitrary: lo s)
  case 0
  then show ?case by simp
next
  case (Suc k)
  then have lt: "lo < hi" by linarith
  have "I hi (for_loop (lo + 1) hi body (body lo s))"
    by (rule Suc.hyps(1)) (use Suc lt in auto)
  with lt show ?case by (simp add: for_loop_step)
qed

lemma for_loop_inv_const:
  assumes "\<And>i s. lo \<le> i \<Longrightarrow> i < hi \<Longrightarrow> I s \<Longrightarrow> I (body i s)" and "I s"
  shows "I (for_loop lo hi body s)"
proof (cases "lo \<le> hi")
  case True
  show ?thesis
    by (rule for_loop_inv [where I = "\<lambda>_. I"]) (use assms True in auto)
next
  case False
  with assms(2) show ?thesis by simp
qed

lemma for_loop_cong:
  assumes "\<And>i s. lo \<le> i \<Longrightarrow> i < hi \<Longrightarrow> I s \<Longrightarrow> b1 i s = b2 i s \<and> I (b2 i s)" and "I s"
  shows "for_loop lo hi b1 s = for_loop lo hi b2 s"
  using assms
proof (induction "nat (hi - lo)" arbitrary: lo s)
  case 0
  then show ?case by simp
next
  case (Suc k)
  then have lt: "lo < hi" by linarith
  have "for_loop (lo + 1) hi b1 (b2 lo s) = for_loop (lo + 1) hi b2 (b2 lo s)"
    by (rule Suc.hyps(1)) (use Suc lt in auto)
  moreover have "b1 lo s = b2 lo s" using Suc.prems lt by auto
  ultimately show ?case using lt by (simp add: for_loop_step)
qed

section \<open>Memory\<close>

text \<open>Consecutive bytes, and 32-bit little-endian accesses.\<close>

fun mem_write :: "mem \<Rightarrow> u32 \<Rightarrow> byte list \<Rightarrow> mem" where
  "mem_write m a [] = m"
| "mem_write m a (b # bs) = mem_write (m(a := b)) (a + 1) bs"

definition mem_read :: "mem \<Rightarrow> u32 \<Rightarrow> nat \<Rightarrow> byte list" where
  "mem_read m a n = map (\<lambda>i. m (a + of_nat i)) [0..<n]"

definition store32 :: "mem \<Rightarrow> u32 \<Rightarrow> u32 \<Rightarrow> mem" where
  "store32 m a v = m(a := ucast v, a + 1 := ucast (drop_bit 8 v),
                     a + 2 := ucast (drop_bit 16 v), a + 3 := ucast (drop_bit 24 v))"

definition load32 :: "mem \<Rightarrow> u32 \<Rightarrow> u32" where
  "load32 m a = ucast (m a) OR push_bit 8 (ucast (m (a + 1)))
     OR push_bit 16 (ucast (m (a + 2))) OR push_bit 24 (ucast (m (a + 3)))"

definition load16 :: "mem \<Rightarrow> u32 \<Rightarrow> u16" where
  "load16 m a = ucast (m a) OR push_bit 8 (ucast (m (a + 1)))"

lemma mem_write_apply:
  "length bs \<le> 4294967296 \<Longrightarrow>
   mem_write m a bs x = (if in_reg a (length bs) x then bs ! unat (x - a) else m x)"
proof (induction bs arbitrary: m a)
  case Nil
  then show ?case by simp
next
  case (Cons b bs)
  have IH: "mem_write (m(a := b)) (a + 1) bs x
      = (if in_reg (a + 1) (length bs) x then bs ! unat (x - (a + 1)) else (m(a := b)) x)"
    using Cons by simp
  have reg: "in_reg a (length (b # bs)) x \<longleftrightarrow> x = a \<or> in_reg (a + 1) (length bs) x"
    using in_reg_Suc [of "length bs" a x] Cons.prems by simp
  show ?case
  proof (cases "x = a")
    case True
    have "unat (- 1 :: u32) = 4294967295" by (simp add: unsigned_minus_1_eq_mask mask_eq_exp_minus_1)
    then have "\<not> in_reg (a + 1) (length bs) x"
      using Cons.prems True by (simp add: in_reg_def)
    with True IH show ?thesis by (simp add: in_reg_def)
  next
    case False
    then have "unat (x - a) \<noteq> 0" by (simp add: unat_eq_0)
    moreover have "unat (x - (a + 1)) = unat (x - a) - 1"
      using False unat_minus_one [of "x - a"] by (simp add: diff_diff_eq)
    ultimately have "(b # bs) ! unat (x - a) = bs ! unat (x - (a + 1))"
      by (simp add: nth_Cons')
    with False IH reg show ?thesis by auto
  qed
qed

lemma mem_write_outside [mem_simps]:
  "length bs \<le> 4294967296 \<Longrightarrow> \<not> in_reg a (length bs) x \<Longrightarrow> mem_write m a bs x = m x"
  by (simp add: mem_write_apply)

lemma mem_write_nth [mem_simps]:
  "length bs \<le> 4294967296 \<Longrightarrow> i < length bs \<Longrightarrow> mem_write m a bs (a + of_nat i) = bs ! i"
  by (simp add: mem_write_apply in_reg_plus unat_of_nat take_bit_eq_mod)

lemma mem_write_append:
  "mem_write m a (xs @ ys) = mem_write (mem_write m a xs) (a + of_nat (length xs)) ys"
  by (induction xs arbitrary: m a) (simp_all add: add.assoc [symmetric])

lemma length_mem_read [simp]: "length (mem_read m a n) = n"
  by (simp add: mem_read_def)

lemma mem_read_nth [simp]: "i < n \<Longrightarrow> mem_read m a n ! i = m (a + of_nat i)"
  by (simp add: mem_read_def)

lemma mem_read_write: "length bs \<le> 4294967296 \<Longrightarrow> mem_read (mem_write m a bs) a (length bs) = bs"
  by (rule nth_equalityI) (simp_all add: mem_write_nth)

lemma mem_read_cong: "(\<And>x. in_reg a n x \<Longrightarrow> m x = m' x) \<Longrightarrow> n \<le> 4294967296 \<Longrightarrow>
   mem_read m a n = mem_read m' a n"
  by (rule nth_equalityI) (simp_all add: in_reg_plus)

lemma store32_apply:
  "store32 m a v x = (if in_reg a 4 x then ucast (drop_bit (8 * unat (x - a)) v) else m x)"
proof -
  have "in_reg a 4 x \<longleftrightarrow> x = a \<or> x = a + 1 \<or> x = a + 2 \<or> x = a + 3"
    by (rule in_reg_4)
  moreover have "unat (a + 1 - a) = 1" "unat (a + 2 - a) = 2" "unat (a + 3 - a) = 3"
    by simp_all
  ultimately show ?thesis by (auto simp: store32_def)
qed

lemma load32_cong: "(\<And>x. in_reg a 4 x \<Longrightarrow> m x = m' x) \<Longrightarrow> load32 m a = load32 m' a"
  by (simp add: load32_def in_reg_4)

lemma load16_cong: "m a = m' a \<Longrightarrow> m (a + 1) = m' (a + 1) \<Longrightarrow> load16 m a = load16 m' a"
  by (simp add: load16_def)

lemma load32_store32_same [mem_simps]: "load32 (store32 m a v) a = v"
proof (rule bit_word_eqI)
  fix n :: nat
  assume "n < LENGTH(32)"
  then consider "n < 8" | "8 \<le> n" "n < 16" | "16 \<le> n" "n < 24" | "24 \<le> n" "n < 32"
    by fastforce
  then show "bit (load32 (store32 m a v) a) n = bit v n"
    by cases (auto simp: load32_def store32_def bit_simps)
qed

lemma load32_store32_other [mem_simps]:
  "(\<And>x. in_reg b 4 x \<Longrightarrow> \<not> in_reg a 4 x) \<Longrightarrow> load32 (store32 m a v) b = load32 m b"
  by (rule load32_cong) (simp add: store32_apply)

end
