(* ===== verification/CMem.thy ===== *)
theory CMem
  imports Prelude
begin

text \<open>
  The memory half of \<open>lib/string.c\<close>: \<open>memset\<close>, \<open>memmove\<close>, \<open>memcpy\<close>,
  \<open>memcmp\<close> and \<open>memfind\<close>. The compiled \<open>memset\<close> and \<open>memmove\<close> (under
  \<open>#if ASM\<close>) drive the x86 string instructions, modelled here as loops over the
  count register; the portable versions of the \<open>#else\<close> branch are modelled beside
  them and proved equivalent. Pointers are 32-bit words and every routine works on
  the one byte memory; the routines that return their first argument are modelled
  by the memory they leave.
\<close>

section \<open>String instructions\<close>

text \<open>\<open>rep stosb\<close> and \<open>rep stosl\<close> with the direction flag clear: \<open>edi\<close>, the value
  register and the count register \<open>ecx\<close>.\<close>

fun rep_stosb :: "mem \<Rightarrow> u32 \<Rightarrow> byte \<Rightarrow> nat \<Rightarrow> mem" where
  "rep_stosb m edi al 0 = m"
| "rep_stosb m edi al (Suc ecx) = rep_stosb (m(edi := al)) (edi + 1) al ecx"

fun rep_stosl :: "mem \<Rightarrow> u32 \<Rightarrow> u32 \<Rightarrow> nat \<Rightarrow> mem" where
  "rep_stosl m edi eax 0 = m"
| "rep_stosl m edi eax (Suc ecx) = rep_stosl (store32 m edi eax) (edi + 4) eax ecx"

text \<open>One \<open>movsb\<close> or \<open>movsl\<close> moves a byte or a doubleword from \<open>esi\<close> to \<open>edi\<close>; \<open>rep\<close>
  repeats it, stepping both registers by the width, upwards after \<open>cld\<close> and
  downwards after \<open>std\<close>.\<close>

definition movsb :: "mem \<Rightarrow> u32 \<Rightarrow> u32 \<Rightarrow> mem" where
  "movsb m edi esi = m(edi := m esi)"

definition movsl :: "mem \<Rightarrow> u32 \<Rightarrow> u32 \<Rightarrow> mem" where
  "movsl m edi esi = store32 m edi (load32 m esi)"

fun rep_movs :: "(mem \<Rightarrow> u32 \<Rightarrow> u32 \<Rightarrow> mem) \<Rightarrow> u32 \<Rightarrow> mem \<Rightarrow> u32 \<Rightarrow> u32 \<Rightarrow> nat \<Rightarrow> mem" where
  "rep_movs mv step m edi esi 0 = m"
| "rep_movs mv step m edi esi (Suc ecx) = rep_movs mv step (mv m edi esi) (edi + step) (esi + step) ecx"

section \<open>The routines\<close>

definition memset :: "mem \<Rightarrow> u32 \<Rightarrow> u32 \<Rightarrow> u32 \<Rightarrow> mem" where
  "memset m v c n =
     (if n = 0 then m
      else if sint v smod 4 = 0 \<and> n mod 4 = 0 then
        (let c = c AND 0xFF;
             c = push_bit 24 c OR push_bit 16 c OR push_bit 8 c OR c
         in rep_stosl m v c (unat (n div 4)))
      else rep_stosb m v (ucast c) (unat n))"

definition memmove :: "mem \<Rightarrow> u32 \<Rightarrow> u32 \<Rightarrow> u32 \<Rightarrow> mem" where
  "memmove m dst src n =
     (let s = src; d = dst in
      if s < d \<and> s + n > d then
        (let s = s + n; d = d + n in
         if sint s smod 4 = 0 \<and> sint d smod 4 = 0 \<and> n mod 4 = 0
         then rep_movs movsl (- 4) m (d - 4) (s - 4) (unat (n div 4))
         else rep_movs movsb (- 1) m (d - 1) (s - 1) (unat n))
      else
        (if sint s smod 4 = 0 \<and> sint d smod 4 = 0 \<and> n mod 4 = 0
         then rep_movs movsl 4 m d s (unat (n div 4))
         else rep_movs movsb 1 m d s (unat n)))"

text \<open>The portable versions of the \<open>#else\<close> branch. The counter of \<open>memset_c\<close> is a
  signed \<open>int\<close>, as in the source.\<close>

function memset_c_loop :: "mem \<Rightarrow> u32 \<Rightarrow> byte \<Rightarrow> int \<Rightarrow> mem" where
  "memset_c_loop m p c k = (if k - 1 \<ge> 0 then memset_c_loop (m(p := c)) (p + 1) c (k - 1) else m)"
  by pat_completeness auto
termination
  by (relation "measure (\<lambda>(m, p, c, k). nat k)") auto

definition memset_c :: "mem \<Rightarrow> u32 \<Rightarrow> u32 \<Rightarrow> u32 \<Rightarrow> mem" where
  "memset_c m v c n = memset_c_loop m v (ucast c) (sint n)"

fun memmove_c_down :: "mem \<Rightarrow> u32 \<Rightarrow> u32 \<Rightarrow> nat \<Rightarrow> mem" where
  "memmove_c_down m d s 0 = m"
| "memmove_c_down m d s (Suc n) = memmove_c_down (m(d - 1 := m (s - 1))) (d - 1) (s - 1) n"

fun memmove_c_up :: "mem \<Rightarrow> u32 \<Rightarrow> u32 \<Rightarrow> nat \<Rightarrow> mem" where
  "memmove_c_up m d s 0 = m"
| "memmove_c_up m d s (Suc n) = memmove_c_up (m(d := m s)) (d + 1) (s + 1) n"

definition memmove_c :: "mem \<Rightarrow> u32 \<Rightarrow> u32 \<Rightarrow> u32 \<Rightarrow> mem" where
  "memmove_c m dst src n =
     (let s = src; d = dst in
      if s < d \<and> s + n > d then memmove_c_down m (d + n) (s + n) (unat n)
      else memmove_c_up m d s (unat n))"

definition memcpy :: "mem \<Rightarrow> u32 \<Rightarrow> u32 \<Rightarrow> u32 \<Rightarrow> mem" where
  "memcpy m dst src n = memmove m dst src n"

fun memcmp_loop :: "mem \<Rightarrow> u32 \<Rightarrow> u32 \<Rightarrow> nat \<Rightarrow> int" where
  "memcmp_loop m s1 s2 0 = 0"
| "memcmp_loop m s1 s2 (Suc n) =
     (if m s1 \<noteq> m s2 then uint (m s1) - uint (m s2) else memcmp_loop m (s1 + 1) (s2 + 1) n)"

definition memcmp :: "mem \<Rightarrow> u32 \<Rightarrow> u32 \<Rightarrow> u32 \<Rightarrow> int" where
  "memcmp m v1 v2 n = memcmp_loop m v1 v2 (unat n)"

function memfind_loop :: "mem \<Rightarrow> u32 \<Rightarrow> u32 \<Rightarrow> u32 \<Rightarrow> u32" where
  "memfind_loop m s ends c =
     (if s < ends then (if m s = ucast c then s else memfind_loop m (s + 1) ends c) else s)"
  by pat_completeness auto
termination
proof (relation "measure (\<lambda>(m, s, ends, c). unat ends - unat s)")
  show "wf (measure (\<lambda>(m, s, ends, c). unat ends - unat s))" by simp
next
  fix m :: mem and s ends c :: u32
  assume lt: "s < ends"
  then have "unat s < unat ends" by (simp add: word_less_nat_alt)
  moreover from this have "unat (s + 1) = unat s + 1" by (rule unat_plus_one)
  ultimately show "((m, s + 1, ends, c), m, s, ends, c) \<in> measure (\<lambda>(m, s, ends, c). unat ends - unat s)"
    by simp
qed

definition memfind :: "mem \<Rightarrow> u32 \<Rightarrow> u32 \<Rightarrow> u32 \<Rightarrow> u32" where
  "memfind m s c n = memfind_loop m s (s + n) c"

declare memset_c_loop.simps [simp del] memfind_loop.simps [simp del]

section \<open>Filling\<close>

lemma rep_stosb_apply:
  "n \<le> 4294967296 \<Longrightarrow> rep_stosb m a v n x = (if in_reg a n x then v else m x)"
proof (induction n arbitrary: m a)
  case 0
  then show ?case by simp
next
  case (Suc n)
  then show ?case by (simp add: in_reg_Suc)
qed

lemma rep_stosl_apply:
  assumes "\<And>k. k < 4 \<Longrightarrow> ucast (drop_bit (8 * k) v) = b"
  shows "4 * n \<le> 4294967296 \<Longrightarrow> rep_stosl m a v n x = (if in_reg a (4 * n) x then b else m x)"
proof (induction n arbitrary: m a)
  case 0
  then show ?case by simp
next
  case (Suc n)
  have "in_reg a (4 * Suc n) x \<longleftrightarrow> in_reg a 4 x \<or> in_reg (a + 4) (4 * n) x"
    using in_reg_add [of 4 "4 * n" a x] Suc.prems by simp
  moreover have "store32 m a v x = (if in_reg a 4 x then b else m x)"
    using assms by (simp add: store32_apply in_reg_def)
  moreover have "rep_stosl (store32 m a v) (a + 4) v n x
      = (if in_reg (a + 4) (4 * n) x then b else store32 m a v x)"
    using Suc by simp
  ultimately show ?case by simp
qed

lemma splat_byte:
  assumes "k < 4"
  shows "ucast (drop_bit (8 * k) (push_bit 24 (c AND 0xFF) OR push_bit 16 (c AND 0xFF)
    OR push_bit 8 (c AND 0xFF) OR (c AND 0xFF)) :: u32) = (ucast c :: byte)"
proof -
  have mask: "(0xFF :: u32) = mask 8" by (simp add: mask_eq_exp_minus_1)
  from assms consider "k = 0" | "k = 1" | "k = 2" | "k = 3" by linarith
  then show ?thesis
    by cases (simp_all only: mask; rule bit_word_eqI; auto simp: bit_simps)+
qed

lemma unat_div4: "unat (n div 4 :: u32) = unat n div 4"
  by (simp add: unat_div)

lemma unat_mod4: "n mod 4 = (0 :: u32) \<longleftrightarrow> unat n mod 4 = 0"
  by (simp add: word_unat_eq_iff unat_mod)

lemma memset_apply [mem_simps]:
  "memset m v c n x = (if in_reg v (unat n) x then ucast c else m x)"
proof -
  have le: "unat n \<le> 4294967296" using unat_lt32 [of n] by linarith
  consider "n = 0" | "n \<noteq> 0" "\<not> (sint v smod 4 = 0 \<and> n mod 4 = 0)"
    | "n \<noteq> 0" "sint v smod 4 = 0" "n mod 4 = 0" by argo
  then show ?thesis
  proof cases
    case 1
    then show ?thesis by (simp add: memset_def)
  next
    case 2
    then have "memset m v c n = rep_stosb m v (ucast c) (unat n)"
      by (simp only: memset_def if_False)
    with le show ?thesis by (simp add: rep_stosb_apply)
  next
    case 3
    then have "4 * unat (n div 4) = unat n"
      using unat_mod4 [of n] mult_div_mod_eq [of 4 "unat n"] by (simp only: unat_div4)
    moreover from this le have "rep_stosl m v (push_bit 24 (c AND 0xFF) OR push_bit 16 (c AND 0xFF)
        OR push_bit 8 (c AND 0xFF) OR (c AND 0xFF)) (unat (n div 4)) x
        = (if in_reg v (4 * unat (n div 4)) x then ucast c else m x)"
      by (intro rep_stosl_apply splat_byte) simp_all
    ultimately show ?thesis
      using 3 by (simp only: memset_def if_False Let_def simp_thms if_True)
  qed
qed

lemma memset_c_loop_apply:
  "k \<le> 4294967296 \<Longrightarrow> memset_c_loop m p c k x = (if in_reg p (nat k) x then c else m x)"
proof (induction m p c k rule: memset_c_loop.induct)
  case (1 m p c k)
  show ?case
  proof (cases "k - 1 \<ge> 0")
    case True
    then have "nat k = Suc (nat (k - 1))" by simp
    moreover have "in_reg p (Suc (nat (k - 1))) x \<longleftrightarrow> x = p \<or> in_reg (p + 1) (nat (k - 1)) x"
      using "1.prems" True by (intro in_reg_Suc) linarith
    moreover have "memset_c_loop (m(p := c)) (p + 1) c (k - 1) x
        = (if in_reg (p + 1) (nat (k - 1)) x then c else (m(p := c)) x)"
      using "1.IH" "1.prems" True by (simp del: fun_upd_apply)
    moreover have "memset_c_loop m p c k = memset_c_loop (m(p := c)) (p + 1) c (k - 1)"
      using True memset_c_loop.simps [of m p c k] by simp
    ultimately show ?thesis by simp
  next
    case False
    then show ?thesis by (simp add: memset_c_loop.simps [of m p c k])
  qed
qed

section \<open>Moving\<close>

text \<open>What the copying loops rely on: one move transfers the \<open>w\<close> bytes at \<open>s\<close> to
  \<open>d\<close>, reading all of them before it writes any.\<close>

locale block_mover =
  fixes mv :: "mem \<Rightarrow> u32 \<Rightarrow> u32 \<Rightarrow> mem" and w :: nat
  assumes mv_apply: "mv m d s x = (if in_reg d w x then m (s + (x - d)) else m x)"
    and w_pos: "0 < w"
begin

text \<open>Upwards copying is right when the destination starts below the source or behind
  its end.\<close>

lemma rep_up:
  "unat d + w * n \<le> 4294967296 \<Longrightarrow> unat s + w * n \<le> 4294967296 \<Longrightarrow>
   unat d \<le> unat s \<or> unat s + w * n \<le> unat d \<Longrightarrow>
   rep_movs mv (of_nat w) m d s n x = (if in_reg d (w * n) x then m (s + (x - d)) else m x)"
proof (induction n arbitrary: m d s)
  case 0
  then show ?case by simp
next
  case (Suc n)
  let ?W = "of_nat w :: u32"
  have split: "in_reg d (w * Suc n) x \<longleftrightarrow> in_reg d w x \<or> in_reg (d + ?W) (w * n) x"
    using in_reg_add [of w "w * n" d x] Suc.prems by simp
  show ?case
  proof (cases "n = 0")
    case True
    then show ?thesis by (simp add: mv_apply)
  next
    case False
    with w_pos have pos: "0 < w * n" by simp
    then have "0 < w * n" .
    moreover have "w + w * n \<le> 4294967296" using Suc.prems by simp
    ultimately have W: "unat ?W = w" by (intro unat_of_nat32) linarith
    have "unat d + w < 4294967296" "unat s + w < 4294967296"
      using Suc.prems(1,2) pos unfolding mult_Suc_right by linarith+
    then have dW: "unat (d + ?W) = unat d + w" and sW: "unat (s + ?W) = unat s + w"
      by (simp_all add: unat_add_word W)
    have IH: "rep_movs mv ?W (mv m d s) (d + ?W) (s + ?W) n x
        = (if in_reg (d + ?W) (w * n) x then mv m d s (s + ?W + (x - (d + ?W))) else mv m d s x)"
      by (rule Suc.IH) (use Suc.prems dW sW in auto)
    have addr: "s + ?W + (x - (d + ?W)) = s + (x - d)" by (simp add: algebra_simps)
    show ?thesis
    proof (cases "in_reg (d + ?W) (w * n) x")
      case True
      then have x: "unat d + w \<le> unat x" "unat x < unat d + w + w * n"
        using Suc.prems by (simp_all add: in_reg_nat dW)
      then have "unat (s + (x - d)) = unat s + (unat x - unat d)"
        using Suc.prems by (simp add: unat_add_word unat_diff_word)
      then have "\<not> in_reg d w (s + (x - d))"
        using x Suc.prems by (auto simp: in_reg_nat)
      then show ?thesis using True IH addr split mv_apply [of m d s "s + (x - d)"] by simp
    next
      case False
      then show ?thesis using IH split mv_apply [of m d s x] by simp
    qed
  qed
qed

text \<open>Downwards copying is right when the destination does not start below the source.
  The registers start at the last of the \<open>n\<close> blocks.\<close>

lemma rep_down:
  "unat d + w * n \<le> 4294967296 \<Longrightarrow> unat s + w * n \<le> 4294967296 \<Longrightarrow> unat s \<le> unat d \<Longrightarrow>
   rep_movs mv (- of_nat w) m (d + of_nat (w * n) - of_nat w) (s + of_nat (w * n) - of_nat w) n x
   = (if in_reg d (w * n) x then m (s + (x - d)) else m x)"
proof (induction n arbitrary: m)
  case 0
  then show ?case by simp
next
  case (Suc n)
  let ?W = "of_nat w :: u32" and ?N = "of_nat (w * n) :: u32"
  let ?d = "d + ?N" and ?s = "s + ?N"
  have split: "in_reg d (w * Suc n) x \<longleftrightarrow> in_reg d (w * n) x \<or> in_reg ?d w x"
    using in_reg_add [of "w * n" w d x] Suc.prems by (simp add: add.commute)
  have N: "unat ?N = w * n" using Suc.prems w_pos by (intro unat_of_nat32) simp
  have dN: "unat ?d = unat d + w * n" using Suc.prems w_pos by (simp add: unat_add_word N del: of_nat_mult)
  have start: "d + of_nat (w * Suc n) - ?W = ?d" "s + of_nat (w * Suc n) - ?W = ?s"
    by (simp_all add: algebra_simps)
  have next_: "?d + - ?W = d + ?N - ?W" "?s + - ?W = s + ?N - ?W" by simp_all
  have IH: "rep_movs mv (- ?W) (mv m ?d ?s) (d + ?N - ?W) (s + ?N - ?W) n x
      = (if in_reg d (w * n) x then mv m ?d ?s (s + (x - d)) else mv m ?d ?s x)"
    by (rule Suc.IH) (use Suc.prems in auto)
  show ?case
  proof (cases "in_reg d (w * n) x")
    case True
    then have x: "unat d \<le> unat x" "unat x < unat d + w * n"
      using Suc.prems by (simp_all add: in_reg_nat)
    then have "unat (s + (x - d)) = unat s + (unat x - unat d)"
      using Suc.prems by (simp add: unat_add_word unat_diff_word)
    then have "\<not> in_reg ?d w (s + (x - d))"
      using x Suc.prems by (auto simp: in_reg_nat dN simp del: of_nat_mult)
    then show ?thesis
      using True IH split start next_ mv_apply [of m ?d ?s "s + (x - d)"]
      by (simp del: of_nat_mult)
  next
    case False
    have "?s + (x - ?d) = s + (x - d)" by (simp add: algebra_simps)
    then show ?thesis
      using False IH split start next_ mv_apply [of m ?d ?s x] by (simp del: of_nat_mult)
  qed
qed

end

interpretation movsb: block_mover movsb 1
proof
  show "movsb m d s x = (if in_reg d 1 x then m (s + (x - d)) else m x)" for m d s x
    using in_reg_Suc [of 0 d x] by (simp add: movsb_def)
qed simp

interpretation movsl: block_mover movsl 4
proof
  show "movsl m d s x = (if in_reg d 4 x then m (s + (x - d)) else m x)" for m d s x
    by (auto simp: movsl_def store32_def load32_def in_reg_4 bit_simps intro!: bit_word_eqI)
qed simp

lemma memmove_apply [mem_simps]:
  assumes "unat src + unat n < 4294967296" and "unat dst + unat n \<le> 4294967296"
  shows "memmove m dst src n x = (if in_reg dst (unat n) x then m (src + (x - dst)) else m x)"
proof -
  let ?copy = "\<lambda>x. if in_reg dst (unat n) x then m (src + (x - dst)) else m x"
  have quad: "4 * unat (n div 4) = unat n" if "n mod 4 = 0"
    using that unat_mod4 [of n] mult_div_mod_eq [of 4 "unat n"] by (simp only: unat_div4)
  have below: "src < dst \<longleftrightarrow> unat src < unat dst" by (simp add: word_less_nat_alt)
  have ends: "src + n > dst \<longleftrightarrow> unat dst < unat src + unat n"
    using assms by (simp add: word_less_nat_alt unat_add_word)
  show ?thesis
  proof (cases "src < dst \<and> src + n > dst")
    case True
    have down4: "rep_movs movsl (- 4) m (dst + n - 4) (src + n - 4) (unat (n div 4)) x = ?copy x"
      if "n mod 4 = 0"
      using movsl.rep_down [of dst "unat (n div 4)" src m x] assms True
      by (simp add: quad [OF that] below del: of_nat_mult)
    have down1: "rep_movs movsb (- 1) m (dst + n - 1) (src + n - 1) (unat n) x = ?copy x"
      using movsb.rep_down [of dst "unat n" src m x] assms True by (simp add: below)
    show ?thesis
      by (cases "sint (src + n) smod 4 = 0 \<and> sint (dst + n) smod 4 = 0 \<and> n mod 4 = 0")
        (use True down4 down1 in \<open>simp_all only: memmove_def Let_def if_True if_False simp_thms\<close>)
  next
    case False
    then have apart: "unat dst \<le> unat src \<or> unat src + unat n \<le> unat dst"
      by (auto simp: below ends)
    have up4: "rep_movs movsl 4 m dst src (unat (n div 4)) x = ?copy x" if "n mod 4 = 0"
      using movsl.rep_up [of dst "unat (n div 4)" src m x] assms apart
      by (simp add: quad [OF that])
    have up1: "rep_movs movsb 1 m dst src (unat n) x = ?copy x"
      using movsb.rep_up [of dst "unat n" src m x] assms apart by simp
    show ?thesis
      by (cases "sint src smod 4 = 0 \<and> sint dst smod 4 = 0 \<and> n mod 4 = 0")
        (use False up4 up1 in \<open>simp_all only: memmove_def Let_def if_False if_True simp_thms\<close>)
  qed
qed

lemma memmove_c_up_movsb: "memmove_c_up m d s n = rep_movs movsb 1 m d s n"
  by (induction n arbitrary: m d s) (simp_all add: movsb_def)

lemma memmove_c_down_movsb: "memmove_c_down m d s n = rep_movs movsb (- 1) m (d - 1) (s - 1) n"
  by (induction n arbitrary: m d s) (simp_all add: movsb_def)

lemma memmove_c_apply:
  assumes "unat src + unat n < 4294967296" and "unat dst + unat n \<le> 4294967296"
  shows "memmove_c m dst src n x = (if in_reg dst (unat n) x then m (src + (x - dst)) else m x)"
proof (cases "src < dst \<and> src + n > dst")
  case True
  then have "unat src \<le> unat dst" by (simp add: word_less_nat_alt)
  with movsb.rep_down [of dst "unat n" src m x] assms True show ?thesis
    by (simp add: memmove_c_def memmove_c_down_movsb)
next
  case False
  then have "unat dst \<le> unat src \<or> unat src + unat n \<le> unat dst"
    using assms by (auto simp: word_less_nat_alt unat_add_word)
  with movsb.rep_up [of dst "unat n" src m x] assms
  have "rep_movs movsb 1 m dst src (unat n) x = (if in_reg dst (unat n) x then m (src + (x - dst)) else m x)"
    by simp
  with False show ?thesis
    by (simp only: memmove_c_def memmove_c_up_movsb Let_def if_False)
qed

section \<open>Comparing and searching\<close>

lemma memcmp_loop_diff:
  "memcmp_loop m a b n =
     (case [i \<leftarrow> [0..<n]. m (a + of_nat i) \<noteq> m (b + of_nat i)] of
        [] \<Rightarrow> 0 | i # _ \<Rightarrow> uint (m (a + of_nat i)) - uint (m (b + of_nat i)))"
proof (induction n arbitrary: a b)
  case 0
  then show ?case by simp
next
  case (Suc n)
  have shift: "[0..<Suc n] = 0 # map Suc [0..<n]"
    by (simp add: upt_conv_Cons map_Suc_upt del: upt_Suc)
  show ?case
    by (simp add: Suc shift filter_map o_def add.assoc del: upt_Suc split: list.split)
qed

lemma memfind_loop_found:
  "unat s \<le> unat ends \<Longrightarrow>
   (let r = memfind_loop m s ends c in unat s \<le> unat r \<and> unat r \<le> unat ends
      \<and> (r = ends \<or> m r = ucast c)
      \<and> (\<forall>x. unat s \<le> unat x \<and> unat x < unat r \<longrightarrow> m x \<noteq> ucast c))"
proof (induction m s ends c rule: memfind_loop.induct)
  case (1 m s ends c)
  show ?case
  proof (cases "s < ends \<and> m s \<noteq> ucast c")
    case True
    then have lt: "unat s < unat ends" by (simp add: word_less_nat_alt)
    then have s1: "unat (s + 1) = unat s + 1" by (rule unat_plus_one)
    have rest: "unat s \<le> unat x \<longleftrightarrow> x = s \<or> unat (s + 1) \<le> unat x" for x
      by (auto simp: s1 le_less word_unat_eq_iff)
    show ?thesis
      using "1.IH" True lt s1 by (subst memfind_loop.simps) (auto simp: Let_def rest)
  next
    case False
    with "1.prems" show ?thesis
      by (subst memfind_loop.simps) (auto simp: word_less_nat_alt word_unat_eq_iff Let_def
        memfind_loop.simps [of m s ends c])
  qed
qed

section \<open>Properties\<close>

text \<open>For sizes below two gigabytes the compiled memset, which chooses between byte and
  doubleword string stores, leaves exactly the memory of the portable loop: the region
  filled with the low byte of the argument, everything else unchanged.\<close>

lemma memset_equiv:
  assumes "unat n < 2147483648"
  shows "memset m v c n = memset_c m v c n
    \<and> memset m v c n = (\<lambda>x. if in_reg v (unat n) x then ucast c else m x)"
proof -
  have fill: "memset m v c n = (\<lambda>x. if in_reg v (unat n) x then ucast c else m x)"
    by (rule ext) (rule memset_apply)
  moreover have "memset_c m v c n = (\<lambda>x. if in_reg v (unat n) x then ucast c else m x)"
  proof (rule ext)
    fix x
    show "memset_c m v c n x = (if in_reg v (unat n) x then ucast c else m x)"
      unfolding memset_c_def sint_small [OF assms] unat_eq_nat_uint
      by (rule memset_c_loop_apply [OF less_imp_le [OF uint_lt32]])
  qed
  ultimately show ?thesis by simp
qed

lemma memset_equiv_witness:
  "memset (\<lambda>_. 7) 16 0x141 8 = memset_c (\<lambda>_. 7) 16 0x141 8
    \<and> memset (\<lambda>_. 7) 16 0x141 8 = (\<lambda>x. if in_reg 16 (unat (8 :: u32)) x then ucast (0x141 :: u32) else 7)"
  by (rule memset_equiv) simp

text \<open>C21: memmove moves: when neither region wraps around the end of memory, the
  destination ends up holding what the source held before the call, also when the two
  overlap in either direction; nothing else changes; and the string-instruction version
  leaves the same memory as the portable loops.\<close>

theorem memmove_moves:
  assumes "unat src + unat n < 4294967296" and "unat dst + unat n \<le> 4294967296"
  shows "mem_read (memmove m dst src n) dst (unat n) = mem_read m src (unat n)
    \<and> (\<forall>x. in_reg dst (unat n) x \<or> memmove m dst src n x = m x)
    \<and> memmove m dst src n = memmove_c m dst src n"
proof (intro conjI)
  have le: "unat n \<le> 4294967296" using unat_lt32 [of n] by linarith
  show "mem_read (memmove m dst src n) dst (unat n) = mem_read m src (unat n)"
    by (intro nth_equalityI) (simp_all add: memmove_apply [OF assms] in_reg_index [OF _ le])
  show "\<forall>x. in_reg dst (unat n) x \<or> memmove m dst src n x = m x"
    by (simp add: memmove_apply [OF assms])
  show "memmove m dst src n = memmove_c m dst src n"
    by (rule ext) (simp only: memmove_apply [OF assms] memmove_c_apply [OF assms])
qed

theorem memmove_moves_witness:
  "mem_read (memmove ucast 102 100 8) 102 (unat (8 :: u32)) = mem_read ucast 100 (unat (8 :: u32))
    \<and> (\<forall>x. in_reg 102 (unat (8 :: u32)) x \<or> memmove ucast 102 100 8 x = ucast x)
    \<and> memmove ucast 102 100 8 = memmove_c ucast 102 100 8"
  by (rule memmove_moves) simp_all

text \<open>Memcmp returns the difference of the first pair of differing bytes, and zero
  exactly when the two regions are equal.\<close>

lemma memcmp_first_difference:
  "memcmp m a b n =
     (case [i \<leftarrow> [0..<unat n]. mem_read m a (unat n) ! i \<noteq> mem_read m b (unat n) ! i] of
        [] \<Rightarrow> 0 | i # _ \<Rightarrow> uint (mem_read m a (unat n) ! i) - uint (mem_read m b (unat n) ! i))
    \<and> (memcmp m a b n = 0 \<longleftrightarrow> mem_read m a (unat n) = mem_read m b (unat n))"
proof -
  let ?d = "[i \<leftarrow> [0..<unat n]. m (a + of_nat i) \<noteq> m (b + of_nat i)]"
  have d: "[i \<leftarrow> [0..<unat n]. mem_read m a (unat n) ! i \<noteq> mem_read m b (unat n) ! i] = ?d"
    by (rule filter_cong) auto
  have sub: "set ?d \<subseteq> {0..<unat n}" by auto
  have eq: "mem_read m a (unat n) = mem_read m b (unat n) \<longleftrightarrow> ?d = []"
    by (auto simp: mem_read_def filter_empty_conv)
  show ?thesis
  proof (cases ?d)
    case Nil
    then show ?thesis by (simp only: memcmp_def memcmp_loop_diff d eq) simp
  next
    case (Cons i js)
    then have "i \<in> set ?d" by simp
    then have "i < unat n" "m (a + of_nat i) \<noteq> m (b + of_nat i)" by auto
    with Cons show ?thesis
      by (simp only: memcmp_def memcmp_loop_diff d eq) (simp add: word_uint_eq_iff)
  qed
qed

end
