(* ===== verification/CString.thy ===== *)
theory CString
  imports Prelude
begin

text \<open>
  The string half of \<open>lib/string.c\<close>. A \<open>char *\<close> is an address of the byte memory;
  a loop that runs until it meets a NUL byte need not end, so these loops are
  \<open>partial_function (option)\<close>s whose \<open>None\<close> is "does not return". \<open>cstr m s xs\<close>
  says that the NUL-terminated string at \<open>s\<close> has the bytes \<open>xs\<close>; under it every
  routine is proved to return, with the value and the memory it should.
  Functions that return a pointer and write memory return the pair.
\<close>

section \<open>The routines\<close>

partial_function (option) strlen_loop :: "mem \<Rightarrow> u32 \<Rightarrow> u32 \<Rightarrow> u32 option" where
  "strlen_loop m s n = (if m s \<noteq> 0 then strlen_loop m (s + 1) (n + 1) else Some n)"

definition strlen :: "mem \<Rightarrow> u32 \<Rightarrow> u32 option" where
  "strlen m s = strlen_loop m s 0"

fun strnlen_loop :: "mem \<Rightarrow> u32 \<Rightarrow> nat \<Rightarrow> u32 \<Rightarrow> u32" where
  "strnlen_loop m s 0 n = n"
| "strnlen_loop m s (Suc sz) n = (if m s \<noteq> 0 then strnlen_loop m (s + 1) sz (n + 1) else n)"

definition strnlen :: "mem \<Rightarrow> u32 \<Rightarrow> u32 \<Rightarrow> u32" where
  "strnlen m s sz = strnlen_loop m s (unat sz) 0"

partial_function (option) strcpy_loop :: "mem \<Rightarrow> u32 \<Rightarrow> u32 \<Rightarrow> mem option" where
  "strcpy_loop m dst src =
     (if m src \<noteq> 0 then strcpy_loop (m(dst := m src)) (dst + 1) (src + 1)
      else Some (m(dst := m src)))"

definition strcpy :: "mem \<Rightarrow> u32 \<Rightarrow> u32 \<Rightarrow> (u32 \<times> mem) option" where
  "strcpy m dst src = map_option (\<lambda>m'. (dst, m')) (strcpy_loop m dst src)"

definition strcat :: "mem \<Rightarrow> u32 \<Rightarrow> u32 \<Rightarrow> (u32 \<times> mem) option" where
  "strcat m dst src =
     Option.bind (strlen m dst) (\<lambda>len.
       Option.bind (strcpy m (dst + len) src) (\<lambda>(_, m'). Some (dst, m')))"

fun strncpy_loop :: "mem \<Rightarrow> u32 \<Rightarrow> u32 \<Rightarrow> nat \<Rightarrow> mem" where
  "strncpy_loop m dst src 0 = m"
| "strncpy_loop m dst src (Suc k) =
     (let m' = m(dst := m src)
      in strncpy_loop m' (dst + 1) (if m' src \<noteq> 0 then src + 1 else src) k)"

definition strncpy :: "mem \<Rightarrow> u32 \<Rightarrow> u32 \<Rightarrow> u32 \<Rightarrow> u32 \<times> mem" where
  "strncpy m dst src sz = (dst, strncpy_loop m dst src (unat sz))"

text \<open>The loop of \<open>strlcpy\<close> decrements \<open>size\<close> before it tests it; the counter of the
  model is the decremented value.\<close>

fun strlcpy_loop :: "mem \<Rightarrow> u32 \<Rightarrow> u32 \<Rightarrow> nat \<Rightarrow> u32 \<times> mem" where
  "strlcpy_loop m dst src 0 = (dst, m)"
| "strlcpy_loop m dst src (Suc k) =
     (if m src \<noteq> 0 then strlcpy_loop (m(dst := m src)) (dst + 1) (src + 1) k else (dst, m))"

definition strlcpy :: "mem \<Rightarrow> u32 \<Rightarrow> u32 \<Rightarrow> u32 \<Rightarrow> u32 \<times> mem" where
  "strlcpy m dst src sz =
     (let dst_in = dst in
      if sz > 0 then
        (let (dst, m) = strlcpy_loop m dst src (unat (sz - 1));
             m = m(dst := 0)
         in (dst - dst_in, m))
      else (dst - dst_in, m))"

partial_function (option) strcmp :: "mem \<Rightarrow> u32 \<Rightarrow> u32 \<Rightarrow> int option" where
  "strcmp m p q =
     (if m p \<noteq> 0 \<and> m p = m q then strcmp m (p + 1) (q + 1)
      else Some (uint (m p) - uint (m q)))"

fun strncmp_loop :: "mem \<Rightarrow> u32 \<Rightarrow> u32 \<Rightarrow> nat \<Rightarrow> int" where
  "strncmp_loop m p q 0 = 0"
| "strncmp_loop m p q (Suc n) =
     (if m p \<noteq> 0 \<and> m p = m q then strncmp_loop m (p + 1) (q + 1) n
      else uint (m p) - uint (m q))"

definition strncmp :: "mem \<Rightarrow> u32 \<Rightarrow> u32 \<Rightarrow> u32 \<Rightarrow> int" where
  "strncmp m p q n = strncmp_loop m p q (unat n)"

partial_function (option) strchr :: "mem \<Rightarrow> u32 \<Rightarrow> byte \<Rightarrow> u32 option" where
  "strchr m s c = (if m s \<noteq> 0 then (if m s = c then Some s else strchr m (s + 1) c) else Some 0)"

partial_function (option) strfind :: "mem \<Rightarrow> u32 \<Rightarrow> byte \<Rightarrow> u32 option" where
  "strfind m s c = (if m s \<noteq> 0 then (if m s = c then Some s else strfind m (s + 1) c) else Some s)"

section \<open>strtol\<close>

text \<open>The three phases of \<open>strtol\<close>: white space and sign, base prefix, digits. Characters
  are signed \<open>char\<close>s, compared as such; \<open>long\<close> is 32 bits and the accumulator wraps.\<close>

definition chr :: "char \<Rightarrow> byte" where
  "chr c = word_of_nat (of_char c)"

partial_function (option) skip_blank :: "mem \<Rightarrow> u32 \<Rightarrow> u32 option" where
  "skip_blank m s = (if m s = chr (CHR '' '') \<or> m s = chr (CHR 0x09) then skip_blank m (s + 1) else Some s)"

definition strtol_sign :: "mem \<Rightarrow> u32 \<Rightarrow> u32 \<times> bool" where
  "strtol_sign m s =
     (if m s = chr (CHR ''+'') then (s + 1, False)
      else if m s = chr (CHR ''-'') then (s + 1, True)
      else (s, False))"

definition strtol_base :: "mem \<Rightarrow> u32 \<Rightarrow> int \<Rightarrow> u32 \<times> int" where
  "strtol_base m s base =
     (if (base = 0 \<or> base = 16) \<and> m s = chr (CHR ''0'') \<and> m (s + 1) = chr (CHR ''x'') then (s + 2, 16)
      else if base = 0 \<and> m s = chr (CHR ''0'') then (s + 1, 8)
      else if base = 0 then (s, 10)
      else (s, base))"

definition strtol_digit :: "byte \<Rightarrow> int option" where
  "strtol_digit c =
     (if sint c \<ge> sint (chr (CHR ''0'')) \<and> sint c \<le> sint (chr (CHR ''9''))
      then Some (sint c - sint (chr (CHR ''0'')))
      else if sint c \<ge> sint (chr (CHR ''a'')) \<and> sint c \<le> sint (chr (CHR ''z''))
      then Some (sint c - sint (chr (CHR ''a'')) + 10)
      else if sint c \<ge> sint (chr (CHR ''A'')) \<and> sint c \<le> sint (chr (CHR ''Z''))
      then Some (sint c - sint (chr (CHR ''A'')) + 10)
      else None)"

partial_function (option) strtol_digits :: "mem \<Rightarrow> u32 \<Rightarrow> int \<Rightarrow> u32 \<Rightarrow> (u32 \<times> u32) option" where
  "strtol_digits m s base val =
     (case strtol_digit (m s) of
        None \<Rightarrow> Some (s, val)
      | Some dig \<Rightarrow>
          (if dig \<ge> base then Some (s, val)
           else strtol_digits m (s + 1) base (val * word_of_int base + word_of_int dig)))"

text \<open>The result is the value and the end pointer; a non-null \<open>endptr\<close> has the end
  pointer stored through it.\<close>

definition strtol :: "mem \<Rightarrow> u32 \<Rightarrow> u32 \<Rightarrow> int \<Rightarrow> (u32 \<times> mem) option" where
  "strtol m s endptr base =
     Option.bind (skip_blank m s) (\<lambda>s.
       let (s, neg) = strtol_sign m s;
           (s, base) = strtol_base m s base
       in Option.bind (strtol_digits m s base 0) (\<lambda>(s, val).
            Some (if neg then - val else val, if endptr \<noteq> 0 then store32 m endptr s else m)))"

section \<open>Strings in memory\<close>

fun cstr :: "mem \<Rightarrow> u32 \<Rightarrow> byte list \<Rightarrow> bool" where
  "cstr m s [] \<longleftrightarrow> m s = 0"
| "cstr m s (x # xs) \<longleftrightarrow> m s = x \<and> x \<noteq> 0 \<and> cstr m (s + 1) xs"

definition disjoint_reg :: "u32 \<Rightarrow> nat \<Rightarrow> u32 \<Rightarrow> nat \<Rightarrow> bool" where
  "disjoint_reg a n b k \<longleftrightarrow> (\<forall>x. in_reg a n x \<longrightarrow> \<not> in_reg b k x)"

lemma cstr_nonzero: "cstr m s xs \<Longrightarrow> 0 \<notin> set xs"
  by (induction xs arbitrary: s) auto

lemma cstr_append:
  "cstr m s (xs @ ys) \<longleftrightarrow> 0 \<notin> set xs \<and> (\<forall>i < length xs. m (s + of_nat i) = xs ! i)
     \<and> cstr m (s + of_nat (length xs)) ys"
  by (induction xs arbitrary: s) (auto simp: All_less_Suc2 algebra_simps)

lemma cstr_cong:
  "(\<And>x. in_reg s (Suc (length xs)) x \<Longrightarrow> m x = m' x) \<Longrightarrow> length xs < 4294967296 \<Longrightarrow>
   cstr m s xs = cstr m' s xs"
proof (induction xs arbitrary: s)
  case Nil
  then show ?case by simp
next
  case (Cons x xs)
  then have "m s = m' s" by simp
  moreover have "cstr m (s + 1) xs = cstr m' (s + 1) xs"
    by (rule Cons.IH) (use Cons.prems in \<open>auto simp: in_reg_Suc [of "Suc (length xs)"]\<close>)
  ultimately show ?case by simp
qed

lemma cstr_mem_write:
  "0 \<notin> set xs \<Longrightarrow> length xs < 4294967296 \<Longrightarrow> cstr (mem_write m s (xs @ [0])) s xs"
proof -
  assume nz: "0 \<notin> set xs" and len: "length xs < 4294967296"
  have "mem_write m s (xs @ [0]) (s + of_nat i) = (xs @ [0]) ! i" if "i \<le> length xs" for i
    using that len by (intro mem_write_nth) auto
  then have "\<forall>i < length xs. mem_write m s (xs @ [0]) (s + of_nat i) = xs ! i"
    "mem_write m s (xs @ [0]) (s + of_nat (length xs)) = 0"
    by (auto simp: nth_append)
  with nz cstr_append [of "mem_write m s (xs @ [0])" s xs "[]"] show ?thesis by simp
qed

lemma disjoint_reg_Suc:
  assumes "disjoint_reg a (Suc n) b (Suc k)" "n < 4294967296" "k < 4294967296"
  shows "disjoint_reg (a + 1) n (b + 1) k" "disjoint_reg (a + 1) n b (Suc k)"
    "\<not> in_reg b (Suc k) a" "\<not> in_reg a (Suc n) b"
  using assms by (auto simp: disjoint_reg_def in_reg_Suc)

text \<open>A byte written outside a string leaves the rest of the string alone.\<close>

lemma cstr_tail_upd:
  assumes "cstr m src (x # xs)" and "\<not> in_reg src (Suc (Suc (length xs))) dst"
    and "length xs < 4294967295"
  shows "cstr (m(dst := b)) (src + 1) xs"
proof -
  have "m y = (m(dst := b)) y" if "in_reg (src + 1) (Suc (length xs)) y" for y
  proof -
    have "in_reg src (Suc (Suc (length xs))) y"
      using that assms(3) by (subst in_reg_Suc) auto
    with assms(2) show ?thesis by auto
  qed
  moreover have "length xs < 4294967296" using assms(3) by simp
  ultimately have "cstr m (src + 1) xs = cstr (m(dst := b)) (src + 1) xs"
    by (rule cstr_cong)
  with assms(1) show ?thesis by simp
qed

section \<open>What the routines compute\<close>

lemma strlen_loop_eq: "cstr m s xs \<Longrightarrow> strlen_loop m s n = Some (n + of_nat (length xs))"
  by (induction xs arbitrary: s n) (auto simp: strlen_loop.simps add.assoc)

lemma strlen_eq: "cstr m s xs \<Longrightarrow> strlen m s = Some (of_nat (length xs))"
  by (simp add: strlen_def strlen_loop_eq)

lemma strnlen_loop_eq:
  "cstr m s xs \<Longrightarrow> strnlen_loop m s k n = n + of_nat (min k (length xs))"
proof (induction xs arbitrary: s k n)
  case Nil
  then show ?case by (cases k) auto
next
  case (Cons x xs)
  then show ?case by (cases k) (auto simp: add.assoc)
qed

lemma strnlen_eq: "cstr m s xs \<Longrightarrow> strnlen m s sz = of_nat (min (unat sz) (length xs))"
  by (simp add: strnlen_def strnlen_loop_eq)

lemma strcpy_loop_eq:
  "cstr m src xs \<Longrightarrow> disjoint_reg dst (Suc (length xs)) src (Suc (length xs)) \<Longrightarrow>
   length xs < 4294967295 \<Longrightarrow> strcpy_loop m dst src = Some (mem_write m dst (xs @ [0]))"
proof (induction xs arbitrary: m dst src)
  case Nil
  then show ?case by (subst strcpy_loop.simps) simp
next
  case (Cons x xs)
  have d: "disjoint_reg (dst + 1) (Suc (length xs)) (src + 1) (Suc (length xs))"
    "\<not> in_reg src (Suc (Suc (length xs))) dst"
    using disjoint_reg_Suc [of dst "Suc (length xs)" src "Suc (length xs)"] Cons.prems by simp_all
  have "cstr (m(dst := x)) (src + 1) xs"
    by (rule cstr_tail_upd [OF Cons.prems(1) d(2)]) (use Cons.prems in simp)
  from Cons.IH [OF this d(1)] Cons.prems
  have "strcpy_loop (m(dst := x)) (dst + 1) (src + 1) = Some (mem_write (m(dst := x)) (dst + 1) (xs @ [0]))"
    by (simp del: fun_upd_apply)
  then show ?case
    using Cons.prems(1) by (subst strcpy_loop.simps) simp
qed

lemma strcpy_eq:
  "cstr m src xs \<Longrightarrow> disjoint_reg dst (Suc (length xs)) src (Suc (length xs)) \<Longrightarrow>
   length xs < 4294967295 \<Longrightarrow> strcpy m dst src = Some (dst, mem_write m dst (xs @ [0]))"
  by (simp add: strcpy_def strcpy_loop_eq)

lemma strcat_eq:
  assumes dst: "cstr m dst xs" and src: "cstr m src ys"
    and "disjoint_reg (dst + of_nat (length xs)) (Suc (length ys)) src (Suc (length ys))"
    and "length ys < 4294967295"
  shows "strcat m dst src = Some (dst, mem_write m (dst + of_nat (length xs)) (ys @ [0]))"
  by (simp add: strcat_def strlen_eq [OF dst] strcpy_eq [OF src assms(3,4)])

lemma strncpy_pad:
  "m src = 0 \<Longrightarrow> k \<le> 4294967295 \<Longrightarrow> \<not> in_reg dst k src \<Longrightarrow>
   strncpy_loop m dst src k = mem_write m dst (replicate k 0)"
proof (induction k arbitrary: m dst)
  case 0
  then show ?case by simp
next
  case (Suc k)
  have "dst \<noteq> src" "\<not> in_reg (dst + 1) k src"
    using Suc.prems by (auto simp: in_reg_Suc)
  with Suc show ?case by (simp add: Let_def)
qed

lemma strncpy_loop_eq:
  "cstr m src xs \<Longrightarrow> k \<le> 4294967295 \<Longrightarrow> length xs < 4294967295 \<Longrightarrow>
   disjoint_reg dst k src (Suc (length xs)) \<Longrightarrow>
   strncpy_loop m dst src k = mem_write m dst (take k (xs @ replicate k 0))"
proof (induction xs arbitrary: m dst src k)
  case Nil
  moreover have "\<not> in_reg dst k src" using Nil by (auto simp: disjoint_reg_def)
  ultimately show ?case by (simp add: strncpy_pad)
next
  case (Cons x xs)
  show ?case
  proof (cases k)
    case 0
    then show ?thesis by simp
  next
    case (Suc j)
    have d: "disjoint_reg (dst + 1) j (src + 1) (Suc (length xs))" "\<not> in_reg src (Suc (Suc (length xs))) dst"
      using disjoint_reg_Suc [of dst j src "Suc (length xs)"] Cons.prems Suc by simp_all
    then have ne: "dst \<noteq> src" by auto
    have "cstr (m(dst := x)) (src + 1) xs"
      by (rule cstr_tail_upd [OF Cons.prems(1) d(2)]) (use Cons.prems in simp)
    from Cons.IH [OF this _ _ d(1)] Cons.prems Suc
    have "strncpy_loop (m(dst := x)) (dst + 1) (src + 1) j
        = mem_write (m(dst := x)) (dst + 1) (take j (xs @ replicate j 0))"
      by (simp del: fun_upd_apply)
    moreover have "take j (xs @ replicate j 0) = take j (xs @ replicate (Suc j) 0)"
      by (simp del: replicate_Suc)
    ultimately show ?thesis
      using Cons.prems(1) Suc ne by (simp add: Let_def del: replicate_Suc)
  qed
qed

lemma strncpy_eq:
  assumes "cstr m src xs" "length xs < 4294967295" "disjoint_reg dst (unat sz) src (Suc (length xs))"
  shows "strncpy m dst src sz = (dst, mem_write m dst (take (unat sz) (xs @ replicate (unat sz) 0)))"
  using strncpy_loop_eq [of m src xs "unat sz" dst] assms unat_lt32 [of sz]
  by (simp add: strncpy_def)

lemma strlcpy_loop_eq:
  "cstr m src xs \<Longrightarrow> length xs < 4294967295 \<Longrightarrow> k < 4294967295 \<Longrightarrow>
   disjoint_reg dst k src (Suc (length xs)) \<Longrightarrow>
   strlcpy_loop m dst src k
   = (dst + of_nat (min k (length xs)), mem_write m dst (take k xs))"
proof (induction xs arbitrary: m dst src k)
  case Nil
  then show ?case by (cases k) simp_all
next
  case (Cons x xs)
  show ?case
  proof (cases k)
    case 0
    then show ?thesis by simp
  next
    case (Suc j)
    have d: "disjoint_reg (dst + 1) j (src + 1) (Suc (length xs))" "\<not> in_reg src (Suc (Suc (length xs))) dst"
      using disjoint_reg_Suc [of dst j src "Suc (length xs)"] Cons.prems Suc by simp_all
    have "cstr (m(dst := x)) (src + 1) xs"
      by (rule cstr_tail_upd [OF Cons.prems(1) d(2)]) (use Cons.prems in simp)
    from Cons.IH [OF this _ _ d(1)] Cons.prems Suc
    have "strlcpy_loop (m(dst := x)) (dst + 1) (src + 1) j
        = (dst + 1 + of_nat (min j (length xs)), mem_write (m(dst := x)) (dst + 1) (take j xs))"
      by (simp del: fun_upd_apply)
    then show ?thesis using Cons.prems(1) Suc by (simp add: algebra_simps)
  qed
qed

lemma unat_pred: "0 < n \<Longrightarrow> unat (n - 1 :: u32) = unat n - 1"
  by (simp add: unat_minus_one word_gt_0)

lemma strlcpy_eq:
  assumes "cstr m src xs" "length xs < 4294967295" "0 < sz"
    and "disjoint_reg dst (unat sz) src (Suc (length xs))"
  shows "strlcpy m dst src sz = (of_nat (min (unat sz - 1) (length xs)),
     mem_write m dst (take (unat sz - 1) xs @ [0]))"
proof -
  let ?k = "unat sz - 1"
  have "disjoint_reg dst ?k src (Suc (length xs))"
    using assms(4) by (auto simp: disjoint_reg_def in_reg_def)
  moreover have "unat sz \<noteq> 0" using assms(3) by (simp add: unat_eq_0 word_gt_0)
  then have "?k < 4294967295" using unat_lt32 [of sz] by linarith
  ultimately have "strlcpy_loop m dst src ?k
      = (dst + of_nat (min ?k (length xs)), mem_write m dst (take ?k xs))"
    using assms(1,2) by (intro strlcpy_loop_eq)
  then show ?thesis
    using assms(3) by (simp add: strlcpy_def unat_pred min.commute mem_write_append)
qed

text \<open>Comparison of byte strings, as \<open>strcmp\<close> computes it.\<close>

fun bytes_cmp :: "byte list \<Rightarrow> byte list \<Rightarrow> int" where
  "bytes_cmp [] [] = 0"
| "bytes_cmp [] (y # ys) = - uint y"
| "bytes_cmp (x # xs) [] = uint x"
| "bytes_cmp (x # xs) (y # ys) = (if x = y then bytes_cmp xs ys else uint x - uint y)"

lemma strcmp_eq: "cstr m p xs \<Longrightarrow> cstr m q ys \<Longrightarrow> strcmp m p q = Some (bytes_cmp xs ys)"
proof (induction xs ys arbitrary: p q rule: bytes_cmp.induct)
qed (auto simp: strcmp.simps)

lemma strncmp_loop_eq:
  "cstr m p xs \<Longrightarrow> cstr m q ys \<Longrightarrow> strncmp_loop m p q n = bytes_cmp (take n xs) (take n ys)"
proof (induction xs ys arbitrary: p q n rule: bytes_cmp.induct)
  case 1
  then show ?case by (cases n) auto
next
  case (2 y ys)
  then show ?case by (cases n) auto
next
  case (3 x xs)
  then show ?case by (cases n) auto
next
  case (4 x xs y ys)
  then show ?case by (cases n) auto
qed

lemma bytes_cmp_zero: "0 \<notin> set xs \<Longrightarrow> 0 \<notin> set ys \<Longrightarrow> bytes_cmp xs ys = 0 \<longleftrightarrow> xs = ys"
  by (induction xs ys rule: bytes_cmp.induct) (auto simp: word_uint_eq_iff)

lemma bytes_cmp_neg:
  "0 \<notin> set xs \<Longrightarrow> 0 \<notin> set ys \<Longrightarrow> bytes_cmp xs ys < 0 \<longleftrightarrow> (xs, ys) \<in> lexord {(a, b). a < b}"
proof (induction xs ys rule: bytes_cmp.induct)
  case (2 y ys)
  then have "uint y \<noteq> 0" by (auto simp: uint_0_iff)
  then have "uint y > 0" using uint_nonnegative [of y] by linarith
  then show ?case by simp
qed (auto simp: word_less_def)

lemma strchr_eq:
  "cstr m s xs \<Longrightarrow>
   strchr m s c = Some (if c \<in> set xs then s + of_nat (length (takeWhile (\<lambda>x. x \<noteq> c) xs)) else 0)"
  by (induction xs arbitrary: s) (auto simp: strchr.simps algebra_simps)

lemma strfind_eq:
  "cstr m s xs \<Longrightarrow> strfind m s c = Some (s + of_nat (length (takeWhile (\<lambda>x. x \<noteq> c) xs)))"
  by (induction xs arbitrary: s) (auto simp: strfind.simps algebra_simps)

section \<open>What strtol computes\<close>

text \<open>The value of a list of digit characters in a base, most significant first.\<close>

fun digits_val :: "int \<Rightarrow> byte list \<Rightarrow> int \<Rightarrow> int" where
  "digits_val base [] acc = acc"
| "digits_val base (c # cs) acc = digits_val base cs (acc * base + the (strtol_digit c))"

definition is_digit :: "int \<Rightarrow> byte \<Rightarrow> bool" where
  "is_digit base c = (case strtol_digit c of None \<Rightarrow> False | Some d \<Rightarrow> d < base)"

definition is_blank :: "byte \<Rightarrow> bool" where
  "is_blank c \<longleftrightarrow> c = chr (CHR '' '') \<or> c = chr (CHR 0x09)"

lemma skip_blank_eq:
  "(\<forall>i < length bs. is_blank (m (s + of_nat i))) \<Longrightarrow> \<not> is_blank (m (s + of_nat (length bs))) \<Longrightarrow>
   skip_blank m s = Some (s + of_nat (length bs))"
proof (induction bs arbitrary: s)
  case Nil
  then show ?case by (simp add: skip_blank.simps is_blank_def)
next
  case (Cons b bs)
  have "is_blank (m s)" using Cons.prems(1) by (auto simp: All_less_Suc2)
  moreover have "skip_blank m (s + 1) = Some (s + 1 + of_nat (length bs))"
    using Cons by (intro Cons.IH) (auto simp: All_less_Suc2 algebra_simps)
  ultimately show ?case by (subst skip_blank.simps) (auto simp: is_blank_def algebra_simps)
qed

lemma strtol_digits_eq:
  "(\<forall>i < length ds. m (s + of_nat i) = ds ! i) \<Longrightarrow> (\<forall>c \<in> set ds. is_digit base c) \<Longrightarrow>
   \<not> is_digit base (m (s + of_nat (length ds))) \<Longrightarrow>
   strtol_digits m s base (word_of_int v)
   = Some (s + of_nat (length ds), word_of_int (digits_val base ds v))"
proof (induction ds arbitrary: s v)
  case Nil
  then show ?case by (subst strtol_digits.simps) (auto simp: is_digit_def split: option.splits)
next
  case (Cons c ds)
  then obtain d where d: "strtol_digit c = Some d" "d < base"
    by (auto simp: is_digit_def split: option.splits)
  have "m s = c" using Cons.prems(1) by (auto simp: All_less_Suc2)
  moreover have "strtol_digits m (s + 1) base (word_of_int (v * base + d))
      = Some (s + 1 + of_nat (length ds), word_of_int (digits_val base ds (v * base + d)))"
    using Cons by (intro Cons.IH) (auto simp: All_less_Suc2 algebra_simps)
  ultimately show ?case
    using d by (subst strtol_digits.simps) (simp add: algebra_simps)
qed

text \<open>The base in force for a prefix \<open>px\<close> that is followed by the bytes \<open>tl\<close>: the rules of
  the C function, on the text.\<close>

definition prefix_base :: "int \<Rightarrow> byte list \<Rightarrow> byte list \<Rightarrow> int \<Rightarrow> bool" where
  "prefix_base base px tx b \<longleftrightarrow>
     (px = [chr (CHR ''0''), chr (CHR ''x'')] \<and> (base = 0 \<or> base = 16) \<and> b = 16)
   \<or> (px = [chr (CHR ''0'')] \<and> base = 0 \<and> b = 8 \<and> hd tx \<noteq> chr (CHR ''x''))
   \<or> (px = [] \<and> base = 0 \<and> b = 10 \<and> hd tx \<noteq> chr (CHR ''0''))
   \<or> (px = [] \<and> base = 16 \<and> b = 16 \<and> (hd tx \<noteq> chr (CHR ''0'') \<or> hd (tl tx) \<noteq> chr (CHR ''x'')))
   \<or> (px = [] \<and> base \<noteq> 0 \<and> base \<noteq> 16 \<and> b = base)"

lemma is_digit_letter:
  assumes "is_digit b c" shows "\<not> is_blank c" "c \<noteq> chr (CHR ''+'')" "c \<noteq> chr (CHR ''-'')"
    "c \<noteq> 0"
  using assms by (auto simp: is_digit_def is_blank_def strtol_digit_def chr_def)

lemma not_is_digit_0 [simp]: "\<not> is_digit b 0"
  by (simp add: is_digit_def strtol_digit_def chr_def)

lemma cstr_hd: "cstr m s xs \<Longrightarrow> m s = hd (xs @ [0])"
  by (cases xs) auto

lemma strtol_sign_eq:
  assumes "cstr m s (sg @ xs)" "sg \<in> {[], [chr (CHR ''+'')], [chr (CHR ''-'')]}"
    and "xs \<noteq> []" "hd xs \<noteq> chr (CHR ''+'')" "hd xs \<noteq> chr (CHR ''-'')"
  shows "strtol_sign m s = (s + of_nat (length sg), sg = [chr (CHR ''-'')])"
proof -
  have "chr (CHR ''+'') \<noteq> chr (CHR ''-'')" by (simp add: chr_def)
  with assms show ?thesis by (cases xs) (auto simp: strtol_sign_def)
qed

lemma strtol_base_eq:
  assumes "cstr m s (px @ xs)" "prefix_base base px (xs @ [0]) b" "xs \<noteq> []"
  shows "strtol_base m s base = (s + of_nat (length px), b)"
proof -
  obtain y ys where xs: "xs = y # ys" using assms(3) by (cases xs) auto
  have "m (s + 1) = hd (ys @ [0])" if "px = []"
    using assms(1) that cstr_hd [of m "s + 1" ys] xs by simp
  with assms(1,2) xs show ?thesis
    by (auto simp: prefix_base_def strtol_base_def)
qed

lemma strtol_eq:
  assumes str: "cstr m s (bs @ sg @ px @ ds @ rest)"
    and bs: "\<forall>c \<in> set bs. is_blank c"
    and sg: "sg \<in> {[], [chr (CHR ''+'')], [chr (CHR ''-'')]}"
    and px: "prefix_base base px (ds @ rest @ [0]) b"
    and ds: "ds \<noteq> []" "\<forall>c \<in> set ds. is_digit b c"
    and rest: "rest = [] \<or> \<not> is_digit b (hd rest)"
  shows "strtol m s endptr base
    = Some (word_of_int (if sg = [chr (CHR ''-'')] then - digits_val b ds 0 else digits_val b ds 0),
        if endptr \<noteq> 0 then store32 m endptr (s + of_nat (length (bs @ sg @ px @ ds))) else m)"
proof -
  let ?s1 = "s + of_nat (length bs)" and ?val = "digits_val b ds 0"
  let ?s2 = "?s1 + of_nat (length sg)"
  let ?s3 = "?s2 + of_nat (length px)"
  let ?s4 = "?s3 + of_nat (length ds)"
  have c1: "cstr m ?s1 (sg @ px @ ds @ rest)" and b: "\<forall>i < length bs. m (s + of_nat i) = bs ! i"
    using str by (simp_all add: cstr_append)
  have c2: "cstr m ?s2 (px @ ds @ rest)" using c1 by (simp add: cstr_append)
  have c3: "cstr m ?s3 (ds @ rest)" using c2 by (simp add: cstr_append)
  have c4: "cstr m ?s4 rest" and d: "\<forall>i < length ds. m (?s3 + of_nat i) = ds ! i"
    using c3 by (simp_all add: cstr_append)
  have dig: "is_digit b (hd ds)" using ds by simp
  have first: "\<not> is_blank (hd (px @ ds))" "hd (px @ ds) \<noteq> chr (CHR ''+'')" "hd (px @ ds) \<noteq> chr (CHR ''-'')"
    using px is_digit_letter [OF dig]
    by (auto simp: prefix_base_def is_blank_def chr_def)
  have "hd (px @ ds @ rest @ [0]) = hd (px @ ds)" using ds(1) by (simp add: hd_append)
  then have blank: "\<not> is_blank (m ?s1)"
    using sg first(1) cstr_hd [OF c1] by (auto simp: is_blank_def chr_def)
  have skip: "skip_blank m s = Some ?s1"
    by (rule skip_blank_eq) (use b bs blank in auto)
  have sign: "strtol_sign m ?s1 = (?s2, sg = [chr (CHR ''-'')])"
  proof (rule strtol_sign_eq [OF c1 sg])
    have "hd (px @ ds @ rest) = hd (px @ ds)" using ds(1) by (simp add: hd_append)
    with first show "hd (px @ ds @ rest) \<noteq> chr (CHR ''+'')" "hd (px @ ds @ rest) \<noteq> chr (CHR ''-'')"
      by simp_all
  qed (use ds(1) in simp)
  have base: "strtol_base m ?s2 base = (?s3, b)"
    by (rule strtol_base_eq [where xs = "ds @ rest"]) (use c2 px ds(1) in simp_all)
  have "\<not> is_digit b (m ?s4)" using rest cstr_hd [OF c4] by (cases rest) auto
  then have "strtol_digits m ?s3 b (word_of_int 0) = Some (?s4, word_of_int ?val)"
    by (intro strtol_digits_eq) (use d ds in auto)
  moreover have addr: "?s4 = s + of_nat (length (bs @ sg @ px @ ds))" by (simp add: add.assoc)
  ultimately have digits: "strtol_digits m ?s3 b 0
      = Some (s + of_nat (length (bs @ sg @ px @ ds)), word_of_int ?val)"
    by (simp del: length_append)
  show ?thesis
    by (simp only: strtol_def skip sign base digits bind.simps Let_def prod.case) simp
qed

section \<open>Properties\<close>

text \<open>\<open>strcpy\<close> returns, leaves the destination holding the source string, keeps the
  source string, and writes nothing outside the bytes of the copy, when source and
  destination do not overlap.\<close>

lemma strcpy_copies:
  assumes "cstr m src xs" and "disjoint_reg dst (Suc (length xs)) src (Suc (length xs))"
    and "length xs < 4294967295"
  shows "\<exists>m'. strcpy m dst src = Some (dst, m') \<and> cstr m' dst xs \<and> cstr m' src xs
    \<and> (\<forall>y. in_reg dst (Suc (length xs)) y \<or> m' y = m y)"
proof (intro exI conjI)
  let ?m = "mem_write m dst (xs @ [0])"
  show "strcpy m dst src = Some (dst, ?m)" by (rule strcpy_eq [OF assms])
  show "cstr ?m dst xs" using cstr_nonzero [OF assms(1)] assms(3) by (intro cstr_mem_write) auto
  have "?m y = m y" if "in_reg src (Suc (length xs)) y" for y
    using that assms(2,3) by (intro mem_write_outside) (auto simp: disjoint_reg_def)
  then have "cstr ?m src xs = cstr m src xs" by (rule cstr_cong) (use assms(3) in auto)
  with assms(1) show "cstr ?m src xs" by simp
  show "\<forall>y. in_reg dst (Suc (length xs)) y \<or> ?m y = m y"
    using mem_write_outside [of "xs @ [0]" dst _ m] assms(3) by auto
qed

text \<open>A concrete memory for the witnesses: the string \<open>hi\<close> at address 100.\<close>

definition hi_mem :: mem where
  "hi_mem = mem_write (\<lambda>_. 0) 100 [104, 105, 0]"

lemma strcpy_copies_witness:
  "\<exists>m'. strcpy hi_mem 200 100 = Some (200, m') \<and> cstr m' 200 [104, 105] \<and> cstr m' 100 [104, 105]
    \<and> (\<forall>y. in_reg 200 (Suc (length [104 :: byte, 105])) y \<or> m' y = hi_mem y)"
  by (rule strcpy_copies) (auto simp: hi_mem_def disjoint_reg_def in_reg_nat)

text \<open>C31: strlcpy into a buffer of \<open>sz\<close> bytes returns the number of bytes copied, leaves a
  NUL-terminated prefix of the source of at most \<open>sz - 1\<close> bytes, and never writes
  outside the buffer.\<close>

theorem strlcpy_bounded:
  assumes "cstr m src xs" and "length xs < 4294967295" and "0 < sz"
    and "disjoint_reg dst (unat sz) src (Suc (length xs))"
  shows "\<exists>m'. strlcpy m dst src sz = (of_nat (min (unat sz - 1) (length xs)), m')
    \<and> cstr m' dst (take (unat sz - 1) xs) \<and> (\<forall>y. in_reg dst (unat sz) y \<or> m' y = m y)"
proof (intro exI conjI)
  let ?ys = "take (unat sz - 1) xs"
  let ?m = "mem_write m dst (?ys @ [0])"
  show "strlcpy m dst src sz = (of_nat (min (unat sz - 1) (length xs)), ?m)"
    by (rule strlcpy_eq [OF assms])
  show "cstr ?m dst ?ys"
    using cstr_nonzero [OF assms(1)] assms(2) by (intro cstr_mem_write) (auto dest: in_set_takeD)
  have "unat sz \<noteq> 0" using assms(3) by (simp add: unat_eq_0 word_gt_0)
  then have "length (?ys @ [0]) \<le> unat sz" by (auto simp: min_def)
  then show "\<forall>y. in_reg dst (unat sz) y \<or> ?m y = m y"
    using mem_write_outside [of "?ys @ [0]" dst _ m] unat_lt32 [of sz] in_reg_mono [of dst "length (?ys @ [0])" _ "unat sz"]
    by (meson le_trans less_imp_le)
qed

theorem strlcpy_bounded_witness:
  "\<exists>m'. strlcpy hi_mem 200 100 2 = (of_nat (min (unat (2 :: u32) - 1) (length [104 :: byte, 105])), m')
    \<and> cstr m' 200 (take (unat (2 :: u32) - 1) [104, 105]) \<and> (\<forall>y. in_reg 200 (unat (2 :: u32)) y \<or> m' y = hi_mem y)"
  by (rule strlcpy_bounded) (auto simp: hi_mem_def disjoint_reg_def in_reg_nat)

text \<open>C40: strcmp returns on two strings; the result is zero exactly for equal strings
  and negative exactly when the first comes before the second in the lexicographic
  order of their unsigned bytes. strncmp is the same on the prefixes of length \<open>n\<close>.\<close>

theorem strcmp_orders:
  assumes "cstr m p xs" and "cstr m q ys"
  shows "(\<exists>r. strcmp m p q = Some r \<and> (r = 0 \<longleftrightarrow> xs = ys) \<and> (r < 0 \<longleftrightarrow> (xs, ys) \<in> lexord {(a, b). a < b}))
    \<and> (strncmp m p q n = 0 \<longleftrightarrow> take (unat n) xs = take (unat n) ys)
    \<and> (strncmp m p q n < 0 \<longleftrightarrow> (take (unat n) xs, take (unat n) ys) \<in> lexord {(a, b). a < b})"
proof -
  note nz = cstr_nonzero [OF assms(1)] cstr_nonzero [OF assms(2)]
  have nzt: "0 \<notin> set (take (unat n) xs)" "0 \<notin> set (take (unat n) ys)"
    using nz by (auto dest: in_set_takeD)
  show ?thesis
    by (simp add: strcmp_eq [OF assms] bytes_cmp_zero [OF nz] bytes_cmp_neg [OF nz]
      strncmp_def strncmp_loop_eq [OF assms] bytes_cmp_zero [OF nzt] bytes_cmp_neg [OF nzt])
qed

theorem strcmp_orders_witness:
  "(\<exists>r. strcmp hi_mem 100 101 = Some r \<and> (r = 0 \<longleftrightarrow> [104, 105] = [105 :: byte])
      \<and> (r < 0 \<longleftrightarrow> ([104, 105], [105 :: byte]) \<in> lexord {(a, b). a < b}))
    \<and> (strncmp hi_mem 100 101 1 = 0 \<longleftrightarrow> take (unat (1 :: u32)) [104, 105] = take (unat (1 :: u32)) [105 :: byte])
    \<and> (strncmp hi_mem 100 101 1 < 0 \<longleftrightarrow>
        (take (unat (1 :: u32)) [104, 105], take (unat (1 :: u32)) [105 :: byte]) \<in> lexord {(a, b). a < b})"
  by (rule strcmp_orders) (simp_all add: hi_mem_def)

text \<open>Strchr and strfind return on a string; strfind stops at the first occurrence of
  the character, or at the terminator when there is none, and strchr returns the same
  address, or null when there is none.\<close>

lemma strchr_strfind_first:
  assumes "cstr m s xs"
  shows "strfind m s c = Some (s + of_nat (length (takeWhile (\<lambda>x. x \<noteq> c) xs)))
    \<and> strchr m s c = (if c \<in> set xs then strfind m s c else Some 0)"
  by (simp add: strfind_eq [OF assms] strchr_eq [OF assms])

lemma strchr_strfind_first_witness:
  "strfind hi_mem 100 105 = Some (100 + of_nat (length (takeWhile (\<lambda>x. x \<noteq> 105) [104, 105 :: byte])))
    \<and> strchr hi_mem 100 105 = (if 105 \<in> set [104, 105 :: byte] then strfind hi_mem 100 105 else Some 0)"
  by (rule strchr_strfind_first) (simp add: hi_mem_def)

text \<open>C32: strtol parses white space, an optional sign, an optional base prefix and digits:
  it returns the signed value of the digits in the base the prefix selects (modulo
  \<open>2 ^ 32\<close>: there is no overflow detection) and stores the address of the first byte
  it did not consume through a non-null end pointer.\<close>

theorem strtol_parses:
  assumes "cstr m s (bs @ sg @ px @ ds @ rest)"
    and "\<forall>c \<in> set bs. is_blank c"
    and "sg \<in> {[], [chr (CHR ''+'')], [chr (CHR ''-'')]}"
    and "prefix_base base px (ds @ rest @ [0]) b"
    and "ds \<noteq> []" and "\<forall>c \<in> set ds. is_digit b c"
    and "rest = [] \<or> \<not> is_digit b (hd rest)"
  shows "strtol m s endptr base
    = Some (word_of_int (if sg = [chr (CHR ''-'')] then - digits_val b ds 0 else digits_val b ds 0),
        if endptr = 0 then m else store32 m endptr (s + of_nat (length (bs @ sg @ px @ ds))))"
  using strtol_eq [OF assms, of endptr] by simp

theorem strtol_parses_witness:
  "strtol (mem_write (\<lambda>_. 0) 100 ([32] @ [45] @ [48, 120] @ [49, 70] @ [33])) 100 0 0
    = Some (word_of_int (if [45] = [chr (CHR ''-'')] then - digits_val 16 [49, 70] 0 else digits_val 16 [49, 70] 0),
        if 0 = (0 :: u32) then mem_write (\<lambda>_. 0) 100 ([32] @ [45] @ [48, 120] @ [49, 70] @ [33])
        else store32 (mem_write (\<lambda>_. 0) 100 ([32] @ [45] @ [48, 120] @ [49, 70] @ [33])) 0
          (100 + of_nat (length ([32 :: byte] @ [45] @ [48, 120] @ [49, 70]))))"
  by (rule strtol_parses [where rest = "[33]"]) (simp_all add: is_blank_def chr_def prefix_base_def is_digit_def strtol_digit_def)

end
