(* ===== verification/Pages.thy ===== *)
theory Pages
  imports Prelude
begin

text \<open>
  The physical page allocator of \<open>kernel/page.c\<close>: the pool \<open>page_pool\<close> of one
  \<open>PageInfo\<close> per page frame, the free list threaded through it, \<open>alloc_page\<close>,
  \<open>release_page\<close>, the pool set-up of \<open>init_page\<close> and the self test \<open>test_page\<close>.

  A \<open>PageInfo *\<close> is null or the address of a pool entry, modelled by the index of the
  entry. The pool is its own object: the kernel image holds it below every allocated
  frame.
\<close>

section \<open>Rounding to pages\<close>

definition PHY_SIZE :: u32 where "PHY_SIZE = 0x8000000"
definition PG_SIZE :: u32 where "PG_SIZE = 0x1000"
definition PG_SIZE_LOG2 :: nat where "PG_SIZE_LOG2 = 12"

definition roundup :: "u32 \<Rightarrow> u32" where
  "roundup addr = push_bit PG_SIZE_LOG2 (drop_bit PG_SIZE_LOG2 (addr - 1) + 1)"

definition rounddown :: "u32 \<Rightarrow> u32" where
  "rounddown addr = addr AND NOT (PG_SIZE - 1)"

text \<open>The macros \<open>ROUNDDOWN\<close> and \<open>ROUNDUP\<close> of \<open>inc/types.h\<close>.\<close>

definition ROUNDDOWN :: "u32 \<Rightarrow> u32 \<Rightarrow> u32" where
  "ROUNDDOWN a n = a - a mod n"

definition ROUNDUP :: "u32 \<Rightarrow> u32 \<Rightarrow> u32" where
  "ROUNDUP a n = ROUNDDOWN (a + n - 1) n"

section \<open>The pool and the free list\<close>

record PageInfo =
  frame :: u32
  ref_count :: u32
  nxt :: "nat option"

record pages =
  free_page_list :: "nat option"
  page_pool :: "nat \<Rightarrow> PageInfo"

text \<open>\<open>PHY_SIZE / PG_SIZE\<close>, the number of pool entries.\<close>

definition NR_PAGES :: nat where "NR_PAGES = 32768"

definition upd_page :: "nat \<Rightarrow> (PageInfo \<Rightarrow> PageInfo) \<Rightarrow> pages \<Rightarrow> pages" where
  "upd_page i f s = s\<lparr>page_pool := (page_pool s)(i := f (page_pool s i))\<rparr>"

text \<open>The macro \<open>TEST\<close> of \<open>kernel/debug.h\<close>, with the text of its expanded argument.\<close>

definition TEST :: "bool \<Rightarrow> string \<Rightarrow> string \<Rightarrow> site \<Rightarrow> 'a result \<Rightarrow> 'a result" where
  "TEST c expr s at k = (if \<not> c then Inl (Panic (at, ''Test on '' @ expr @ '' failed: '' @ s)) else k)"

lemma TEST_simps [simp]:
  "TEST True expr s at k = k" "TEST False expr s at k = Inl (Panic (at, ''Test on '' @ expr @ '' failed: '' @ s))"
  by (simp_all add: TEST_def)

definition no_free_page :: "site \<times> string" where
  "no_free_page = ((''kernel/page.c'', ''alloc_page'', 160), ''No free page!'')"

definition alloc_page :: "pages \<Rightarrow> (u32 \<times> pages) result" where
  "alloc_page s =
     (case free_page_list s of
        None \<Rightarrow> Inl (Panic no_free_page)
      | Some page \<Rightarrow>
          (let s = s\<lparr>free_page_list := nxt (page_pool s page)\<rparr>;
               s = upd_page page (nxt_update (\<lambda>_. None)) s
           in TEST (ref_count (page_pool s page) = 0) ''page->ref_count == 0''
                ''A in-use page is allocated from free list!'' (''kernel/page.c'', ''alloc_page'', 167)
                (let s = upd_page page (ref_count_update (\<lambda>c. c + 1)) s
                 in Inr (frame (page_pool s page), s))))"

definition release_page :: "pages \<Rightarrow> u32 \<Rightarrow> pages result" where
  "release_page s fr =
     TEST (unat fr < NR_PAGES) ''frame < 0x8000000 / 0x1000'' ''page frame exceeds limit!'' (''kernel/page.c'', ''release_page'', 180)
        (let page = unat fr;
             s = upd_page page (ref_count_update (\<lambda>c. c - 1)) s
         in if ref_count (page_pool s page) = 0
            then (let s = upd_page page (nxt_update (\<lambda>_. free_page_list s)) s
                  in Inr (s\<lparr>free_page_list := nxt (page_pool s page)\<rparr>))
            else Inr s)"

section \<open>Building the pool\<close>

text \<open>The part of \<open>init_page\<close> that clears the pool and threads the entries from the first
  page behind the kernel to the last one; \<open>kend\<close> is the linker symbol \<open>end\<close>. An index
  beyond the pool would be written outside of it.\<close>

definition empty_page :: PageInfo where
  "empty_page = \<lparr>frame = 0, ref_count = 0, nxt = None\<rparr>"

definition nr_kernel_page :: "u32 \<Rightarrow> nat" where
  "nr_kernel_page kend = unat (roundup kend div PG_SIZE)"

definition init_pool :: "u32 \<Rightarrow> pages \<Rightarrow> pages result" where
  "init_pool kend s =
     (let nr = nr_kernel_page kend;
          s = s\<lparr>page_pool := (\<lambda>_. empty_page)\<rparr>
      in if nr \<ge> NR_PAGES then Inl OutOfBounds
         else
           (let s = upd_page nr (frame_update (\<lambda>_. of_nat nr)) s;
                s = fold (\<lambda>i s. upd_page (i - 1) (nxt_update (\<lambda>_. Some i))
                                  (upd_page i (frame_update (\<lambda>_. of_nat i)) s))
                      [nr + 1..<NR_PAGES] s
            in Inr (s\<lparr>free_page_list := Some nr\<rparr>)))"

section \<open>The self test\<close>

text \<open>\<open>test_page\<close> allocates 255 pages, releases them, and walks the first fifteen entries of
  the free list, logging the frame of each before it goes on to the next. Following a null
  pointer there is a fault, which carries the frames logged by then.\<close>

fun alloc_times :: "('s \<Rightarrow> (u32 \<times> 's) result) \<Rightarrow> nat \<Rightarrow> 's \<Rightarrow> (u32 list \<times> 's) result" where
  "alloc_times alloc 0 s = Inr ([], s)"
| "alloc_times alloc (Suc n) s =
     (case alloc s of
        Inl e \<Rightarrow> Inl e
      | Inr (f, s) \<Rightarrow>
          (case alloc_times alloc n s of
             Inl e \<Rightarrow> Inl e
           | Inr (fs, s) \<Rightarrow> Inr (f # fs, s)))"

fun release_all :: "u32 list \<Rightarrow> pages \<Rightarrow> pages result" where
  "release_all [] s = Inr s"
| "release_all (f # fs) s =
     (case release_page s f of Inl e \<Rightarrow> Inl e | Inr s \<Rightarrow> release_all fs s)"

fun walk_pages :: "pages \<Rightarrow> nat option \<Rightarrow> nat \<Rightarrow> (fault \<times> u32 list) + u32 list" where
  "walk_pages s p 0 = Inr []"
| "walk_pages s p (Suc n) =
     (case p of
        None \<Rightarrow> Inl (OutOfBounds, [])
      | Some i \<Rightarrow>
          (case walk_pages s (nxt (page_pool s i)) n of
             Inl (e, fs) \<Rightarrow> Inl (e, frame (page_pool s i) # fs)
           | Inr fs \<Rightarrow> Inr (frame (page_pool s i) # fs)))"

definition test_page :: "pages \<Rightarrow> (fault \<times> u32 list) + (u32 list \<times> pages)" where
  "test_page s =
     (case alloc_times alloc_page 255 s of
        Inl e \<Rightarrow> Inl (e, [])
      | Inr (frame_buf, s) \<Rightarrow>
          (case release_all frame_buf s of
             Inl e \<Rightarrow> Inl (e, [])
           | Inr s \<Rightarrow>
               (case walk_pages s (free_page_list s) 15 of
                  Inl stopped \<Rightarrow> Inl stopped
                | Inr log \<Rightarrow> Inr (log, s))))"

section \<open>The free list as a list of frames\<close>

fun chain :: "(nat \<Rightarrow> PageInfo) \<Rightarrow> nat option \<Rightarrow> nat list \<Rightarrow> bool" where
  "chain pool p [] \<longleftrightarrow> p = None"
| "chain pool p (x # xs) \<longleftrightarrow> p = Some x \<and> chain pool (nxt (pool x)) xs"

text \<open>The invariant of the allocator: the free list reaches the frames \<open>fs\<close> in order, each
  once, each an unreferenced pool entry that knows its own index.\<close>

definition page_ok :: "(nat \<Rightarrow> PageInfo) \<Rightarrow> nat \<Rightarrow> bool" where
  "page_ok pool x \<longleftrightarrow> x < NR_PAGES \<and> ref_count (pool x) = 0 \<and> frame (pool x) = of_nat x"

definition pages_inv :: "pages \<Rightarrow> nat list \<Rightarrow> bool" where
  "pages_inv s fs \<longleftrightarrow> chain (page_pool s) (free_page_list s) fs \<and> distinct fs
     \<and> (\<forall>x \<in> set fs. page_ok (page_pool s) x)"

lemma chain_upd: "x \<notin> set xs \<Longrightarrow> chain (pool(x := e)) p xs = chain pool p xs"
  by (induction xs arbitrary: p) auto

lemma chain_upd_same: "nxt e = nxt (pool x) \<Longrightarrow> chain (pool(x := e)) p xs = chain pool p xs"
  by (induction xs arbitrary: p) auto

lemma chain_unique: "chain pool p xs \<Longrightarrow> chain pool p ys \<Longrightarrow> xs = ys"
proof (induction xs arbitrary: p ys)
  case Nil
  then show ?case by (cases ys) auto
next
  case (Cons x xs)
  then show ?case by (cases ys) auto
qed

lemma alloc_page_empty: "pages_inv s [] \<Longrightarrow> alloc_page s = Inl (Panic no_free_page)"
  by (simp add: pages_inv_def alloc_page_def)

lemma alloc_page_step:
  assumes "pages_inv s (x # xs)"
  shows "\<exists>s'. alloc_page s = Inr (of_nat x, s') \<and> pages_inv s' xs
    \<and> page_pool s' = (page_pool s)(x := \<lparr>frame = of_nat x, ref_count = 1, nxt = None\<rparr>)"
  using assms
  by (auto simp: pages_inv_def alloc_page_def upd_page_def page_ok_def chain_upd Let_def)

lemma release_page_step:
  assumes "unat fr < NR_PAGES"
  shows "\<exists>s'. release_page s fr = Inr s' \<and> free_page_list s' = free_page_list s
    \<and> ref_count (page_pool s' (unat fr)) = ref_count (page_pool s (unat fr)) - 1
    \<and> frame (page_pool s' (unat fr)) = frame (page_pool s (unat fr))
    \<and> (\<forall>i. i \<noteq> unat fr \<longrightarrow> page_pool s' i = page_pool s i)"
  using assms by (simp add: release_page_def upd_page_def Let_def)

section \<open>The allocator as an interface\<close>

text \<open>What the clients of a page allocator rely on: under the invariant it hands out the
  free frames in order, and panics exactly when there is none left.\<close>

locale frame_source =
  fixes alloc :: "'s \<Rightarrow> (u32 \<times> 's) result" and inv :: "'s \<Rightarrow> nat list \<Rightarrow> bool" and empty :: fault
  assumes alloc_some: "inv s (x # xs) \<Longrightarrow> \<exists>s'. alloc s = Inr (of_nat x, s') \<and> inv s' xs"
    and alloc_none: "inv s [] \<Longrightarrow> alloc s = Inl empty"
    and inv_bound: "inv s xs \<Longrightarrow> \<forall>x \<in> set xs. x < NR_PAGES"
    and inv_distinct: "inv s xs \<Longrightarrow> distinct xs"
begin

lemma alloc_times_some:
  "inv s (xs @ ys) \<Longrightarrow>
   \<exists>s'. alloc_times alloc (length xs) s = Inr (map of_nat xs, s') \<and> inv s' ys"
proof (induction xs arbitrary: s)
  case Nil
  then show ?case by simp
next
  case (Cons x xs)
  then obtain s1 where "alloc s = Inr (of_nat x, s1)" "inv s1 (xs @ ys)"
    using alloc_some [of s x "xs @ ys"] by auto
  with Cons.IH [of s1] show ?case by auto
qed

lemma alloc_times_exhausted:
  "inv s xs \<Longrightarrow> length xs < n \<Longrightarrow> alloc_times alloc n s = Inl empty"
proof (induction xs arbitrary: s n)
  case Nil
  then show ?case using alloc_none [of s] by (cases n) auto
next
  case (Cons x xs)
  then obtain s1 where "alloc s = Inr (of_nat x, s1)" "inv s1 xs"
    using alloc_some [of s x xs] by auto
  with Cons.IH [of s1 "n - 1"] Cons.prems(2) show ?case by (cases n) auto
qed

text \<open>No frame is handed out twice.\<close>

lemma alloc_times_distinct:
  assumes "inv s xs" "alloc_times alloc n s = Inr (fs, s')"
  shows "distinct fs \<and> (\<forall>f \<in> set fs. unat f < NR_PAGES)"
proof -
  have "n \<le> length xs"
    using alloc_times_exhausted [OF assms(1), of n] assms(2) by (cases "n \<le> length xs") auto
  moreover obtain s2 where "alloc_times alloc (length (take n xs)) s = Inr (map of_nat (take n xs), s2)"
    using alloc_times_some [of s "take n xs" "drop n xs"] assms(1) by auto
  ultimately have fs: "fs = map of_nat (take n xs)"
    using assms(2) by simp
  have small: "\<forall>x \<in> set (take n xs). x < NR_PAGES"
    using inv_bound [OF assms(1)] by (auto dest: in_set_takeD)
  then have unat_fs: "map unat (map of_nat (take n xs) :: u32 list) = take n xs"
    by (auto simp: o_def NR_PAGES_def unat_of_nat32 intro!: map_idI)
  have "distinct (map unat fs)"
    using unat_fs fs inv_distinct [OF assms(1)] by simp
  moreover have "set (map unat fs) \<subseteq> set (take n xs)" using unat_fs fs by simp
  ultimately show ?thesis using small by (auto simp: distinct_map)
qed

end

interpretation kernel_pages: frame_source alloc_page pages_inv "Panic no_free_page"
proof
  show "\<exists>s'. alloc_page s = Inr (of_nat x, s') \<and> pages_inv s' xs"
    if "pages_inv s (x # xs)" for s x xs
    using alloc_page_step [OF that] by auto
  show "alloc_page s = Inl (Panic no_free_page)" if "pages_inv s []" for s
    using alloc_page_empty [OF that] by auto
qed (auto simp: pages_inv_def page_ok_def)

section \<open>Releasing and testing\<close>

lemma release_all_inv:
  "pages_inv s ys \<Longrightarrow> (\<forall>f \<in> set fs. unat f < NR_PAGES \<and> unat f \<notin> set ys) \<Longrightarrow>
   \<exists>s'. release_all fs s = Inr s' \<and> pages_inv s' ys \<and> free_page_list s' = free_page_list s"
proof (induction fs arbitrary: s)
  case Nil
  then show ?case by simp
next
  case (Cons f fs)
  obtain s1 where s1: "release_page s f = Inr s1" "free_page_list s1 = free_page_list s"
    "\<forall>i. i \<noteq> unat f \<longrightarrow> page_pool s1 i = page_pool s i"
    using release_page_step [of f s] Cons.prems by auto
  then have pool: "page_pool s1 = (page_pool s)(unat f := page_pool s1 (unat f))" by auto
  have "chain ((page_pool s)(unat f := page_pool s1 (unat f))) (free_page_list s) ys"
    using Cons.prems by (subst chain_upd) (auto simp: pages_inv_def)
  moreover have "\<forall>x \<in> set ys. page_ok (page_pool s1) x"
  proof
    fix x assume x: "x \<in> set ys"
    then have "x \<noteq> unat f" using Cons.prems(2) by auto
    with s1(3) have "page_pool s1 x = page_pool s x" by simp
    with x Cons.prems(1) show "page_ok (page_pool s1) x" by (simp add: pages_inv_def page_ok_def)
  qed
  ultimately have "pages_inv s1 ys"
    using Cons.prems s1(2) pool by (simp add: pages_inv_def)
  with Cons.IH [of s1] Cons.prems(2) s1 show ?case by auto
qed

lemma walk_pages_chain:
  "chain (page_pool s) p ys \<Longrightarrow> (\<forall>x \<in> set ys. page_ok (page_pool s) x) \<Longrightarrow> n \<le> length ys \<Longrightarrow>
   walk_pages s p n = Inr (map of_nat (take n ys))"
proof (induction ys arbitrary: p n)
  case Nil
  then show ?case by simp
next
  case (Cons y ys)
  then show ?case by (cases n) (auto simp: page_ok_def)
qed

lemma walk_pages_short:
  "chain (page_pool s) p ys \<Longrightarrow> (\<forall>x \<in> set ys. page_ok (page_pool s) x) \<Longrightarrow> length ys < n \<Longrightarrow>
   walk_pages s p n = Inl (OutOfBounds, map of_nat ys)"
proof (induction ys arbitrary: p n)
  case Nil
  then show ?case by (cases n) simp_all
next
  case (Cons y ys)
  then show ?case by (cases n) (auto simp: page_ok_def)
qed

section \<open>The pool after initialisation\<close>

definition linked_pool :: "nat \<Rightarrow> nat \<Rightarrow> nat \<Rightarrow> PageInfo" where
  "linked_pool nr k i =
     \<lparr>frame = (if nr \<le> i \<and> i < k then of_nat i else 0), ref_count = 0,
      nxt = (if nr \<le> i \<and> i + 1 < k then Some (i + 1) else None)\<rparr>"

lemma init_pool_loop:
  "nr < k \<Longrightarrow> page_pool s = linked_pool nr (nr + 1) \<Longrightarrow>
   page_pool (fold (\<lambda>i s. upd_page (i - 1) (nxt_update (\<lambda>_. Some i))
      (upd_page i (frame_update (\<lambda>_. of_nat i)) s)) [nr + 1..<k] s) = linked_pool nr k"
proof (induction k)
  case 0
  then show ?case by simp
next
  case (Suc k)
  show ?case
  proof (cases "nr < k")
    case True
    then have "[nr + 1..<Suc k] = [nr + 1..<k] @ [k]" by simp
    then show ?thesis
      using Suc True by (auto simp: upd_page_def linked_pool_def fun_eq_iff)
  next
    case False
    with Suc.prems have "nr = k" by simp
    then show ?thesis using Suc.prems by simp
  qed
qed

lemma linked_pool_chain:
  "nr \<le> i \<Longrightarrow> i < k \<Longrightarrow> chain (linked_pool nr k) (Some i) [i..<k]"
proof (induction "k - i" arbitrary: i)
  case 0
  then show ?case by simp
next
  case (Suc d)
  then have "[i..<k] = i # [Suc i..<k]" by (simp add: upt_conv_Cons)
  moreover have "chain (linked_pool nr k) (Some (Suc i)) [Suc i..<k]" if "Suc i < k"
    using Suc that by auto
  ultimately show ?case
    using Suc.prems by (cases "Suc i < k") (auto simp: linked_pool_def)
qed

lemma init_pool_inv:
  assumes "nr_kernel_page kend < NR_PAGES"
  shows "\<exists>s'. init_pool kend s = Inr s' \<and> page_pool s' = linked_pool (nr_kernel_page kend) NR_PAGES
    \<and> pages_inv s' [nr_kernel_page kend..<NR_PAGES]"
proof -
  let ?nr = "nr_kernel_page kend"
  let ?s0 = "upd_page ?nr (frame_update (\<lambda>_. of_nat ?nr)) (s\<lparr>page_pool := (\<lambda>_. empty_page)\<rparr>)"
  let ?s1 = "fold (\<lambda>i s. upd_page (i - 1) (nxt_update (\<lambda>_. Some i))
      (upd_page i (frame_update (\<lambda>_. of_nat i)) s)) [?nr + 1..<NR_PAGES] ?s0"
  let ?s2 = "?s1\<lparr>free_page_list := Some ?nr\<rparr>"
  have "page_pool ?s0 = linked_pool ?nr (?nr + 1)"
    by (auto simp: upd_page_def linked_pool_def empty_page_def fun_eq_iff)
  from init_pool_loop [OF assms this] have pool: "page_pool ?s2 = linked_pool ?nr NR_PAGES"
    by simp
  have "init_pool kend s = Inr ?s2"
    using assms by (simp add: init_pool_def Let_def)
  moreover have "pages_inv ?s2 [?nr..<NR_PAGES]"
    unfolding pages_inv_def pool using assms linked_pool_chain [of ?nr ?nr NR_PAGES]
    by (auto simp: page_ok_def linked_pool_def)
  ultimately show ?thesis using pool by blast
qed

section \<open>Rounding\<close>

lemma unat_roundup: "unat (roundup a) = ((unat a + 4095) div 4096 * 4096) mod 4294967296"
proof -
  let ?b = "drop_bit 12 (a - 1) + 1"
  have d: "unat (drop_bit 12 (a - 1)) = unat (a - 1) div 4096"
    by (simp add: unat_drop_bit32 del: drop_bit_of_Suc_0)
  have b: "unat ?b = (unat a + 4095) div 4096 \<or> (a = 0 \<and> unat ?b = 1048576)"
  proof (cases "a = 0")
    case True
    have "unat (- 1 :: u32) = 4294967295" by (simp add: unsigned_minus_1_eq_mask mask_eq_exp_minus_1)
    then show ?thesis using d True by (simp add: unat_add_word)
  next
    case False
    then have a: "unat (a - 1) = unat a - 1" "unat a \<noteq> 0" by (simp_all add: unat_minus_one unat_eq_0)
    have "unat (drop_bit 12 (a - 1)) + 1 < 4294967296" using d unat_lt32 [of "a - 1"] by linarith
    then have "unat ?b = unat (drop_bit 12 (a - 1)) + 1" by (simp add: unat_add_word)
    also have "\<dots> = (unat a + 4095) div 4096" using a(2) unfolding d a(1) by linarith
    finally show ?thesis by simp
  qed
  have "unat (push_bit 12 ?b) = (unat ?b * 4096) mod 4294967296"
    by (simp only: unat_push_bit32) simp
  moreover have "(unat ?b * 4096) mod 4294967296 = ((unat a + 4095) div 4096 * 4096) mod 4294967296"
    using b
  proof
    assume "unat ?b = (unat a + 4095) div 4096"
    then show ?thesis by (simp only:)
  next
    assume zero: "a = 0 \<and> unat ?b = 1048576"
    then have "unat a = 0" by simp
    then show ?thesis unfolding conjunct2 [OF zero] by simp
  qed
  ultimately show ?thesis unfolding roundup_def PG_SIZE_LOG2_def by (rule trans)
qed

lemma unat_rounddown: "unat (rounddown a) = unat a div 4096 * 4096"
proof -
  have mask: "PG_SIZE - 1 = mask 12" by (simp add: PG_SIZE_def mask_eq_exp_minus_1)
  have "rounddown a = push_bit 12 (drop_bit 12 a)"
    unfolding rounddown_def mask by (rule bit_word_eqI) (auto simp: bit_simps)
  moreover have "unat a div 4096 * 4096 < 4294967296"
    using unat_lt32 [of a] by linarith
  ultimately show ?thesis by (simp only: unat_push_bit32 unat_drop_bit32) simp
qed

lemma div_mod_page: "y mod 4294967296 div 4096 * 4096 = (y div 4096 * 4096) mod (4294967296 :: nat)"
proof -
  have "y mod (4096 * 1048576) = 4096 * (y div 4096 mod 1048576) + y mod 4096"
    by (rule mod_mult2_eq)
  moreover have "(y div 4096 * 4096) mod (1048576 * 4096) = y div 4096 mod 1048576 * 4096"
    by (rule mod_mult_mult2)
  ultimately show ?thesis by simp
qed

section \<open>Properties\<close>

text \<open>Page rounding: \<open>rounddown\<close> is the next lower multiple of the page size and
  \<open>roundup\<close> the next higher one, modulo the address space (the last page rounds up to
  0); both agree with the macros \<open>ROUNDDOWN\<close> and \<open>ROUNDUP\<close> for the page size.\<close>

lemma page_rounding:
  "unat (rounddown a) = unat a div 4096 * 4096
    \<and> unat (roundup a) = ((unat a + 4095) div 4096 * 4096) mod 4294967296
    \<and> rounddown a = ROUNDDOWN a PG_SIZE \<and> roundup a = ROUNDUP a PG_SIZE"
proof (intro conjI)
  have down: "unat (ROUNDDOWN a PG_SIZE) = unat a div 4096 * 4096" for a
  proof -
    have "unat (a mod PG_SIZE) = unat a mod 4096" by (simp add: unat_mod PG_SIZE_def)
    then have "unat (a - a mod PG_SIZE) = unat a - unat a mod 4096"
      by (simp only: unat_diff_word) simp
    then show ?thesis by (simp only: ROUNDDOWN_def minus_mod_eq_div_mult)
  qed
  show "unat (rounddown a) = unat a div 4096 * 4096" by (rule unat_rounddown)
  then show "rounddown a = ROUNDDOWN a PG_SIZE" by (simp add: word_unat_eq_iff down)
  show up: "unat (roundup a) = ((unat a + 4095) div 4096 * 4096) mod 4294967296"
    by (rule unat_roundup)
  have "unat (a + PG_SIZE - 1) = (unat a + 4095) mod 4294967296"
  proof -
    have "a + PG_SIZE - 1 = a + 4095" by (simp add: PG_SIZE_def)
    then show ?thesis by (simp only: unat_word_ariths) simp
  qed
  then have "unat (ROUNDUP a PG_SIZE) = (unat a + 4095) mod 4294967296 div 4096 * 4096"
    by (simp add: ROUNDUP_def down)
  also have "\<dots> = ((unat a + 4095) div 4096 * 4096) mod 4294967296"
    by (rule div_mod_page)
  finally show "roundup a = ROUNDUP a PG_SIZE"
    by (simp only: word_unat_eq_iff up)
qed

text \<open>After the pool is built, \<open>n\<close> allocations return the \<open>n\<close> page frames directly behind
  the kernel image, in order (so pairwise distinct and none of the kernel's own), as long
  as there are that many; one more than there are panics.\<close>

lemma alloc_after_init:
  assumes "nr_kernel_page kend < NR_PAGES" and "init_pool kend s = Inr s0"
  shows "(if nr_kernel_page kend + n \<le> NR_PAGES
     then \<exists>s1. alloc_times alloc_page n s0
            = Inr (map of_nat [nr_kernel_page kend..<nr_kernel_page kend + n], s1)
          \<and> pages_inv s1 [nr_kernel_page kend + n..<NR_PAGES]
     else alloc_times alloc_page n s0 = Inl (Panic no_free_page))"
proof -
  let ?nr = "nr_kernel_page kend"
  have inv: "pages_inv s0 [?nr..<NR_PAGES]"
    using init_pool_inv [OF assms(1), of s] assms(2) by auto
  show ?thesis
  proof (cases "?nr + n \<le> NR_PAGES")
    case True
    then have "[?nr..<NR_PAGES] = [?nr..<?nr + n] @ [?nr + n..<NR_PAGES]"
      by (intro upt_split) simp_all
    with kernel_pages.alloc_times_some [of s0 "[?nr..<?nr + n]" "[?nr + n..<NR_PAGES]"] inv True
    show ?thesis by simp
  next
    case False
    with assms(1) have "NR_PAGES - ?nr < n" by linarith
    with kernel_pages.alloc_times_exhausted [OF inv, of n] False show ?thesis by simp
  qed
qed

lemma alloc_after_init_witness:
  "\<exists>s0. if nr_kernel_page 0x423456 + 3 \<le> NR_PAGES
     then \<exists>s1. alloc_times alloc_page 3 s0
            = Inr (map of_nat [nr_kernel_page 0x423456..<nr_kernel_page 0x423456 + 3], s1)
          \<and> pages_inv s1 [nr_kernel_page 0x423456 + 3..<NR_PAGES]
     else alloc_times alloc_page 3 s0 = Inl (Panic no_free_page)"
proof -
  have h: "nr_kernel_page 0x423456 < NR_PAGES"
    by (simp add: nr_kernel_page_def roundup_def PG_SIZE_LOG2_def PG_SIZE_def NR_PAGES_def)
  then obtain s0 where "init_pool 0x423456 \<lparr>free_page_list = None, page_pool = \<lambda>_. empty_page\<rparr> = Inr s0"
    using init_pool_inv by blast
  then show ?thesis using alloc_after_init [OF h, of _ s0 3] by blast
qed

text \<open>A page is never handed out twice: the frames of any successful sequence of
  allocations are pairwise distinct and inside the pool.\<close>

lemma alloc_never_twice:
  assumes "pages_inv s fs" and "alloc_times alloc_page n s = Inr (gs, s')"
  shows "distinct gs \<and> (\<forall>g \<in> set gs. unat g < NR_PAGES)"
  using assms by (rule kernel_pages.alloc_times_distinct)

definition three_pages :: pages where
  "three_pages = \<lparr>free_page_list = Some 5, page_pool = (\<lambda>_. empty_page)(
     5 := \<lparr>frame = 5, ref_count = 0, nxt = Some 9\<rparr>,
     9 := \<lparr>frame = 9, ref_count = 0, nxt = Some 2\<rparr>, 2 := \<lparr>frame = 2, ref_count = 0, nxt = None\<rparr>)\<rparr>"

lemma alloc_never_twice_witness:
  "(\<exists>s'. alloc_times alloc_page 2 three_pages = Inr ([5, 9], s'))
    \<and> distinct [5, 9 :: u32] \<and> unat (5 :: u32) < NR_PAGES \<and> unat (9 :: u32) < NR_PAGES"
proof -
  have "pages_inv three_pages [5, 9, 2]"
    by (simp add: three_pages_def pages_inv_def page_ok_def NR_PAGES_def)
  moreover obtain s' where s': "alloc_times alloc_page 2 three_pages = Inr ([5, 9], s')"
    by (simp add: three_pages_def alloc_page_def upd_page_def numeral_2_eq_2)
  ultimately have "distinct [5, 9 :: u32] \<and> (\<forall>g \<in> set [5, 9 :: u32]. unat g < NR_PAGES)"
    by (rule alloc_never_twice)
  with s' show ?thesis by simp
qed

text \<open>Releasing a frame of the pool never panics and drops one reference, but never puts
  the page back: whatever the state, the head of the free list and the entries of all
  other pages stay as they are, so the list of free frames is the same after the call.
  (The code sets the page's link to the list head and then the head to that link.)\<close>

lemma release_page_leaks:
  assumes "unat fr < NR_PAGES" and "pages_inv s fs" and "unat fr \<notin> set fs"
  shows "\<exists>s'. release_page s fr = Inr s'
    \<and> ref_count (page_pool s' (unat fr)) = ref_count (page_pool s (unat fr)) - 1
    \<and> free_page_list s' = free_page_list s \<and> pages_inv s' fs"
  using release_page_step [OF assms(1), of s] release_all_inv [OF assms(2), of "[fr]"] assms(1,3)
  by (auto split: sum.splits)

lemma release_page_leaks_witness:
  "\<exists>s'. release_page three_pages 7 = Inr s'
    \<and> ref_count (page_pool s' (unat (7 :: u32))) = ref_count (page_pool three_pages (unat (7 :: u32))) - 1
    \<and> free_page_list s' = free_page_list three_pages \<and> pages_inv s' [5, 9, 2]"
  by (rule release_page_leaks) (simp_all add: three_pages_def pages_inv_def page_ok_def NR_PAGES_def)

text \<open>The first two loops of the self test keep the pages they have taken.\<close>

lemma test_page_walks:
  assumes "pages_inv s (xs @ ys)" and "length xs = 255"
  shows "\<exists>s'. test_page s = (case walk_pages s' (free_page_list s') 15 of Inl stopped \<Rightarrow> Inl stopped | Inr log \<Rightarrow> Inr (log, s'))
    \<and> pages_inv s' ys"
proof -
  obtain s1 where s1: "alloc_times alloc_page 255 s = Inr (map of_nat xs, s1)" "pages_inv s1 ys"
    using kernel_pages.alloc_times_some [OF assms(1)] assms(2) by auto
  have small: "\<forall>x \<in> set xs. x < NR_PAGES" "set xs \<inter> set ys = {}"
    using kernel_pages.inv_bound [OF assms(1)] kernel_pages.inv_distinct [OF assms(1)] by auto
  then have "\<forall>x \<in> set xs. unat (of_nat x :: u32) = x"
    by (auto simp: NR_PAGES_def unat_of_nat32)
  with small have "\<forall>f \<in> set (map of_nat xs). unat (f :: u32) < NR_PAGES \<and> unat f \<notin> set ys"
    by auto
  with release_all_inv [OF s1(2)] obtain s2 where s2: "release_all (map of_nat xs) s1 = Inr s2" "pages_inv s2 ys"
    by blast
  then show ?thesis using s1 by (intro exI [of _ s2]) (simp add: test_page_def)
qed

lemma test_page_run:
  assumes "pages_inv s (xs @ ys)" and "length xs = 255" and "15 \<le> length ys"
  shows "\<exists>s'. test_page s = Inr (map of_nat (take 15 ys), s') \<and> pages_inv s' ys"
proof -
  obtain s2 where s2: "test_page s = (case walk_pages s2 (free_page_list s2) 15 of Inl stopped \<Rightarrow> Inl stopped | Inr log \<Rightarrow> Inr (log, s2))"
    "pages_inv s2 ys" using test_page_walks [OF assms(1,2)] by blast
  then have "walk_pages s2 (free_page_list s2) 15 = Inr (map of_nat (take 15 ys))"
    using assms(3) by (intro walk_pages_chain) (auto simp: pages_inv_def)
  with s2 show ?thesis by simp
qed

text \<open>With fewer free pages than it takes the self test panics; with fewer than the fifteen it walks
  over behind them it logs the ones there are and runs off the end of the free list.\<close>

lemma test_page_fails:
  assumes "pages_inv s zs"
  shows "length zs < 255 \<Longrightarrow> test_page s = Inl (Panic no_free_page, [])"
    and "255 \<le> length zs \<Longrightarrow> length zs < 270 \<Longrightarrow> test_page s = Inl (OutOfBounds, map of_nat (drop 255 zs))"
proof -
  show "test_page s = Inl (Panic no_free_page, [])" if "length zs < 255"
    using kernel_pages.alloc_times_exhausted [OF assms that] by (simp add: test_page_def)
  assume len: "255 \<le> length zs" "length zs < 270"
  have "pages_inv s (take 255 zs @ drop 255 zs)" using assms by simp
  then obtain s2 where s2: "test_page s = (case walk_pages s2 (free_page_list s2) 15 of Inl stopped \<Rightarrow> Inl stopped | Inr log \<Rightarrow> Inr (log, s2))"
    "pages_inv s2 (drop 255 zs)" using test_page_walks [of s "take 255 zs" "drop 255 zs"] len by auto
  then have "walk_pages s2 (free_page_list s2) 15 = Inl (OutOfBounds, map of_nat (drop 255 zs))"
    using len by (intro walk_pages_short) (auto simp: pages_inv_def dest: in_set_dropD)
  with s2 show "test_page s = Inl (OutOfBounds, map of_nat (drop 255 zs))" by simp
qed

text \<open>The kernel's self test \<open>test_page\<close> passes whenever at least 270 pages are free: it
  logs the next fifteen free frames, and all 255 pages it allocated and released stay out
  of the free list.\<close>

lemma test_page_leaks:
  assumes "pages_inv s (xs @ ys)" and "length xs = 255" and "15 \<le> length ys"
  shows "\<exists>s'. test_page s = Inr (map of_nat (take 15 ys), s') \<and> pages_inv s' ys"
  by (rule test_page_run [OF assms])

lemma test_page_leaks_witness:
  "\<exists>s s'. test_page s = Inr (map of_nat (take 15 [1255..<1300]), s') \<and> pages_inv s' [1255..<1300]"
proof -
  let ?s = "\<lparr>free_page_list = Some 1000, page_pool = linked_pool 1000 1300\<rparr>"
  have split: "[1000..<1300] = [1000..<1255] @ [1255..<(1300::nat)]"
    by (rule upt_split) simp_all
  have "pages_inv ?s [1000..<1300]"
    using linked_pool_chain [of 1000 1000 1300]
    by (auto simp: pages_inv_def page_ok_def linked_pool_def NR_PAGES_def simp del: upt_rec_numeral)
  then have "pages_inv ?s ([1000..<1255] @ [1255..<1300])" by (simp only: split)
  from test_page_leaks [OF this] show ?thesis by (auto simp del: upt_rec_numeral)
qed

end
