(* ===== verification/Steps.thy ===== *)
theory Steps
  imports Prelude
begin

text \<open>
  Labelled transition systems for the parts of the program that others drive: an inductive
  step relation with the event that causes the step, its finite traces, and the rule that
  carries an invariant over the history along every trace.
\<close>

section \<open>Traces\<close>

inductive trace :: "('s \<Rightarrow> 'e \<Rightarrow> 's \<Rightarrow> bool) \<Rightarrow> 's \<Rightarrow> 'e list \<Rightarrow> 's \<Rightarrow> bool" for step where
  trace_none: "trace step s [] s"
| trace_more: "trace step s es t \<Longrightarrow> step t e u \<Longrightarrow> trace step s (es @ [e]) u"

inductive_cases trace_nilE: "trace step s [] t"
inductive_cases trace_snocE: "trace step s (es @ [e]) t"

lemma trace_nil_iff [simp]: "trace step s [] t \<longleftrightarrow> t = s"
  by (auto intro: trace_none elim: trace_nilE)

lemma trace_snoc_iff: "trace step s (es @ [e]) u \<longleftrightarrow> (\<exists>t. trace step s es t \<and> step t e u)"
  by (auto intro: trace_more elim: trace_snocE)

lemma trace_append:
  assumes "trace step t fs u" and "trace step s es t"
  shows "trace step s (es @ fs) u"
  using assms
proof (induction rule: trace.induct)
  case (trace_more s' fs t' e u)
  then show ?case using trace.trace_more [of step s "es @ fs" t' e u] by simp
qed simp

lemma trace_single: "step s e t \<Longrightarrow> trace step s [e] t"
  using trace_more [OF trace_none, of step s e t] by simp

lemma trace_step: "step s e t \<Longrightarrow> trace step t es u \<Longrightarrow> trace step s (e # es) u"
  using trace_append [of step t es u s "[e]"] trace_single [of step s e t] by simp

lemma trace_Cons_iff: "trace step s (e # es) u \<longleftrightarrow> (\<exists>t. step s e t \<and> trace step t es u)"
proof
  assume "trace step s (e # es) u"
  then show "\<exists>t. step s e t \<and> trace step t es u"
  proof (induction es arbitrary: u rule: rev_induct)
    case Nil
    then show ?case using trace_snoc_iff [of step s "[]" e u] by simp
  next
    case (snoc f es)
    from snoc.prems obtain v where "trace step s (e # es) v" "step v f u"
      unfolding append_Cons [symmetric] trace_snoc_iff by blast
    with snoc.IH [of v] show ?case using trace_more by metis
  qed
qed (blast intro: trace_step)

section \<open>Invariants\<close>

text \<open>What a machine has to show of a property of start, history and state.\<close>

locale history_invariant =
  fixes step :: "'s \<Rightarrow> 'e \<Rightarrow> 's \<Rightarrow> bool"
    and J :: "'s \<Rightarrow> 'e list \<Rightarrow> 's \<Rightarrow> bool"
  assumes J_step: "J s es t \<Longrightarrow> step t e u \<Longrightarrow> J s (es @ [e]) u"
begin

lemma reached: "trace step s es t \<Longrightarrow> J s [] s \<Longrightarrow> J s es t"
  by (induction rule: trace.induct) (blast intro: J_step)+

end

text \<open>A machine with a state invariant is the special case of a property without history.\<close>

locale state_invariant =
  fixes step :: "'s \<Rightarrow> 'e \<Rightarrow> 's \<Rightarrow> bool" and inv :: "'s \<Rightarrow> bool"
  assumes inv_step: "inv s \<Longrightarrow> step s e t \<Longrightarrow> inv t"

sublocale state_invariant \<subseteq> history: history_invariant step "\<lambda>s es t. inv t"
  by unfold_locales (rule inv_step)

context state_invariant
begin

lemma kept: "trace step s es t \<Longrightarrow> inv s \<Longrightarrow> inv t"
  by (rule history.reached)

end

text \<open>A machine that simulates an abstract one with the same events.\<close>

locale simulation = state_invariant +
  fixes astep :: "'a \<Rightarrow> 'e \<Rightarrow> 'a \<Rightarrow> bool" and abs :: "'s \<Rightarrow> 'a"
  assumes simulate: "inv s \<Longrightarrow> step s e t \<Longrightarrow> astep (abs s) e (abs t)"
begin

lemma refines: "trace step s es t \<Longrightarrow> inv s \<Longrightarrow> trace astep (abs s) es (abs t)"
proof (induction rule: trace.induct)
  case (trace_more s es t e u)
  then show ?case using trace.trace_more simulate kept by metis
qed simp

end

end
