(* ===== verification/PageMachine.thy ===== *)
theory PageMachine
  imports Pages Steps "HOL-Library.Multiset"
begin

text \<open>
  The page allocator of \<open>kernel/page.c\<close> under a client: any interleaving of \<open>alloc_page\<close> and
  \<open>release_page\<close> calls in which only frames that the client holds are released. The events
  carry the frames; the state is the pool with the frames that are held.
\<close>

section \<open>The machine\<close>

datatype page_event = Alloc u32 | Release u32

inductive page_use :: "pages \<times> u32 multiset \<Rightarrow> page_event \<Rightarrow> pages \<times> u32 multiset \<Rightarrow> bool" where
  use_alloc: "alloc_page s = Inr (f, s') \<Longrightarrow> page_use (s, H) (Alloc f) (s', add_mset f H)"
| use_release: "f \<in># H \<Longrightarrow> release_page s f = Inr s' \<Longrightarrow> page_use (s, H) (Release f) (s', H - {#f#})"

inductive_simps page_use_alloc: "page_use st (Alloc f) st'"
inductive_simps page_use_release: "page_use st (Release f) st'"

text \<open>The frames that a history has handed out, in order.\<close>

fun allocs :: "page_event list \<Rightarrow> u32 list" where
  "allocs [] = []"
| "allocs (Alloc f # es) = f # allocs es"
| "allocs (Release f # es) = allocs es"

lemma allocs_append [simp]: "allocs (es @ fs) = allocs es @ allocs fs"
  by (induction es rule: allocs.induct) simp_all

section \<open>Its invariant\<close>

text \<open>When the free list was \<open>xs\<close> and nothing was held, the history has taken a prefix of \<open>xs\<close>,
  the rest is the free list, the held frames are among those taken, and each taken frame
  has a reference count that says whether it is held.\<close>

definition taken :: "nat list \<Rightarrow> page_event list \<Rightarrow> pages \<times> u32 multiset \<Rightarrow> bool" where
  "taken xs es st \<longleftrightarrow>
     (\<exists>ys zs. xs = ys @ zs \<and> allocs es = map of_nat ys \<and> pages_inv (fst st) zs
       \<and> snd st \<subseteq># mset (allocs es)
       \<and> (\<forall>y \<in> set ys. unat (ref_count (page_pool (fst st) y)) = count (snd st) (of_nat y)))"

definition well_used :: "pages \<times> u32 multiset \<Rightarrow> page_event list \<Rightarrow> pages \<times> u32 multiset \<Rightarrow> bool" where
  "well_used st0 es st \<longleftrightarrow> (\<forall>xs. pages_inv (fst st0) xs \<and> snd st0 = {#} \<longrightarrow> taken xs es st)"

lemma pages_inv_bound: "pages_inv s xs \<Longrightarrow> x \<in> set xs \<Longrightarrow> x < NR_PAGES \<and> unat (of_nat x :: u32) = x"
  by (auto simp: pages_inv_def page_ok_def NR_PAGES_def unat_of_nat32)

lemma frames_inj:
  assumes "x < NR_PAGES" "y < NR_PAGES"
  shows "(of_nat x :: u32) = of_nat y \<longleftrightarrow> x = y"
proof
  assume "(of_nat x :: u32) = of_nat y"
  then have "unat (of_nat x :: u32) = unat (of_nat y :: u32)" by simp
  then show "x = y" using assms by (simp add: unat_of_nat32 NR_PAGES_def)
qed simp

text \<open>Between the start and a state with the invariant all frames are distinct pool entries.\<close>

lemma taken_alloc:
  assumes inv0: "pages_inv s0 xs" and t: "taken xs es (s, H)" and a: "alloc_page s = Inr (f, s')"
  shows "taken xs (es @ [Alloc f]) (s', add_mset f H)"
proof -
  obtain ys zs where xs: "xs = ys @ zs" "allocs es = map of_nat ys" "pages_inv s zs" "H \<subseteq># mset (allocs es)"
    and rc: "\<forall>y \<in> set ys. unat (ref_count (page_pool s y)) = count H (of_nat y)"
    using t unfolding taken_def fst_conv snd_conv by (elim exE conjE)
  obtain z zs' where zs: "zs = z # zs'" using a xs(3) alloc_page_empty [of s] by (cases zs) auto
  obtain s1 where "alloc_page s = Inr (of_nat z, s1)" "pages_inv s1 zs'"
    "page_pool s1 = (page_pool s)(z := \<lparr>frame = of_nat z, ref_count = 1, nxt = None\<rparr>)"
    using alloc_page_step [of s z zs'] xs(3) zs by blast
  then have f: "f = of_nat z" "pages_inv s' zs'"
    and pool: "page_pool s' = (page_pool s)(z := \<lparr>frame = of_nat z, ref_count = 1, nxt = None\<rparr>)"
    using a by simp_all
  have bound: "x < NR_PAGES" if "x \<in> set xs" for x using pages_inv_bound [OF inv0 that] by simp
  have z: "z \<notin> set ys" using inv0 by (auto simp: pages_inv_def xs(1) zs)
  have new: "(of_nat y :: u32) \<noteq> of_nat z" if "y \<in> set ys" for y
    using frames_inj [of y z] bound that z by (auto simp: xs(1) zs)
  then have "(of_nat z :: u32) \<notin> of_nat ` set ys" by force
  then have "of_nat z \<notin># H" using mset_subset_eqD [OF xs(4), of "of_nat z"] by (auto simp: xs(2))
  then have "unat (ref_count (page_pool s' y)) = count (add_mset f H) (of_nat y)" if "y \<in> set (ys @ [z])" for y
    using that rc new new [symmetric] z by (auto simp: pool f(1) not_in_iff)
  then show ?thesis unfolding taken_def
    using xs f by (intro exI [of _ "ys @ [z]"] exI [of _ zs']) (simp add: zs)
qed

lemma taken_release:
  assumes inv0: "pages_inv s0 xs" and t: "taken xs es (s, H)" and h: "f \<in># H" and r: "release_page s f = Inr s'"
  shows "taken xs (es @ [Release f]) (s', H - {#f#})"
proof -
  obtain ys zs where xs: "xs = ys @ zs" "allocs es = map of_nat ys" "pages_inv s zs" "H \<subseteq># mset (allocs es)"
    and rc: "\<forall>y \<in> set ys. unat (ref_count (page_pool s y)) = count H (of_nat y)"
    using t unfolding taken_def fst_conv snd_conv by (elim exE conjE)
  have bound: "x < NR_PAGES" if "x \<in> set xs" for x using pages_inv_bound [OF inv0 that] by simp
  obtain y where y: "y \<in> set ys" "f = of_nat y" using mset_subset_eqD [OF xs(4) h] by (auto simp: xs(2))
  then have fy: "unat f = y" "y < NR_PAGES" using pages_inv_bound [OF inv0, of y] xs(1) by simp_all
  have "y \<notin> set zs" using inv0 y(1) by (auto simp: pages_inv_def xs(1))
  then obtain s1 where s1: "release_page s f = Inr s1" "pages_inv s1 zs"
    using release_all_inv [OF xs(3), of "[f]"] fy by (auto split: sum.splits)
  obtain s2 where "release_page s f = Inr s2" "ref_count (page_pool s2 y) = ref_count (page_pool s y) - 1"
    "\<forall>i. i \<noteq> y \<longrightarrow> page_pool s2 i = page_pool s i"
    using release_page_step [of f s] fy by auto
  then have inv': "pages_inv s' zs" and pool: "ref_count (page_pool s' y) = ref_count (page_pool s y) - 1"
    "\<forall>i. i \<noteq> y \<longrightarrow> page_pool s' i = page_pool s i"
    using r s1 by auto
  have "0 < count H f" using h by simp
  then have "0 < unat (ref_count (page_pool s y))" using rc y by simp
  then have "unat (ref_count (page_pool s y) - 1) = unat (ref_count (page_pool s y)) - 1"
    by (intro unat_minus_one) auto
  then have "unat (ref_count (page_pool s' i)) = count (H - {#f#}) (of_nat i)" if "i \<in> set ys" for i
    using that rc pool y frames_inj [of i y] bound by (cases "i = y") (auto simp: xs(1))
  moreover have "H - {#f#} \<subseteq># mset (allocs es)" using xs(4) by (meson diff_subset_eq_self subset_mset.order_trans)
  ultimately show ?thesis unfolding taken_def
    using xs(1,2) inv' by (intro exI [of _ ys] exI [of _ zs]) simp
qed

interpretation page_machine: history_invariant page_use well_used
proof
  fix st0 es st e st'
  assume J: "well_used st0 es st" and step: "page_use st e st'"
  show "well_used st0 (es @ [e]) st'"
    unfolding well_used_def
  proof (intro allI impI, elim conjE)
    fix xs assume inv0: "pages_inv (fst st0) xs" and none: "snd st0 = {#}"
    then have t: "taken xs es st" using J unfolding well_used_def by blast
    from step t show "taken xs (es @ [e]) st'"
      by cases (auto intro: taken_alloc [OF inv0] taken_release [OF inv0])
  qed
qed

lemma page_machine_taken:
  assumes "pages_inv s xs" and "trace page_use (s, {#}) es st"
  shows "taken xs es st"
proof -
  have "well_used (s, {#}) [] (s, {#})"
    by (auto simp: well_used_def taken_def)
  from page_machine.reached [OF assms(2) this] assms(1) show ?thesis by (simp add: well_used_def)
qed


section \<open>Properties\<close>

text \<open>C4: however a client mixes allocations with releases of frames it holds, the frames handed
  out are the free list's in its order and pairwise distinct, so no frame is handed out
  twice, not even after it was released; the free list is what they leave of it; the held frames are among
  them, and the reference count of a frame that was handed out is the number of times it is
  held, zero or one.\<close>

theorem allocator_machine:
  assumes "pages_inv s xs" and "trace page_use (s, {#}) es (s', H)"
  shows "\<exists>k \<le> length xs. allocs es = map of_nat (take k xs) \<and> distinct (allocs es) \<and> pages_inv s' (drop k xs)
    \<and> H \<subseteq># mset (allocs es)
    \<and> (\<forall>f \<in> set (allocs es). unat (ref_count (page_pool s' (unat f))) = count H f \<and> count H f \<le> 1)"
proof -
  from page_machine_taken [OF assms] obtain ys zs where t: "xs = ys @ zs" "allocs es = map of_nat ys" "pages_inv s' zs"
    "H \<subseteq># mset (allocs es)" and rc: "\<forall>y \<in> set ys. unat (ref_count (page_pool s' y)) = count H (of_nat y)"
    unfolding taken_def fst_conv snd_conv by (elim exE conjE)
  have "x < NR_PAGES" "unat (of_nat x :: u32) = x" if "x \<in> set ys" for x
    using pages_inv_bound [OF assms(1), of x] that t(1) by simp_all
  then have unat: "\<forall>x \<in> set ys. unat (of_nat x :: u32) = x" by blast
  have "distinct ys" using assms(1) by (simp add: pages_inv_def t(1))
  moreover have "inj_on (of_nat :: nat \<Rightarrow> u32) (set ys)" using unat by (metis inj_onI)
  ultimately have d: "distinct (allocs es)" by (simp add: t(2) distinct_map)
  then have one: "count (mset (allocs es)) f \<le> 1" for f by (simp add: distinct_count_atmost_1)
  have le: "count H f \<le> 1" for f
    using mset_subset_eq_count [OF t(4), of f] one [of f] by (rule order_trans)
  have "unat (ref_count (page_pool s' (unat f))) = count H f" if "f \<in> set (allocs es)" for f
    using that rc unat by (auto simp: t(2))
  then show ?thesis using t d le
    by (intro exI [of _ "length ys"]) simp
qed

text \<open>C22: in every state that a client can reach, a frame that it holds can be released, without a
  panic and without the reference count passing below zero, and a frame can be allocated
  exactly when fewer frames have been handed out than were free at the start: releasing
  gives nothing back.\<close>

theorem allocator_capacity:
  assumes "pages_inv s xs" and "trace page_use (s, {#}) es (s', H)"
  shows "((\<exists>f st. page_use (s', H) (Alloc f) st) \<longleftrightarrow> length (allocs es) < length xs)
    \<and> (\<forall>f. f \<notin># H \<or> ref_count (page_pool s' (unat f)) = 1 \<and> (\<exists>st. page_use (s', H) (Release f) st))"
proof -
  from page_machine_taken [OF assms] obtain ys zs where t: "xs = ys @ zs" "allocs es = map of_nat ys" "pages_inv s' zs"
    "H \<subseteq># mset (allocs es)" and rc: "\<forall>y \<in> set ys. unat (ref_count (page_pool s' y)) = count H (of_nat y)"
    unfolding taken_def fst_conv snd_conv by (elim exE conjE)
  have "(\<exists>f st. page_use (s', H) (Alloc f) st) \<longleftrightarrow> zs \<noteq> []"
  proof (cases zs)
    case Nil
    then show ?thesis using t(3) alloc_page_empty [of s'] by (simp add: page_use_alloc)
  next
    case (Cons z zs')
    then show ?thesis using t(3) alloc_page_step [of s' z zs'] by (auto simp: page_use_alloc)
  qed
  moreover have "ref_count (page_pool s' (unat f)) = 1 \<and> (\<exists>st. page_use (s', H) (Release f) st)" if f: "f \<in># H" for f
  proof -
    obtain y where y: "y \<in> set ys" "f = of_nat y" using mset_subset_eqD [OF t(4) f] by (auto simp: t(2))
    then have b: "y < NR_PAGES" "unat f = y" using pages_inv_bound [OF assms(1), of y] by (simp_all add: t(1))
    have "distinct ys" "\<forall>x \<in> set ys. unat (of_nat x :: u32) = x"
      using assms(1) pages_inv_bound [OF assms(1)] by (auto simp: pages_inv_def t(1))
    then have "distinct (allocs es)" by (simp add: t(2) distinct_map) (metis inj_onI)
    then have "count H f \<le> 1"
      using mset_subset_eq_count [OF t(4), of f] by (simp add: distinct_count_atmost_1 order_trans)
    moreover have "0 < count H f" using f by simp
    ultimately have "count H f = 1" by linarith
    then have "unat (ref_count (page_pool s' y)) = unat (1 :: u32)" using rc y by simp
    then have "ref_count (page_pool s' (unat f)) = 1" using b(2) by (simp only: word_unat_eq_iff)
    moreover obtain s2 where "release_page s' f = Inr s2" using release_page_step [of f s'] b by auto
    ultimately show ?thesis using f by (auto simp: page_use_release)
  qed
  ultimately show ?thesis using t(1,2) by auto
qed

text \<open>A client of a pool with three free frames that releases one before it takes the last two.\<close>

lemma three_trace:
  "\<exists>st. trace page_use (three_pages, {#}) [Alloc 5, Release 5, Alloc 9, Alloc 2] st \<and> snd st = {#9, 2#}"
proof -
  let ?s1 = "upd_page 5 (\<lambda>_. \<lparr>frame = 5, ref_count = 1, nxt = None\<rparr>) (three_pages\<lparr>free_page_list := Some 9\<rparr>)"
  let ?s2 = "upd_page 5 (\<lambda>_. \<lparr>frame = 5, ref_count = 0, nxt = Some 9\<rparr>) ?s1"
  let ?s3 = "upd_page 9 (\<lambda>_. \<lparr>frame = 9, ref_count = 1, nxt = None\<rparr>) (?s2\<lparr>free_page_list := Some 2\<rparr>)"
  let ?s4 = "upd_page 2 (\<lambda>_. \<lparr>frame = 2, ref_count = 1, nxt = None\<rparr>) (?s3\<lparr>free_page_list := None\<rparr>)"
  have "alloc_page three_pages = Inr (5, ?s1)" "release_page ?s1 5 = Inr ?s2" "alloc_page ?s2 = Inr (9, ?s3)" "alloc_page ?s3 = Inr (2, ?s4)"
    by (simp_all add: alloc_page_def release_page_def upd_page_def three_pages_def NR_PAGES_def Let_def)
  then have "page_use (three_pages, {#}) (Alloc 5) (?s1, {#5#})" "page_use (?s1, {#5#}) (Release 5) (?s2, {#})"
    "page_use (?s2, {#}) (Alloc 9) (?s3, {#9#})" "page_use (?s3, {#9#}) (Alloc 2) (?s4, {#9, 2#})"
    by (auto simp: page_use_alloc page_use_release)
  then have "trace page_use (three_pages, {#}) [Alloc 5, Release 5, Alloc 9, Alloc 2] (?s4, {#9, 2#})"
    unfolding trace_Cons_iff trace_nil_iff by blast
  then show ?thesis by (rule exI [of _ "(?s4, {#9, 2#})", OF conjI]) simp
qed

lemma three_pages_inv: "pages_inv three_pages [5, 9, 2]"
  by (simp add: three_pages_def pages_inv_def page_ok_def NR_PAGES_def)

theorem allocator_machine_witness:
  "\<exists>s'. trace page_use (three_pages, {#}) [Alloc 5, Release 5, Alloc 9, Alloc 2] (s', {#9, 2#})
    \<and> ref_count (page_pool s' 5) = 0 \<and> ref_count (page_pool s' 9) = 1 \<and> free_page_list s' = None"
proof -
  obtain s' where t: "trace page_use (three_pages, {#}) [Alloc 5, Release 5, Alloc 9, Alloc 2] (s', {#9, 2#})"
    using three_trace by (metis surjective_pairing)
  from allocator_machine [OF three_pages_inv t]
  obtain k where k: "k \<le> length [5, 9, 2 :: nat]" "allocs [Alloc 5, Release 5, Alloc 9, Alloc 2] = map of_nat (take k [5, 9, 2])"
    "pages_inv s' (drop k [5, 9, 2])"
    and rc: "\<forall>f \<in> set (allocs [Alloc 5, Release 5, Alloc 9, Alloc 2]).
      unat (ref_count (page_pool s' (unat f))) = count {#9, 2#} f \<and> count {#9, 2#} f \<le> 1"
    by (elim exE conjE)
  have "length [5, 9, 2 :: u32] = min k 3" using arg_cong [OF k(2), of length] by simp
  then have "k = 3" using k(1) by simp
  then have "free_page_list s' = None" using k(3) by (simp add: pages_inv_def)
  moreover have "unat (ref_count (page_pool s' 5)) = 0" "unat (ref_count (page_pool s' 9)) = 1" using rc by simp_all
  then have "ref_count (page_pool s' 5) = 0" "ref_count (page_pool s' 9) = 1" by (simp_all add: word_unat_eq_iff)
  ultimately show ?thesis using t by auto
qed

theorem allocator_capacity_witness:
  "\<exists>s'. trace page_use (three_pages, {#}) [Alloc 5, Release 5, Alloc 9, Alloc 2] (s', {#9, 2#})
    \<and> (\<nexists>f st. page_use (s', {#9, 2#}) (Alloc f) st) \<and> (\<exists>st. page_use (s', {#9, 2#}) (Release 9) st)"
proof -
  obtain s' where t: "trace page_use (three_pages, {#}) [Alloc 5, Release 5, Alloc 9, Alloc 2] (s', {#9, 2#})"
    using three_trace by (metis surjective_pairing)
  from allocator_capacity [OF three_pages_inv t] show ?thesis using t by auto
qed

end
