(* ===== verification/MMU.thy ===== *)
theory MMU
  imports Prelude
begin

text \<open>
  The paging part of \<open>inc/mmu.h\<close> and the unions of \<open>kernel/page.h\<close>: bit fields of
  machine words, the address macros \<open>PDX\<close>, \<open>PTX\<close>, \<open>PGOFF\<close>, \<open>PGADDR\<close>, page table
  entries and linear addresses, and the page walk of the processor that reads them.
\<close>

section \<open>Bit fields\<close>

text \<open>Reading and assigning the field of \<open>len\<close> bits that starts at bit \<open>lo\<close> of a word; an
  assigned value is cut to the width of the field.\<close>

definition bf_get :: "nat \<Rightarrow> nat \<Rightarrow> 'a::len word \<Rightarrow> 'a word" where
  "bf_get lo len w = drop_bit lo w AND mask len"

definition bf_set :: "nat \<Rightarrow> nat \<Rightarrow> 'a::len word \<Rightarrow> 'a word \<Rightarrow> 'a word" where
  "bf_set lo len w x = (w AND NOT (push_bit lo (mask len))) OR push_bit lo (x AND mask len)"

named_theorems bf_simps \<open>reads of assigned bit fields\<close>

lemma bit_bf_get: "bit (bf_get lo len w) n \<longleftrightarrow> n < len \<and> bit w (lo + n)"
  using bit_imp_le_length [of w "lo + n"] by (auto simp: bf_get_def bit_simps)

lemma bit_bf_set: "bit (bf_set lo len (w :: 'a::len word) x) n
    \<longleftrightarrow> n < LENGTH('a) \<and> (if lo \<le> n \<and> n < lo + len then bit x (n - lo) else bit w n)"
  by (auto simp: bf_set_def bit_simps)

lemma bf_get_set_same [bf_simps]:
  "lo + len \<le> LENGTH('a) \<Longrightarrow> bf_get lo len (bf_set lo len (w :: 'a::len word) x) = x AND mask len"
  by (rule bit_word_eqI) (auto simp: bit_bf_get bit_bf_set bit_simps)

lemma bf_get_set_other [bf_simps]:
  "lo + len \<le> lo' \<or> lo' + len' \<le> lo \<Longrightarrow> bf_get lo len (bf_set lo' len' w x) = bf_get lo len w"
  by (rule bit_word_eqI) (auto simp: bit_bf_get bit_bf_set dest: bit_imp_le_length)

lemma bf_set_get: "bf_set lo len w (bf_get lo len w) = w"
  by (rule bit_word_eqI) (auto simp: bit_bf_get bit_bf_set)

section \<open>Linear addresses\<close>

definition PTXSHIFT :: nat where "PTXSHIFT = 12"
definition PDXSHIFT :: nat where "PDXSHIFT = 22"
definition NPDENTRIES :: nat where "NPDENTRIES = 1024"
definition NPTENTRIES :: nat where "NPTENTRIES = 1024"

definition PGNUM :: "u32 \<Rightarrow> u32" where "PGNUM la = drop_bit PTXSHIFT la"
definition PDX :: "u32 \<Rightarrow> u32" where "PDX la = drop_bit PDXSHIFT la AND 0x3FF"
definition PTX :: "u32 \<Rightarrow> u32" where "PTX la = drop_bit PTXSHIFT la AND 0x3FF"
definition PGOFF :: "u32 \<Rightarrow> u32" where "PGOFF la = la AND 0xFFF"
definition PGADDR :: "u32 \<Rightarrow> u32 \<Rightarrow> u32 \<Rightarrow> u32" where
  "PGADDR d t off = push_bit PDXSHIFT d OR push_bit PTXSHIFT t OR off"

definition PTE_P :: u32 where "PTE_P = 0x001"
definition PTE_W :: u32 where "PTE_W = 0x002"
definition PTE_U :: u32 where "PTE_U = 0x004"
definition PTE_ADDR :: "u32 \<Rightarrow> u32" where "PTE_ADDR pte = pte AND NOT 0xFFF"
definition CR0_PG :: u32 where "CR0_PG = 0x80000000"

text \<open>The union \<open>LinearAddr\<close>, by its member \<open>val\<close>: the fields of its two bit-field
  structures.\<close>

type_synonym LinearAddr = u32

definition la_offset :: "LinearAddr \<Rightarrow> u32" where "la_offset la = bf_get 0 12 la"
definition la_tab_idx :: "LinearAddr \<Rightarrow> u32" where "la_tab_idx la = bf_get 12 10 la"
definition la_dir_idx :: "LinearAddr \<Rightarrow> u32" where "la_dir_idx la = bf_get 22 10 la"
definition la_frame :: "LinearAddr \<Rightarrow> u32" where "la_frame la = bf_get 12 20 la"
definition la_set_tab_idx :: "LinearAddr \<Rightarrow> u32 \<Rightarrow> LinearAddr" where
  "la_set_tab_idx la x = bf_set 12 10 la x"
definition la_set_dir_idx :: "LinearAddr \<Rightarrow> u32 \<Rightarrow> LinearAddr" where
  "la_set_dir_idx la x = bf_set 22 10 la x"
definition la_set_frame :: "LinearAddr \<Rightarrow> u32 \<Rightarrow> LinearAddr" where
  "la_set_frame la x = bf_set 12 20 la x"

text \<open>The union \<open>PTE\<close>, by its member \<open>val\<close>.\<close>

type_synonym PTE = u32

definition pte_set_p :: "PTE \<Rightarrow> u32 \<Rightarrow> PTE" where "pte_set_p e x = bf_set 0 1 e x"
definition pte_set_rw :: "PTE \<Rightarrow> u32 \<Rightarrow> PTE" where "pte_set_rw e x = bf_set 1 1 e x"
definition pte_set_us :: "PTE \<Rightarrow> u32 \<Rightarrow> PTE" where "pte_set_us e x = bf_set 2 1 e x"
definition pte_set_frame :: "PTE \<Rightarrow> u32 \<Rightarrow> PTE" where "pte_set_frame e x = bf_set 12 20 e x"
definition pte_frame :: "PTE \<Rightarrow> u32" where "pte_frame e = bf_get 12 20 e"

section \<open>The page walk\<close>

text \<open>What the processor does with the tables when paging is on (32-bit paging, 4 KB
  pages, supervisor access): the frame of a linear address, or no translation.\<close>

definition translate :: "mem \<Rightarrow> u32 \<Rightarrow> u32 \<Rightarrow> u32 option" where
  "translate m cr3 la =
     (let pde = load32 m (PTE_ADDR cr3 + 4 * PDX la) in
      if pde AND PTE_P = 0 then None
      else (let pte = load32 m (PTE_ADDR pde + 4 * PTX la) in
            if pte AND PTE_P = 0 then None else Some (PTE_ADDR pte OR PGOFF la)))"

lemma masks: "(0x3FF :: u32) = mask 10" "(0xFFF :: u32) = mask 12"
  by (simp_all add: mask_eq_exp_minus_1)

lemma la_macros:
  "la_dir_idx la = PDX la" "la_tab_idx la = PTX la" "la_offset la = PGOFF la" "la_frame la = PGNUM la"
proof -
  show "la_dir_idx la = PDX la"
    by (simp add: la_dir_idx_def PDX_def PDXSHIFT_def bf_get_def masks)
  show "la_tab_idx la = PTX la"
    by (simp add: la_tab_idx_def PTX_def PTXSHIFT_def bf_get_def masks)
  show "la_offset la = PGOFF la"
    by (simp add: la_offset_def PGOFF_def bf_get_def masks)
  show "la_frame la = PGNUM la"
    by (rule bit_word_eqI)
      (auto simp: la_frame_def PGNUM_def PTXSHIFT_def bit_bf_get bit_simps dest: bit_imp_le_length)
qed

lemma unat_PDX: "unat (PDX la) = unat la div 4194304"
proof -
  have "unat (PDX la) = unat la div 4194304 mod 1024"
    unfolding PDX_def PDXSHIFT_def masks unat_and_mask32 unat_drop_bit32 by simp
  also have "\<dots> = unat la div 4194304" using unat_lt32 [of la] by (intro mod_less) linarith
  finally show ?thesis .
qed

lemma unat_PTX: "unat (PTX la) = unat la div 4096 mod 1024"
  unfolding PTX_def PTXSHIFT_def masks unat_and_mask32 unat_drop_bit32 by simp

lemma unat_PGOFF: "unat (PGOFF la) = unat la mod 4096"
  unfolding PGOFF_def masks unat_and_mask32 by simp

lemma unat_PGNUM: "unat (PGNUM la) = unat la div 4096"
  unfolding PGNUM_def PTXSHIFT_def unat_drop_bit32 by simp

text \<open>Bumping the frame field is adding a page, also where the field wraps.\<close>

lemma unat_la_set_frame: "unat (la_set_frame v x) = unat v mod 4096 + unat x mod 1048576 * 4096"
proof -
  have "la_set_frame v x = (v AND mask 12) OR push_bit 12 (x AND mask 20)"
    by (rule bit_word_eqI) (auto simp: la_set_frame_def bit_bf_set bit_simps)
  also have "\<dots> = (v AND mask 12) + push_bit 12 (x AND mask 20)"
    by (rule disjunctive_add_eq_or [symmetric]) (rule bit_word_eqI, auto simp: bit_simps)
  moreover have "unat (v AND mask 12) = unat v mod 4096"
    unfolding unat_and_mask32 by simp
  moreover have "unat x mod 1048576 * 4096 < 4294967296"
    using mod_less_divisor [of 1048576 "unat x"] by linarith
  then have "unat (push_bit 12 (x AND mask 20)) = unat x mod 1048576 * 4096"
    unfolding unat_push_bit32 unat_and_mask32 by simp
  moreover have "unat v mod 4096 + unat x mod 1048576 * 4096 < 4294967296"
    using mod_less_divisor [of 1048576 "unat x"] mod_less_divisor [of 4096 "unat v"] by linarith
  ultimately show ?thesis by (simp add: unat_add_word)
qed

lemma la_next_frame: "la_set_frame v (la_frame v + 1) = v + 4096"
proof -
  have f: "unat (la_frame v) = unat v div 4096" by (simp add: la_macros unat_PGNUM)
  then have "unat (la_frame v) + 1 < 4294967296" using unat_lt32 [of v] by linarith
  then have "unat (la_frame v + 1) = unat v div 4096 + 1" using f by (simp add: unat_add_word)
  then have "unat (la_set_frame v (la_frame v + 1)) = unat v mod 4096 + (unat v div 4096 + 1) mod 1048576 * 4096"
    by (simp add: unat_la_set_frame)
  also have "\<dots> = unat (v + 4096)"
  proof (cases "unat v div 4096 + 1 < 1048576")
    case True
    then have "unat v + 4096 < 4294967296" by linarith
    then have "unat (v + 4096) = unat v + 4096" by (simp add: unat_add_word)
    with True show ?thesis using div_mult_mod_eq [of "unat v" 4096] by simp
  next
    case False
    then have top: "unat v div 4096 = 1048575" using unat_lt32 [of v] by linarith
    then have "unat v = 4294963200 + unat v mod 4096" using div_mult_mod_eq [of "unat v" 4096] by linarith
    moreover from this have "unat (v + 4096) = unat v + 4096 - 4294967296" by (simp add: unat_add_word)
    ultimately show ?thesis using top by simp
  qed
  finally show ?thesis by (simp add: word_unat_eq_iff)
qed

section \<open>Page table entries\<close>

definition entry :: "PTE \<Rightarrow> u32 \<Rightarrow> PTE" where
  "entry e fr = pte_set_frame (pte_set_us (pte_set_rw (pte_set_p e 1) 1) 1) fr"

text \<open>An entry that lets user mode in and lets it write.\<close>

definition open_entry :: "PTE \<Rightarrow> bool" where
  "open_entry e \<longleftrightarrow> e AND PTE_W \<noteq> 0 \<and> e AND PTE_U \<noteq> 0"

lemma entry_open: "open_entry (entry e fr)"
proof -
  have "bit (entry e fr AND PTE_W) 1" "bit (entry e fr AND PTE_U) 2"
    by (simp_all add: entry_def pte_set_frame_def pte_set_us_def pte_set_rw_def pte_set_p_def
      PTE_W_def PTE_U_def bit_bf_set bit_simps)
  then show ?thesis by (auto simp: open_entry_def)
qed

lemma entry_present: "entry e fr AND PTE_P \<noteq> 0"
proof -
  have "bit (entry e fr AND PTE_P) 0"
    by (simp add: entry_def pte_set_frame_def pte_set_us_def pte_set_rw_def pte_set_p_def
      PTE_P_def bit_bf_set bit_simps)
  then show ?thesis by auto
qed

lemma entry_addr: "PTE_ADDR (entry e (la_frame v)) = PTE_ADDR v"
  by (rule bit_word_eqI)
    (auto simp: entry_def pte_set_frame_def PTE_ADDR_def masks la_frame_def bit_bf_set bit_bf_get bit_simps)

lemma unat_PTE_ADDR: "unat (PTE_ADDR v) = unat v div 4096 * 4096"
proof -
  have "PTE_ADDR v = push_bit 12 (drop_bit 12 v)"
    unfolding PTE_ADDR_def masks by (rule bit_word_eqI) (auto simp: bit_simps)
  moreover have "unat v div 4096 * 4096 < 4294967296" using unat_lt32 [of v] by linarith
  ultimately show ?thesis by (simp only: unat_push_bit32 unat_drop_bit32) simp
qed

lemma PTE_ADDR_aligned: "unat v mod 4096 = 0 \<Longrightarrow> PTE_ADDR v = v"
  using unat_PTE_ADDR [of v] div_mult_mod_eq [of "unat v" 4096] by (simp add: word_unat_eq_iff)

text \<open>The 1024 entries of a table occupy disjoint slots of its page.\<close>

lemma in_slot:
  assumes "t < 1024"
  shows "in_reg (p + 4 * of_nat t) 4 x \<longleftrightarrow> unat (x - p) div 4 = t"
proof -
  have "of_nat (4 * t) = (4 * of_nat t :: u32)" by simp
  moreover have "unat (of_nat (4 * t) :: u32) = 4 * t" using assms by (intro unat_of_nat32) simp
  ultimately have t: "unat (4 * of_nat t :: u32) = 4 * t" by simp
  have "x - (p + 4 * of_nat t) = x - p - 4 * of_nat t" by (simp add: diff_diff_eq)
  then have "unat (x - (p + 4 * of_nat t)) = (if 4 * t \<le> unat (x - p) then unat (x - p) - 4 * t
      else unat (x - p) + 4294967296 - 4 * t)"
    by (simp only: unat_diff_word [of "x - p"] t)
  then show ?thesis using assms by (simp only: in_reg_def) (auto split: if_splits)
qed

lemma in_page:
  assumes "unat p mod 4096 = 0"
  shows "in_reg p 4096 x \<longleftrightarrow> unat x div 4096 = unat p div 4096"
proof -
  have p: "unat p = unat p div 4096 * 4096" using assms div_mult_mod_eq [of "unat p" 4096] by simp
  have "unat p div 4096 < 1048576" 
    by (rule less_mult_imp_div_less) (use unat_lt32 [of p] in simp)
  then have "unat p + 4096 \<le> 4294967296" using p by linarith
  then show ?thesis using p by (auto simp: in_reg_nat)
qed

lemma linear_address_split:
  "unat la = unat (PDX la) * 4194304 + unat (PTX la) * 4096 + unat (PGOFF la)"
  unfolding unat_PDX unat_PTX unat_PGOFF
  using mod_mult2_eq [of "unat la" 4096 1024] div_mult_mod_eq [of "unat la" 4194304] by simp

text \<open>The address macros and the LinearAddr union cut a linear address in the same
  way, each part lies in its range, and PGADDR puts the parts together again.\<close>

lemma linear_address_roundtrip:
  "PGADDR (PDX la) (PTX la) (PGOFF la) = la
    \<and> unat la = unat (PDX la) * 4194304 + unat (PTX la) * 4096 + unat (PGOFF la)
    \<and> la_dir_idx la = PDX la \<and> la_tab_idx la = PTX la \<and> la_offset la = PGOFF la \<and> la_frame la = PGNUM la
    \<and> la_set_frame (PGOFF la) (la_frame la) = la"
proof (intro conjI la_macros)
  show "PGADDR (PDX la) (PTX la) (PGOFF la) = la"
  proof (rule bit_word_eqI)
    fix n :: nat
    assume "n < LENGTH(32)"
    then consider "n < 12" | "12 \<le> n" "n < 22" | "22 \<le> n" "n < 32" by fastforce
    then show "bit (PGADDR (PDX la) (PTX la) (PGOFF la)) n = bit la n"
      by cases (auto simp: PGADDR_def PDX_def PTX_def PGOFF_def PDXSHIFT_def PTXSHIFT_def masks bit_simps)
  qed
  show "unat la = unat (PDX la) * 4194304 + unat (PTX la) * 4096 + unat (PGOFF la)"
    by (rule linear_address_split)
  show "la_set_frame (PGOFF la) (la_frame la) = la"
    by (rule bit_word_eqI)
      (auto simp: la_set_frame_def la_frame_def PGOFF_def masks bit_bf_set bit_bf_get bit_simps)
qed

end
