(* ===== verification/PageMap.thy ===== *)
theory PageMap
  imports Pages MMU CMem
begin

text \<open>
  The mapping half of \<open>kernel/page.c\<close>: \<open>mm_continous_map\<close>, which builds page tables,
  and \<open>init_page\<close>, which builds the kernel page directory and turns paging on.

  The state is the page pool, the byte memory, the variable \<open>kpgdir\<close>, the control
  registers and the trace of the log macros that have been executed, each with its source
  file, function and line (\<open>KernelLog\<close> sends them to the serial port). Tables are read and
  written at their physical addresses, as the code does with paging off or with the
  tables' pages mapped to themselves.
\<close>

section \<open>The code\<close>

text \<open>An executed \<open>LOG(s)\<close> or \<open>LOG_EXPR(e)\<close> with the value of the expression.\<close>

datatype log_call =
    LogLine string string u32 string
  | LogExpr string string u32 string u32

record kstate =
  kpages :: pages
  kmem :: mem
  kpgdir :: u32
  cr0 :: u32
  cr3 :: u32
  klog :: "log_call list"

definition log_line :: "string \<Rightarrow> string \<Rightarrow> u32 \<Rightarrow> string \<Rightarrow> kstate \<Rightarrow> kstate" where
  "log_line fl fn line s ks = ks\<lparr>klog := klog ks @ [LogLine fl fn line s]\<rparr>"

definition log_expr :: "string \<Rightarrow> string \<Rightarrow> u32 \<Rightarrow> string \<Rightarrow> u32 \<Rightarrow> kstate \<Rightarrow> kstate" where
  "log_expr fl fn line e v ks = ks\<lparr>klog := klog ks @ [LogExpr fl fn line e v]\<rparr>"

definition get_kpgdir :: "kstate \<Rightarrow> u32" where
  "get_kpgdir ks = kpgdir ks"

text \<open>The four assignments that fill an entry, each a read-modify-write of the entry.\<close>

definition fill_entry :: "mem \<Rightarrow> u32 \<Rightarrow> u32 \<Rightarrow> mem" where
  "fill_entry m a fr =
     (let m = store32 m a (pte_set_p (load32 m a) 1);
          m = store32 m a (pte_set_rw (load32 m a) 1);
          m = store32 m a (pte_set_us (load32 m a) 1);
          m = store32 m a (pte_set_frame (load32 m a) fr)
      in m)"

text \<open>The inner loop fills the page table at \<open>pgtab\<close>. It returns the linear address whose
  frame goes into the next entry.\<close>

function tab_loop :: "u32 \<Rightarrow> u32 \<Rightarrow> nat \<Rightarrow> LinearAddr \<Rightarrow> LinearAddr \<Rightarrow> mem \<Rightarrow> LinearAddr \<times> mem" where
  "tab_loop pgtab map_end tab_idx pg_addr vaddr m =
     (if tab_idx < NPTENTRIES \<and> pg_addr < map_end then
        (let m = fill_entry m (pgtab + 4 * of_nat tab_idx) (la_frame vaddr);
             vaddr = la_set_frame vaddr (la_frame vaddr + 1);
             pg_addr = la_set_frame pg_addr (la_frame pg_addr + 1)
         in tab_loop pgtab map_end (Suc tab_idx) pg_addr vaddr m)
      else (vaddr, m))"
  by pat_completeness auto
termination
  by (relation "measure (\<lambda>(pgtab, map_end, tab_idx, pg_addr, vaddr, m). NPTENTRIES - tab_idx)") auto

text \<open>The initialiser \<open>{ .dir_idx = dir_idx, .tab_idx = 0, .frame = 0 }\<close>: the last member
  covers the bits of the first two.\<close>

definition pg_addr_init :: "u32 \<Rightarrow> LinearAddr" where
  "pg_addr_init dir_idx = la_set_frame (la_set_tab_idx (la_set_dir_idx 0 dir_idx) 0) 0"

text \<open>One round of the outer loop: allocate and clear a page table, fill it, enter it in the
  directory.\<close>

definition map_dir :: "u32 \<Rightarrow> u32 \<Rightarrow> nat \<Rightarrow> LinearAddr \<Rightarrow> kstate \<Rightarrow> (kstate, LinearAddr \<times> kstate) attempt" where
  "map_dir pgdir map_end dir_idx vaddr ks =
     (case alloc_page (kpages ks) of
        Inl e \<Rightarrow> Inl (e, ks)
      | Inr (fr, ps) \<Rightarrow>
          (let pgtab_addr = la_set_frame 0 fr;
               pgtab = pgtab_addr;
               m = memset (kmem ks) pgtab 0 (of_nat NPTENTRIES * 4);
               pg_addr = pg_addr_init (of_nat dir_idx);
               (vaddr, m) = tab_loop pgtab map_end (unat (la_tab_idx pg_addr)) pg_addr vaddr m;
               m = fill_entry m (pgdir + 4 * of_nat dir_idx) (la_frame pgtab_addr)
           in Inr (vaddr, ks\<lparr>kpages := ps, kmem := m\<rparr>)))"

function dir_loop :: "u32 \<Rightarrow> u32 \<Rightarrow> nat \<Rightarrow> nat \<Rightarrow> LinearAddr \<Rightarrow> kstate \<Rightarrow> (kstate, kstate) attempt" where
  "dir_loop pgdir map_end dir_end dir_idx vaddr ks =
     (if dir_idx \<le> dir_end then
        (case map_dir pgdir map_end dir_idx vaddr ks of
           Inl e \<Rightarrow> Inl e
         | Inr (vaddr, ks) \<Rightarrow> dir_loop pgdir map_end dir_end (Suc dir_idx) vaddr ks)
      else Inr ks)"
  by pat_completeness auto
termination
  by (relation "measure (\<lambda>(pgdir, map_end, dir_end, dir_idx, vaddr, ks). Suc dir_end - dir_idx)") auto

declare tab_loop.simps [simp del] dir_loop.simps [simp del]

definition mm_continous_map :: "u32 \<Rightarrow> u32 \<Rightarrow> u32 \<Rightarrow> u32 \<Rightarrow> kstate \<Rightarrow> (kstate, kstate) attempt" where
  "mm_continous_map pgdir paddr_beg vaddr_beg sz ks =
     (let paddr_beg = roundup paddr_beg;
          vaddr_beg = roundup vaddr_beg;
          paddr_end = rounddown (paddr_beg + sz);
          map_beg = paddr_beg;
          map_end = paddr_end;
          vaddr = vaddr_beg;
          ks = log_expr ''kernel/page.c'' ''mm_continous_map'' 118 ''map_beg.val'' map_beg ks;
          ks = log_expr ''kernel/page.c'' ''mm_continous_map'' 119 ''map_beg.dir_idx'' (la_dir_idx map_beg) ks;
          ks = log_expr ''kernel/page.c'' ''mm_continous_map'' 121 ''map_end.val'' map_end ks;
          ks = log_expr ''kernel/page.c'' ''mm_continous_map'' 122 ''map_end.dir_idx'' (la_dir_idx map_end) ks
      in dir_loop pgdir map_end (unat (la_dir_idx map_end)) (unat (la_dir_idx map_beg)) vaddr ks)"

text \<open>The linker symbols are parameters.\<close>

definition init_page :: "u32 \<Rightarrow> u32 \<Rightarrow> u32 \<Rightarrow> kstate \<Rightarrow> (kstate, kstate) attempt" where
  "init_page kstart ketext kend ks =
     (let ks = log_expr ''kernel/page.c'' ''init_page'' 61 ''start'' kstart ks;
          ks = log_expr ''kernel/page.c'' ''init_page'' 62 ''etext'' ketext ks;
          ks = log_expr ''kernel/page.c'' ''init_page'' 63 ''end'' kend ks;
          phy_kernerl = roundup kend;
          ks = log_expr ''kernel/page.c'' ''init_page'' 67 ''phy_kernerl'' phy_kernerl ks;
          ks = log_expr ''kernel/page.c'' ''init_page'' 68 ''nr_kernel_page'' (phy_kernerl div PG_SIZE) ks
      in case init_pool kend (kpages ks) of
           Inl e \<Rightarrow> Inl (e, ks)
         | Inr ps \<Rightarrow>
             (case alloc_page ps of
                Inl e \<Rightarrow> Inl (e, ks\<lparr>kpages := ps\<rparr>)
              | Inr (fr, ps) \<Rightarrow>
                  (let pgdir = push_bit PG_SIZE_LOG2 fr;
                       ks = ks\<lparr>kpages := ps, kpgdir := pgdir,
                               kmem := memset (kmem ks) pgdir 0 (of_nat NPDENTRIES * 4)\<rparr>
                   in case mm_continous_map pgdir 0 0 kend ks of
                        Inl e \<Rightarrow> Inl e
                      | Inr ks \<Rightarrow>
                          (let ks = ks\<lparr>cr3 := kpgdir ks\<rparr>
                           in Inr (ks\<lparr>cr0 := cr0 ks OR CR0_PG\<rparr>)))))"

section \<open>Filling one table\<close>

lemma store32_twice: "store32 (store32 m a v) a w = store32 m a w"
  by (rule ext) (simp add: store32_apply)

lemma fill_entry_eq: "fill_entry m a fr = store32 m a (entry (load32 m a) fr)"
  by (simp add: fill_entry_def entry_def Let_def load32_store32_same store32_twice)

definition slot :: "u32 \<Rightarrow> nat \<Rightarrow> u32" where
  "slot p t = p + 4 * of_nat t"

lemma load_slot_store:
  assumes "t < 1024" "u < 1024"
  shows "load32 (store32 m (slot p u) v) (slot p t) = (if t = u then v else load32 m (slot p t))"
  using assms by (auto simp: slot_def load32_store32_same in_slot intro!: load32_store32_other)

lemma slot_in_page:
  assumes "t < 1024" "in_reg (slot p t) 4 x"
  shows "in_reg p 4096 x"
proof -
  have "unat (x - p) div 4 = t" using assms in_slot [of t p x] by (simp add: slot_def)
  then have "unat (x - p) < 4096" using assms(1) by linarith
  then show ?thesis by (simp add: in_reg_def)
qed

lemma store_slot_outside: "t < 1024 \<Longrightarrow> \<not> in_reg p 4096 x \<Longrightarrow> store32 m (slot p t) v x = m x"
  using slot_in_page [of t p x] by (auto simp: store32_apply)

text \<open>The number of entries the inner loop fills when it starts at the first one.\<close>

definition tab_count :: "u32 \<Rightarrow> nat" where
  "tab_count map_end = min NPTENTRIES ((unat map_end + 4095) div 4096)"

lemma tab_count_le: "tab_count map_end \<le> 1024"
  by (simp add: tab_count_def NPTENTRIES_def)

lemma tab_guard:
  assumes "i \<le> 1024"
  shows "i < NPTENTRIES \<and> (of_nat (4096 * i) :: u32) < map_end \<longleftrightarrow> i < tab_count map_end"
proof -
  have "unat (of_nat (4096 * i) :: u32) = 4096 * i" using assms by (intro unat_of_nat32) simp
  then have "(of_nat (4096 * i) :: u32) < map_end \<longleftrightarrow> 4096 * i < unat map_end"
    by (simp only: word_less_nat_alt)
  also have "\<dots> \<longleftrightarrow> i < (unat map_end + 4095) div 4096" by linarith
  finally show ?thesis by (simp only: tab_count_def min_less_iff_conj)
qed

lemma tab_loop_spec:
  "i \<le> tab_count map_end \<Longrightarrow>
   \<exists>m'. tab_loop p map_end i (of_nat (4096 * i)) v m = (v + of_nat (4096 * (tab_count map_end - i)), m')
     \<and> (\<forall>t < 1024. load32 m' (slot p t)
          = (if i \<le> t \<and> t < tab_count map_end
             then entry (load32 m (slot p t)) (la_frame (v + of_nat (4096 * (t - i))))
             else load32 m (slot p t)))
     \<and> (\<forall>x. in_reg p 4096 x \<or> m' x = m x)"
proof (induction "tab_count map_end - i" arbitrary: i v m)
  case 0
  then have "\<not> i < tab_count map_end" "i \<le> 1024" using tab_count_le [of map_end] by simp_all
  then have "\<not> (i < NPTENTRIES \<and> (of_nat (4096 * i) :: u32) < map_end)" by (simp only: tab_guard) simp
  then show ?case using 0 by (subst tab_loop.simps) auto
next
  case (Suc k)
  then have lt: "i < tab_count map_end" by simp
  then have i: "i < 1024" using tab_count_le [of map_end] by simp
  then have guard: "i < NPTENTRIES \<and> (of_nat (4096 * i) :: u32) < map_end" using lt i by (simp only: tab_guard less_imp_le)
  let ?m1 = "fill_entry m (slot p i) (la_frame v)"
  have m1: "load32 ?m1 (slot p t) = (if t = i then entry (load32 m (slot p t)) (la_frame v) else load32 m (slot p t))"
    if "t < 1024" for t
    using that i by (simp add: fill_entry_eq load_slot_store)
  have out1: "?m1 x = m x" if "\<not> in_reg p 4096 x" for x
    using that i by (simp add: fill_entry_eq store_slot_outside)
  have next_pg: "la_set_frame (of_nat (4096 * i)) (la_frame (of_nat (4096 * i)) + 1) = of_nat (4096 * Suc i)"
    unfolding la_next_frame by simp
  have hyp: "k = tab_count map_end - Suc i" "Suc i \<le> tab_count map_end"
    using Suc.hyps(2) lt by simp_all
  from Suc.hyps(1) [OF hyp, of "v + 4096" ?m1]
  obtain m' where m': "tab_loop p map_end (Suc i) (of_nat (4096 * Suc i)) (v + 4096) ?m1
        = (v + 4096 + of_nat (4096 * (tab_count map_end - Suc i)), m')"
    and ent: "\<forall>t < 1024. load32 m' (slot p t)
          = (if Suc i \<le> t \<and> t < tab_count map_end
             then entry (load32 ?m1 (slot p t)) (la_frame (v + 4096 + of_nat (4096 * (t - Suc i))))
             else load32 ?m1 (slot p t))"
    and out: "\<forall>x. in_reg p 4096 x \<or> m' x = ?m1 x"
    by blast
  have shift: "v + 4096 + of_nat (4096 * (t - Suc i)) = v + of_nat (4096 * (t - i))" if "i < t" for t
  proof -
    have "4096 * (t - i) = 4096 + 4096 * (t - Suc i)" using that by simp
    then show ?thesis by (simp only: of_nat_add) (simp add: add.assoc)
  qed
  have "tab_loop p map_end i (of_nat (4096 * i)) v m = (v + of_nat (4096 * (tab_count map_end - i)), m')"
    using m' shift [OF lt] guard next_pg
    by (subst tab_loop.simps) (simp only: Let_def if_True simp_thms la_next_frame slot_def)
  moreover have "\<forall>t < 1024. load32 m' (slot p t)
          = (if i \<le> t \<and> t < tab_count map_end
             then entry (load32 m (slot p t)) (la_frame (v + of_nat (4096 * (t - i))))
             else load32 m (slot p t))"
  proof (intro allI impI)
    fix t :: nat assume t: "t < 1024"
    consider "t = i" | "i < t" | "t < i" by linarith
    then show "load32 m' (slot p t)
          = (if i \<le> t \<and> t < tab_count map_end
             then entry (load32 m (slot p t)) (la_frame (v + of_nat (4096 * (t - i))))
             else load32 m (slot p t))"
      by cases (use ent t m1 lt shift in auto)
  qed
  moreover have "\<forall>x. in_reg p 4096 x \<or> m' x = m x" using out out1 by metis
  ultimately show ?case by blast
qed

section \<open>Adding one table to a directory\<close>

lemma load_slot_cong:
  "(\<And>a. in_reg p 4096 a \<Longrightarrow> m a = m' a) \<Longrightarrow> t < 1024 \<Longrightarrow> load32 m (slot p t) = load32 m' (slot p t)"
  by (rule load32_cong) (auto dest: slot_in_page)

lemma load_slot_zero: "(\<And>a. in_reg p 4096 a \<Longrightarrow> m a = 0) \<Longrightarrow> t < 1024 \<Longrightarrow> load32 m (slot p t) = 0"
  using load_slot_cong [of p m "\<lambda>_. 0" t] by (simp add: load32_def)

lemma unat_PTX_less: "unat (PTX la) < 1024"
  by (simp add: unat_PTX)

lemma unat_PDX_less: "unat (PDX la) < 1024"
  unfolding unat_PDX by (rule less_mult_imp_div_less) (use unat_lt32 [of la] in simp)

lemma translate_slots:
  assumes "unat pgdir mod 4096 = 0"
  shows "translate m pgdir la =
     (let pde = load32 m (slot pgdir (unat (PDX la))) in
      if pde AND PTE_P = 0 then None
      else (let pte = load32 m (slot (PTE_ADDR pde) (unat (PTX la))) in
            if pte AND PTE_P = 0 then None else Some (PTE_ADDR pte OR PGOFF la)))"
  by (simp add: translate_def slot_def Let_def PTE_ADDR_aligned [OF assms])

text \<open>A well-formed directory: page-aligned, and neither its page nor any table it refers to
  is free; its tables lie outside its own page; and every present entry, of the directory and
  of its tables, is open to user mode and to writing.\<close>

definition table_open :: "mem \<Rightarrow> u32 \<Rightarrow> bool" where
  "table_open m p \<longleftrightarrow> (\<forall>t < 1024. load32 m (slot p t) AND PTE_P = 0 \<or> open_entry (load32 m (slot p t)))"

definition tables_ok :: "mem \<Rightarrow> u32 \<Rightarrow> nat list \<Rightarrow> bool" where
  "tables_ok m pgdir fs \<longleftrightarrow> unat pgdir mod 4096 = 0 \<and> unat pgdir div 4096 \<notin> set fs
     \<and> (\<forall>d < 1024. load32 m (slot pgdir d) AND PTE_P \<noteq> 0 \<longrightarrow>
          unat (load32 m (slot pgdir d)) div 4096 \<notin> insert (unat pgdir div 4096) (set fs)
          \<and> open_entry (load32 m (slot pgdir d)) \<and> table_open m (PTE_ADDR (load32 m (slot pgdir d))))"

text \<open>The effect of one round, on the memory alone: a fresh table \<open>T\<close> is filled and entered
  at index \<open>d\<close> of the directory.\<close>

lemma add_table_reads:
  fixes T pgdir :: u32
  assumes al: "unat pgdir mod 4096 = 0" and T: "unat T = x * 4096" and ne: "unat pgdir div 4096 \<noteq> x" and d: "d < 1024"
    and kept: "\<forall>a. in_reg T 4096 a \<or> m1 a = m a"
    and m2: "m2 = fill_entry m1 (slot pgdir d) (la_frame T)"
  shows "t < 1024 \<Longrightarrow> load32 m2 (slot pgdir t)
      = (if t = d then entry (load32 m (slot pgdir d)) (la_frame T) else load32 m (slot pgdir t))"
    and "t < 1024 \<Longrightarrow> load32 m2 (slot T t) = load32 m1 (slot T t)"
    and "t < 1024 \<Longrightarrow> unat p mod 4096 = 0 \<Longrightarrow> unat p div 4096 \<noteq> x \<Longrightarrow> unat p div 4096 \<noteq> unat pgdir div 4096 \<Longrightarrow>
      load32 m2 (slot p t) = load32 m (slot p t)"
    and "unat a div 4096 \<in> {x, unat pgdir div 4096} \<or> m2 a = m a"
proof -
  have alT: "unat T mod 4096 = 0" using T by simp
  have out: "m1 a = m a" if "\<not> in_reg T 4096 a" for a using kept that by blast
  have page: "in_reg T 4096 a \<longleftrightarrow> unat a div 4096 = x"
    "in_reg pgdir 4096 a \<longleftrightarrow> unat a div 4096 = unat pgdir div 4096" for a
    using in_page [OF al] in_page [OF alT] T by simp_all
  have m2_out: "m2 a = m1 a" if "\<not> in_reg pgdir 4096 a" for a
    using that d by (simp add: m2 fill_entry_eq store_slot_outside)
  have dir_old: "load32 m1 (slot pgdir t) = load32 m (slot pgdir t)" if "t < 1024" for t
    using that out page ne by (intro load_slot_cong) auto
  show "load32 m2 (slot pgdir t)
      = (if t = d then entry (load32 m (slot pgdir d)) (la_frame T) else load32 m (slot pgdir t))" if "t < 1024"
    using that d dir_old by (simp add: m2 fill_entry_eq load_slot_store)
  show "load32 m2 (slot T t) = load32 m1 (slot T t)" if "t < 1024"
    using that m2_out page ne by (intro load_slot_cong) auto
  show "load32 m2 (slot p t) = load32 m (slot p t)"
    if "t < 1024" "unat p mod 4096 = 0" "unat p div 4096 \<noteq> x" "unat p div 4096 \<noteq> unat pgdir div 4096"
    using that m2_out out page in_page [OF that(2)] by (intro load_slot_cong) auto
  show "unat a div 4096 \<in> {x, unat pgdir div 4096} \<or> m2 a = m a"
    using m2_out out page by (metis insert_iff)
qed

lemma add_table_ok:
  fixes T pgdir :: u32
  assumes ok: "tables_ok m pgdir (x # xs)" and d: "d < 1024"
    and T: "unat T = x * 4096" and dist: "x \<notin> set xs"
    and tab: "\<And>t. t < 1024 \<Longrightarrow> load32 m1 (slot T t)
        = (if t < N then entry 0 (la_frame (v + of_nat (4096 * t))) else 0)"
    and out: "\<And>a. \<not> in_reg T 4096 a \<Longrightarrow> m1 a = m a"
    and m2: "m2 = fill_entry m1 (slot pgdir d) (la_frame T)"
  shows "tables_ok m2 pgdir xs"
proof -
  have al: "unat pgdir mod 4096 = 0" "unat T mod 4096 = 0" using ok T by (simp_all add: tables_ok_def)
  have ne: "unat pgdir div 4096 \<noteq> x" using ok by (simp add: tables_ok_def)
  have "\<forall>a. in_reg T 4096 a \<or> m1 a = m a" using out by blast
  note reads = add_table_reads [OF al(1) T ne d this m2]
  have Tdir: "PTE_ADDR (entry e (la_frame T)) = T" for e
    by (simp add: entry_addr PTE_ADDR_aligned al(2))
  have open_T: "table_open m2 T"
    using reads(2) tab by (auto simp: table_open_def entry_open)
  have open_old: "table_open m2 p" if "table_open m p" "unat p mod 4096 = 0" "unat p div 4096 \<noteq> x"
      "unat p div 4096 \<noteq> unat pgdir div 4096" for p
    using that(1) reads(3) [OF _ that(2-4)] by (simp add: table_open_def)
  show ?thesis
    unfolding tables_ok_def
  proof (intro conjI allI impI)
    fix t assume t: "t < 1024" and p: "load32 m2 (slot pgdir t) AND PTE_P \<noteq> 0"
    let ?pde = "load32 m2 (slot pgdir t)"
    have new: "unat (entry e (la_frame T)) div 4096 = x" for e
      using arg_cong [OF Tdir [of e], of unat] T unfolding unat_PTE_ADDR by simp
    have old: "unat ?pde div 4096 \<notin> insert (unat pgdir div 4096) (set (x # xs)) \<and> open_entry ?pde \<and> table_open m (PTE_ADDR ?pde)"
      if "t \<noteq> d"
      using that ok t p reads(1) [OF t] by (simp add: tables_ok_def)
    show "unat ?pde div 4096 \<notin> insert (unat pgdir div 4096) (set xs)" "open_entry ?pde" "table_open m2 (PTE_ADDR ?pde)"
      by (cases "t = d"; use new old t reads(1) dist ne in \<open>auto simp: entry_open Tdir open_T unat_PTE_ADDR intro!: open_old\<close>)+
  qed (use ok in \<open>auto simp: tables_ok_def\<close>)
qed

lemma add_table_translate:
  fixes T pgdir :: u32
  assumes ok: "tables_ok m pgdir (x # xs)" and d: "d < 1024"
    and T: "unat T = x * 4096" and dist: "x \<notin> set xs"
    and tab: "\<And>t. t < 1024 \<Longrightarrow> load32 m1 (slot T t)
        = (if t < N then entry 0 (la_frame (v + of_nat (4096 * t))) else 0)"
    and out: "\<And>a. \<not> in_reg T 4096 a \<Longrightarrow> m1 a = m a"
    and m2: "m2 = fill_entry m1 (slot pgdir d) (la_frame T)"
  shows "tables_ok m2 pgdir xs
    \<and> (\<forall>la. translate m2 pgdir la =
        (if unat (PDX la) = d
         then (if unat (PTX la) < N then Some (PTE_ADDR (v + of_nat (4096 * unat (PTX la))) OR PGOFF la) else None)
         else translate m pgdir la))
    \<and> (\<forall>a. unat a div 4096 \<in> {x, unat pgdir div 4096} \<or> m2 a = m a)"
proof (intro conjI allI)
  have al: "unat pgdir mod 4096 = 0" "unat T mod 4096 = 0" using ok T by (simp_all add: tables_ok_def)
  have ne: "unat pgdir div 4096 \<noteq> x" using ok by (simp add: tables_ok_def)
  have "\<forall>a. in_reg T 4096 a \<or> m1 a = m a" using out by blast
  note reads = add_table_reads [OF al(1) T ne d this m2]
  show "unat a div 4096 \<in> {x, unat pgdir div 4096} \<or> m2 a = m a" for a by (rule reads(4))
  fix la
  have D: "unat (PDX la) < 1024" and P: "unat (PTX la) < 1024" by (rule unat_PDX_less, rule unat_PTX_less)
  show "translate m2 pgdir la =
      (if unat (PDX la) = d
       then (if unat (PTX la) < N then Some (PTE_ADDR (v + of_nat (4096 * unat (PTX la))) OR PGOFF la) else None)
       else translate m pgdir la)"
  proof (cases "unat (PDX la) = d")
    case True
    then show ?thesis
      using reads(1) [OF D] reads(2) [OF P] tab [OF P]
      by (simp add: translate_slots [OF al(1)] Let_def entry_present entry_addr PTE_ADDR_aligned al)
  next
    case False
    let ?pde = "load32 m (slot pgdir (unat (PDX la)))"
    have "load32 m2 (slot (PTE_ADDR ?pde) (unat (PTX la))) = load32 m (slot (PTE_ADDR ?pde) (unat (PTX la)))"
      if "?pde AND PTE_P \<noteq> 0"
      using that ok D by (intro reads(3) P) (auto simp: tables_ok_def unat_PTE_ADDR)
    then show ?thesis
      using False reads(1) [OF D] by (simp add: translate_slots [OF al(1)] Let_def)
  qed
qed (rule add_table_ok [OF ok d T dist tab out m2])

lemma unat_table_addr:
  "x < NR_PAGES \<Longrightarrow> unat (la_set_frame 0 (of_nat x)) = x * 4096"
  by (simp add: unat_la_set_frame NR_PAGES_def unat_of_nat32)

lemma pg_addr_init_0: "pg_addr_init d = 0"
  by (rule bit_word_eqI)
    (auto simp: pg_addr_init_def la_set_frame_def la_set_tab_idx_def la_set_dir_idx_def bit_bf_set)

lemma map_dir_spec:
  fixes v :: u32
  assumes inv: "pages_inv (kpages ks) (x # xs)" and ok: "tables_ok (kmem ks) pgdir (x # xs)" and d: "d < 1024"
  shows "\<exists>ps m2. map_dir pgdir map_end d v ks
      = Inr (v + of_nat (4096 * tab_count map_end), ks\<lparr>kpages := ps, kmem := m2\<rparr>)
    \<and> pages_inv ps xs \<and> tables_ok m2 pgdir xs
    \<and> (\<forall>la. translate m2 pgdir la =
        (if unat (PDX la) = d
         then (if unat (PTX la) < tab_count map_end
               then Some (PTE_ADDR (v + of_nat (4096 * unat (PTX la))) OR PGOFF la) else None)
         else translate (kmem ks) pgdir la))
    \<and> (\<forall>a. unat a div 4096 \<in> {x, unat pgdir div 4096} \<or> m2 a = kmem ks a)"
proof -
  let ?T = "la_set_frame 0 (of_nat x)" and ?N = "tab_count map_end"
  let ?m0 = "memset (kmem ks) ?T 0 (of_nat NPTENTRIES * 4)"
  obtain ps where ps: "alloc_page (kpages ks) = Inr (of_nat x, ps)" "pages_inv ps xs"
    using kernel_pages.alloc_some [OF inv] by auto
  have x: "x < NR_PAGES" "x \<notin> set xs"
    using kernel_pages.inv_bound [OF inv] kernel_pages.inv_distinct [OF inv] by auto
  have T: "unat ?T = x * 4096" by (rule unat_table_addr [OF x(1)])
  have m0: "?m0 a = (if in_reg ?T 4096 a then 0 else kmem ks a)" for a
    by (simp add: memset_apply NPTENTRIES_def)
  have idx: "unat (la_tab_idx (pg_addr_init (of_nat d))) = 0" "pg_addr_init (of_nat d) = of_nat (4096 * 0)"
    by (simp_all add: pg_addr_init_0 la_tab_idx_def bf_get_def)
  obtain m1 where loop: "tab_loop ?T map_end 0 (of_nat (4096 * 0)) v ?m0 = (v + of_nat (4096 * (?N - 0)), m1)"
    and ent: "\<forall>t < 1024. load32 m1 (slot ?T t)
          = (if 0 \<le> t \<and> t < ?N
             then entry (load32 ?m0 (slot ?T t)) (la_frame (v + of_nat (4096 * (t - 0))))
             else load32 ?m0 (slot ?T t))"
    and out: "\<forall>a. in_reg ?T 4096 a \<or> m1 a = ?m0 a"
    using tab_loop_spec [of 0 map_end ?T v ?m0] by blast
  have zero: "load32 ?m0 (slot ?T t) = 0" if "t < 1024" for t
    using that m0 by (intro load_slot_zero) auto
  let ?m2 = "fill_entry m1 (slot pgdir d) (la_frame ?T)"
  have "map_dir pgdir map_end d v ks = Inr (v + of_nat (4096 * ?N), ks\<lparr>kpages := ps, kmem := ?m2\<rparr>)"
    using loop unfolding map_dir_def ps(1) sum.case prod.case Let_def idx(1)
    unfolding idx(2) by (simp add: slot_def)
  moreover have "tables_ok ?m2 pgdir xs
    \<and> (\<forall>la. translate ?m2 pgdir la =
        (if unat (PDX la) = d
         then (if unat (PTX la) < ?N then Some (PTE_ADDR (v + of_nat (4096 * unat (PTX la))) OR PGOFF la) else None)
         else translate (kmem ks) pgdir la))
    \<and> (\<forall>a. unat a div 4096 \<in> {x, unat pgdir div 4096} \<or> ?m2 a = kmem ks a)"
    by (rule add_table_translate [OF ok d T x(2) _ _ refl]) (use ent zero out m0 in auto)
  ultimately show ?thesis using ps(2) by blast
qed

section \<open>The whole mapping\<close>

lemma map_dir_panic: "pages_inv (kpages ks) [] \<Longrightarrow> map_dir pgdir map_end d v ks = Inl (Panic no_free_page, ks)"
  by (simp add: map_dir_def alloc_page_empty)

lemma page_shift:
  assumes "Suc d \<le> k"
  shows "(v + of_nat (4096 * n) :: u32) + of_nat (4096 * ((k - Suc d) * n + t)) = v + of_nat (4096 * ((k - d) * n + t))"
proof -
  have "k - d = Suc (k - Suc d)" using assms by simp
  then have "4096 * ((k - d) * n + t) = 4096 * n + 4096 * ((k - Suc d) * n + t)"
    by (simp add: algebra_simps)
  then show ?thesis by (simp only: of_nat_add add.assoc)
qed

lemma dir_loop_spec:
  fixes v :: u32
  assumes "pages_inv (kpages ks) (xs @ ys)" and "tables_ok (kmem ks) pgdir (xs @ ys)"
    and "length xs = Suc e - d" and "e < 1024"
  shows "\<exists>ps m2. dir_loop pgdir map_end e d v ks = Inr (ks\<lparr>kpages := ps, kmem := m2\<rparr>)
    \<and> pages_inv ps ys \<and> tables_ok m2 pgdir ys
    \<and> (\<forall>la. translate m2 pgdir la =
        (if d \<le> unat (PDX la) \<and> unat (PDX la) \<le> e
         then (if unat (PTX la) < tab_count map_end
               then Some (PTE_ADDR (v + of_nat (4096 * ((unat (PDX la) - d) * tab_count map_end + unat (PTX la)))) OR PGOFF la)
               else None)
         else translate (kmem ks) pgdir la))
    \<and> (\<forall>a. unat a div 4096 \<in> insert (unat pgdir div 4096) (set xs) \<or> m2 a = kmem ks a)"
  using assms
proof (induction xs arbitrary: d v ks)
  case Nil
  then have "\<not> d \<le> e" by simp
  then show ?case
    using Nil by (subst dir_loop.simps) (intro exI [of _ "kpages ks"] exI [of _ "kmem ks"], auto)
next
  case (Cons x xs)
  let ?N = "tab_count map_end"
  from Cons.prems have le: "d \<le> e" and d: "d < 1024" and len: "length xs = Suc e - Suc d" by simp_all
  obtain ps1 m1 where step: "map_dir pgdir map_end d v ks = Inr (v + of_nat (4096 * ?N), ks\<lparr>kpages := ps1, kmem := m1\<rparr>)"
    and inv1: "pages_inv ps1 (xs @ ys)" and ok1: "tables_ok m1 pgdir (xs @ ys)"
    and tr1: "\<forall>la. translate m1 pgdir la =
        (if unat (PDX la) = d
         then (if unat (PTX la) < ?N then Some (PTE_ADDR (v + of_nat (4096 * unat (PTX la))) OR PGOFF la) else None)
         else translate (kmem ks) pgdir la)"
    and out1: "\<forall>a. unat a div 4096 \<in> {x, unat pgdir div 4096} \<or> m1 a = kmem ks a"
    using map_dir_spec [of ks x "xs @ ys" pgdir d map_end v] Cons.prems d by auto
  let ?v = "v + of_nat (4096 * ?N)" and ?ks = "ks\<lparr>kpages := ps1, kmem := m1\<rparr>"
  obtain ps2 m2 where rest: "dir_loop pgdir map_end e (Suc d) ?v ?ks = Inr (?ks\<lparr>kpages := ps2, kmem := m2\<rparr>)"
    and inv2: "pages_inv ps2 ys" and ok2: "tables_ok m2 pgdir ys"
    and tr2: "\<forall>la. translate m2 pgdir la =
        (if Suc d \<le> unat (PDX la) \<and> unat (PDX la) \<le> e
         then (if unat (PTX la) < ?N
               then Some (PTE_ADDR (?v + of_nat (4096 * ((unat (PDX la) - Suc d) * ?N + unat (PTX la)))) OR PGOFF la)
               else None)
         else translate m1 pgdir la)"
    and out2: "\<forall>a. unat a div 4096 \<in> insert (unat pgdir div 4096) (set xs) \<or> m2 a = m1 a"
    using Cons.IH [of ?ks "Suc d" ?v] inv1 ok1 len Cons.prems(4) by auto
  have "dir_loop pgdir map_end e d v ks = Inr (ks\<lparr>kpages := ps2, kmem := m2\<rparr>)"
    using le step rest by (subst dir_loop.simps) simp
  moreover have "translate m2 pgdir la =
        (if d \<le> unat (PDX la) \<and> unat (PDX la) \<le> e
         then (if unat (PTX la) < ?N
               then Some (PTE_ADDR (v + of_nat (4096 * ((unat (PDX la) - d) * ?N + unat (PTX la)))) OR PGOFF la)
               else None)
         else translate (kmem ks) pgdir la)" for la
  proof -
    consider "unat (PDX la) = d" | "Suc d \<le> unat (PDX la)" | "unat (PDX la) < d" by linarith
    then show ?thesis
    proof cases
      case 2
      show ?thesis
        using le 2 tr1 by (simp only: tr2 page_shift [OF 2]) simp
    qed (use tr1 tr2 le in auto)
  qed
  moreover have "\<forall>a. unat a div 4096 \<in> insert (unat pgdir div 4096) (set (x # xs)) \<or> m2 a = kmem ks a"
    using out1 out2 by (metis insert_iff list.simps(15) singletonD)
  ultimately show ?case using inv2 ok2 by blast
qed

text \<open>With whole tables, or in the first one, the frames follow each other without gaps, and
  the walk computes an offset.\<close>

lemma PTE_ADDR_or_PGOFF: "unat a mod 4096 = 0 \<Longrightarrow> PTE_ADDR a OR PGOFF la = a + PGOFF la"
proof -
  assume a: "unat a mod 4096 = 0"
  have "PTE_ADDR a + PGOFF la = PTE_ADDR a OR PGOFF la"
    by (rule disjunctive_add_eq_or) (rule bit_word_eqI, auto simp: PTE_ADDR_def PGOFF_def bit_simps)
  then show ?thesis using PTE_ADDR_aligned [OF a] by simp
qed

lemma aligned_plus_pages:
  fixes v :: u32
  assumes "unat v mod 4096 = 0"
  shows "unat (v + of_nat (4096 * k)) mod 4096 = 0"
proof -
  have "unat (v + of_nat (4096 * k)) = (unat v + 4096 * k mod 4294967296) mod 4294967296"
    unfolding unat_word_ariths unat_of_nat by (simp add: take_bit_eq_mod)
  moreover have "(4096 * k mod 4294967296) mod 4096 = 0"
    by (simp add: mod_mod_cancel)
  then have "(unat v + 4096 * k mod 4294967296) mod 4096 = 0"
    using assms by (simp add: mod_add_eq [symmetric, of "unat v"])
  then have "(unat v + 4096 * k mod 4294967296) mod 4294967296 mod 4096 = 0"
    by (simp add: mod_mod_cancel)
  ultimately show ?thesis by (simp only:)
qed

lemma aligned_roundup: "unat (roundup v) mod 4096 = 0"
  unfolding unat_roundup by (simp add: mod_mod_cancel)

lemma frames_offset:
  fixes v :: u32
  assumes v: "unat v mod 4096 = 0" and d: "d \<le> unat (PDX la)" and N: "N = 1024 \<or> unat (PDX la) = 0"
  shows "PTE_ADDR (v + of_nat (4096 * ((unat (PDX la) - d) * N + unat (PTX la)))) OR PGOFF la
      = v + (la - of_nat (4194304 * d))"
proof -
  let ?k = "(unat (PDX la) - d) * N + unat (PTX la)"
  have regroup: "x = a + b + c \<Longrightarrow> a + c = x - b" for x a b c :: u32 by simp
  have "(unat (PDX la) - d) * N = (unat (PDX la) - d) * 1024" using N d by auto
  then have "4096 * ?k + 4194304 * d = unat (PDX la) * 4194304 + unat (PTX la) * 4096"
    using d by (simp add: algebra_simps diff_mult_distrib)
  then have "unat la = 4096 * ?k + 4194304 * d + unat (PGOFF la)"
    using linear_address_split [of la] by linarith
  then have "la = of_nat (4096 * ?k + 4194304 * d + unat (PGOFF la))"
    by (metis of_nat_unat32)
  then have "la = of_nat (4096 * ?k) + of_nat (4194304 * d) + PGOFF la"
    by (simp only: of_nat_add of_nat_unat32)
  then have "of_nat (4096 * ?k) + PGOFF la = la - of_nat (4194304 * d)"
    by (rule regroup)
  then show ?thesis
    unfolding PTE_ADDR_or_PGOFF [OF aligned_plus_pages [OF v]] by (simp only: add.assoc)
qed

lemma tab_count_full: "E \<ge> 4194304 \<Longrightarrow> tab_count E = 1024"
proof -
  assume "E \<ge> 4194304"
  then have "4194304 \<le> unat E" by (simp add: word_le_nat_alt)
  then show ?thesis unfolding tab_count_def NPTENTRIES_def by linarith
qed

text \<open>The lines that one mapping request logs.\<close>

definition map_log :: "u32 \<Rightarrow> u32 \<Rightarrow> log_call list" where
  "map_log map_beg map_end =
     [LogExpr ''kernel/page.c'' ''mm_continous_map'' 118 ''map_beg.val'' map_beg,
      LogExpr ''kernel/page.c'' ''mm_continous_map'' 119 ''map_beg.dir_idx'' (PDX map_beg),
      LogExpr ''kernel/page.c'' ''mm_continous_map'' 121 ''map_end.val'' map_end,
      LogExpr ''kernel/page.c'' ''mm_continous_map'' 122 ''map_end.dir_idx'' (PDX map_end)]"

lemma mm_continous_map_spec:
  assumes inv: "pages_inv (kpages ks) (xs @ ys)" and ok: "tables_ok (kmem ks) pgdir (xs @ ys)"
    and beg: "map_beg = roundup p" and map_end: "map_end = rounddown (roundup p + sz)"
    and len: "length xs = Suc (unat (PDX map_end)) - unat (PDX map_beg)"
  shows "\<exists>ks'. mm_continous_map pgdir p v sz ks = Inr ks'
    \<and> kpgdir ks' = kpgdir ks \<and> cr0 ks' = cr0 ks \<and> cr3 ks' = cr3 ks
    \<and> klog ks' = klog ks @ map_log map_beg map_end
    \<and> pages_inv (kpages ks') ys \<and> tables_ok (kmem ks') pgdir ys
    \<and> (\<forall>la. translate (kmem ks') pgdir la =
        (if PDX map_beg \<le> PDX la \<and> PDX la \<le> PDX map_end
         then (if unat (PTX la) < tab_count map_end
               then Some (roundup v + (la - of_nat (4194304 * unat (PDX map_beg)))) else None)
         else translate (kmem ks) pgdir la))
    \<and> (\<forall>a. unat a div 4096 \<in> insert (unat pgdir div 4096) (set xs) \<or> kmem ks' a = kmem ks a)"
proof -
  let ?d = "unat (PDX map_beg)" and ?e = "unat (PDX map_end)" and ?N = "tab_count map_end"
  let ?ks = "log_expr ''kernel/page.c'' ''mm_continous_map'' 122 ''map_end.dir_idx'' (la_dir_idx map_end) (log_expr ''kernel/page.c'' ''mm_continous_map'' 121 ''map_end.val'' map_end
     (log_expr ''kernel/page.c'' ''mm_continous_map'' 119 ''map_beg.dir_idx'' (la_dir_idx map_beg) (log_expr ''kernel/page.c'' ''mm_continous_map'' 118 ''map_beg.val'' map_beg ks)))"
  have same: "kpages ?ks = kpages ks" "kmem ?ks = kmem ks" "kpgdir ?ks = kpgdir ks" "cr0 ?ks = cr0 ks" "cr3 ?ks = cr3 ks"
    by (simp_all add: log_expr_def)
  obtain ps m2 where run: "dir_loop pgdir map_end ?e ?d (roundup v) ?ks = Inr (?ks\<lparr>kpages := ps, kmem := m2\<rparr>)"
    and res: "pages_inv ps ys" "tables_ok m2 pgdir ys"
    and tr: "\<And>la. translate m2 pgdir la =
        (if ?d \<le> unat (PDX la) \<and> unat (PDX la) \<le> ?e
         then (if unat (PTX la) < ?N
               then Some (PTE_ADDR (roundup v + of_nat (4096 * ((unat (PDX la) - ?d) * ?N + unat (PTX la)))) OR PGOFF la)
               else None)
         else translate (kmem ks) pgdir la)"
    and out: "\<And>a. unat a div 4096 \<in> insert (unat pgdir div 4096) (set xs) \<or> m2 a = kmem ks a"
    using dir_loop_spec [OF inv [folded same(1)] ok [folded same(2)] len unat_PDX_less,
      where map_end = map_end and v = "roundup v"]
    unfolding same by blast
  have "mm_continous_map pgdir p v sz ks = Inr (?ks\<lparr>kpages := ps, kmem := m2\<rparr>)"
    using run unfolding mm_continous_map_def Let_def beg [symmetric] map_end [folded beg, symmetric] la_macros .
  moreover have "klog ?ks = klog ks @ map_log map_beg map_end"
    by (simp add: log_expr_def map_log_def la_macros)
  moreover have "translate m2 pgdir la =
        (if PDX map_beg \<le> PDX la \<and> PDX la \<le> PDX map_end
         then (if unat (PTX la) < ?N then Some (roundup v + (la - of_nat (4194304 * ?d))) else None)
         else translate (kmem ks) pgdir la)" for la
  proof (cases "?d \<le> unat (PDX la) \<and> unat (PDX la) \<le> ?e")
    case True
    have "?N = 1024 \<or> unat (PDX la) = 0"
    proof (cases "?e = 0")
      case False
      then have "4194304 \<le> map_end" by (simp add: unat_PDX word_le_nat_alt)
      then show ?thesis by (simp add: tab_count_full)
    qed (use True in simp)
    with True show ?thesis
      unfolding tr word_le_nat_alt by (simp only: frames_offset [OF aligned_roundup] if_True simp_thms)
  next
    case False
    then show ?thesis unfolding tr word_le_nat_alt by (simp only: if_False)
  qed
  ultimately show ?thesis using res out same
    by (intro exI [of _ "?ks\<lparr>kpages := ps, kmem := m2\<rparr>"]) simp
qed

section \<open>The kernel directory\<close>

text \<open>The first address behind the mapped ones, when the tables are filled for the end
  \<open>map_end\<close>: the inner loop stops at \<open>map_end\<close> only in the first directory entry.\<close>

definition mapped_limit :: "nat \<Rightarrow> nat" where
  "mapped_limit e = (if e < 4194304 then e else (e div 4194304 + 1) * 4194304)"

lemma unat_rounddown_div: "unat (rounddown a) div 4194304 = unat a div 4194304"
proof -
  have "unat a div 4096 * 4096 div (1024 * 4096) = unat a div 4096 div 1024"
    by (rule div_mult_mult2) simp
  then show ?thesis unfolding unat_rounddown div_mult2_eq [symmetric] by simp
qed

lemma roundup_0: "roundup 0 = 0"
  by (simp add: word_unat_eq_iff unat_roundup)

lemma roundup_aligned: "unat a mod 4096 = 0 \<Longrightarrow> roundup a = a"
proof -
  assume a: "unat a mod 4096 = 0"
  then have "(unat a + 4095) div 4096 = unat a div 4096" "unat a div 4096 * 4096 = unat a"
    using div_mult_mod_eq [of "unat a" 4096] by linarith+
  then show ?thesis by (simp add: word_unat_eq_iff unat_roundup)
qed

lemma nr_kernel_page_eq:
  assumes "unat kend \<le> 4294963200"
  shows "nr_kernel_page kend = (unat kend + 4095) div 4096"
proof -
  have "(unat kend + 4095) div 4096 * 4096 < 4294967296" using assms by linarith
  then have "unat (roundup kend) = (unat kend + 4095) div 4096 * 4096"
    unfolding unat_roundup by (rule mod_less)
  then show ?thesis by (simp add: nr_kernel_page_def unat_div PG_SIZE_def)
qed

lemma below_limit:
  assumes e: "unat e mod 4096 = 0"
  shows "PDX la \<le> PDX e \<and> unat (PTX la) < tab_count e \<longleftrightarrow> unat la < mapped_limit (unat e)"
proof (cases "unat e < 4194304")
  case True
  have "(unat e + 4095) div 4096 = unat e div 4096"
    using e div_mult_mod_eq [of "unat e" 4096] by linarith
  then have n: "tab_count e = unat e div 4096"
    using True unfolding tab_count_def NPTENTRIES_def by simp
  have "PDX la \<le> PDX e \<longleftrightarrow> unat la div 4194304 = 0"
    using True by (simp add: word_le_nat_alt unat_PDX)
  moreover have "unat la div 4096 mod 1024 < unat e div 4096 \<longleftrightarrow> unat la < unat e" if "unat la < 4194304"
  proof -
    have "unat e = unat e div 4096 * 4096" using e div_mult_mod_eq [of "unat e" 4096] by linarith
    then have "unat la div 4096 < unat e div 4096 \<longleftrightarrow> unat la < unat e"
      using div_less_iff_less_mult [of 4096 "unat la" "unat e div 4096"] by simp
    moreover have "unat la div 4096 < 1024" using that by linarith
    ultimately show ?thesis by simp
  qed
  ultimately show ?thesis using True unfolding n unat_PTX mapped_limit_def
    by (cases "unat la < 4194304") auto
next
  case False
  then have "4194304 \<le> e" by (simp add: word_le_nat_alt)
  then have n: "tab_count e = 1024" by (rule tab_count_full)
  have "PDX la \<le> PDX e \<longleftrightarrow> unat la < (unat e div 4194304 + 1) * 4194304"
    unfolding word_le_nat_alt unat_PDX
    using div_less_iff_less_mult [of 4194304 "unat la" "unat e div 4194304 + 1"] by (simp add: less_Suc_eq_le)
  then show ?thesis using False unat_PTX_less [of la] unfolding n mapped_limit_def by simp
qed

definition init_page_log :: "u32 \<Rightarrow> u32 \<Rightarrow> u32 \<Rightarrow> log_call list" where
  "init_page_log kstart ketext kend =
     [LogExpr ''kernel/page.c'' ''init_page'' 61 ''start'' kstart,
      LogExpr ''kernel/page.c'' ''init_page'' 62 ''etext'' ketext,
      LogExpr ''kernel/page.c'' ''init_page'' 63 ''end'' kend,
      LogExpr ''kernel/page.c'' ''init_page'' 67 ''phy_kernerl'' (roundup kend),
      LogExpr ''kernel/page.c'' ''init_page'' 68 ''nr_kernel_page'' (roundup kend div PG_SIZE)]
     @ map_log 0 (rounddown kend)"

text \<open>The part before the mapping.\<close>

lemma init_page_setup:
  fixes kend :: u32
  defines "nr \<equiv> (unat kend + 4095) div 4096"
  assumes small: "nr < NR_PAGES"
  obtains ks1 dir where
    "init_page kstart ketext kend ks = (case mm_continous_map dir 0 0 kend ks1 of
        Inl e \<Rightarrow> Inl e | Inr ks \<Rightarrow> Inr (ks\<lparr>cr3 := kpgdir ks, cr0 := cr0 ks OR CR0_PG\<rparr>))"
    and "unat dir = nr * 4096" and "kpgdir ks1 = dir" and "cr0 ks1 = cr0 ks"
    and "pages_inv (kpages ks1) [nr + 1..<NR_PAGES]" and "tables_ok (kmem ks1) dir [nr + 1..<NR_PAGES]"
    and "\<And>la. translate (kmem ks1) dir la = None" and "\<And>a. unat a div 4096 = nr \<or> kmem ks1 a = kmem ks a"
    and "klog ks1 @ map_log 0 (rounddown kend) = klog ks @ init_page_log kstart ketext kend"
proof -
  define ks0 where "ks0 = log_expr ''kernel/page.c'' ''init_page'' 68 ''nr_kernel_page'' (roundup kend div PG_SIZE)
    (log_expr ''kernel/page.c'' ''init_page'' 67 ''phy_kernerl'' (roundup kend) (log_expr ''kernel/page.c'' ''init_page'' 63 ''end'' kend
      (log_expr ''kernel/page.c'' ''init_page'' 62 ''etext'' ketext (log_expr ''kernel/page.c'' ''init_page'' 61 ''start'' kstart ks))))"
  have ks0: "kmem ks0 = kmem ks" "cr0 ks0 = cr0 ks" by (simp_all add: ks0_def log_expr_def)
  have "nr_kernel_page kend = nr" using small nr_kernel_page_eq [of kend] by (auto simp: nr_def NR_PAGES_def)
  then obtain ps where pool: "init_pool kend (kpages ks0) = Inr ps" "pages_inv ps [nr..<NR_PAGES]"
    using init_pool_inv [of kend "kpages ks0"] small by auto
  have split: "[nr..<NR_PAGES] = nr # [nr + 1..<NR_PAGES]" using small by (simp add: upt_conv_Cons)
  obtain ps1 where ps1: "alloc_page ps = Inr (of_nat nr, ps1)" "pages_inv ps1 [nr + 1..<NR_PAGES]"
    using kernel_pages.alloc_some pool(2) unfolding split by blast
  let ?dir = "push_bit PG_SIZE_LOG2 (of_nat nr) :: u32"
  have dir: "unat ?dir = nr * 4096"
    using small unfolding unat_push_bit32 PG_SIZE_LOG2_def by (simp add: unat_of_nat32 NR_PAGES_def)
  let ?m = "memset (kmem ks) ?dir 0 (of_nat NPDENTRIES * 4)"
  let ?ks1 = "ks0\<lparr>kpages := ps1, kpgdir := ?dir, kmem := ?m\<rparr>"
  have m: "?m a = (if in_reg ?dir 4096 a then 0 else kmem ks a)" for a
    by (simp add: memset_apply NPDENTRIES_def)
  have zero: "load32 ?m (slot ?dir t) = 0" if "t < 1024" for t
    using that m by (intro load_slot_zero) auto
  have same: "kpages ?ks1 = ps1" "kmem ?ks1 = ?m" "kpgdir ?ks1 = ?dir" "cr0 ?ks1 = cr0 ks"
    by (simp_all add: ks0)
  show thesis
  proof (rule that [of ?dir ?ks1])
    show "init_page kstart ketext kend ks = (case mm_continous_map ?dir 0 0 kend ?ks1 of
        Inl e \<Rightarrow> Inl e | Inr ks \<Rightarrow> Inr (ks\<lparr>cr3 := kpgdir ks, cr0 := cr0 ks OR CR0_PG\<rparr>))"
      unfolding init_page_def Let_def ks0_def [symmetric] pool(1) ps1(1) sum.case prod.case by (simp add: ks0 split: sum.split)
    show "tables_ok (kmem ?ks1) ?dir [nr + 1..<NR_PAGES]"
      unfolding same by (auto simp: tables_ok_def dir zero)
    show "translate (kmem ?ks1) ?dir la = None" for la
      unfolding same using zero [OF unat_PDX_less] by (simp add: translate_slots dir Let_def)
    show "unat a div 4096 = nr \<or> kmem ?ks1 a = kmem ks a" for a
      unfolding same using m [of a] in_page [of ?dir a] by (auto simp: dir)
    show "klog ?ks1 @ map_log 0 (rounddown kend) = klog ks @ init_page_log kstart ketext kend"
      by (simp add: ks0_def log_expr_def init_page_log_def)
  qed (use dir ps1(2) same in simp_all)
qed

lemma init_page_run:
  fixes kend :: u32
  defines "nr \<equiv> (unat kend + 4095) div 4096"
  assumes room: "nr + 2 + unat kend div 4194304 \<le> NR_PAGES"
  shows "\<exists>ks'. init_page kstart ketext kend ks = Inr ks'
    \<and> unat (kpgdir ks') = nr * 4096 \<and> cr3 ks' = kpgdir ks' \<and> cr0 ks' = cr0 ks OR CR0_PG
    \<and> pages_inv (kpages ks') [nr + 2 + unat kend div 4194304..<NR_PAGES]
    \<and> (\<forall>la. translate (kmem ks') (cr3 ks') la
        = (if unat la < mapped_limit (unat kend div 4096 * 4096) then Some la else None))
    \<and> (\<forall>a. unat a < nr * 4096 \<longrightarrow> kmem ks' a = kmem ks a)
    \<and> tables_ok (kmem ks') (kpgdir ks') [nr + 2 + unat kend div 4194304..<NR_PAGES]
    \<and> klog ks' = klog ks @ init_page_log kstart ketext kend"
proof -
  let ?n = "nr + 2 + unat kend div 4194304" and ?e = "rounddown kend"
  let ?xs = "[nr + 1..<?n]" and ?ys = "[?n..<NR_PAGES]"
  have small: "nr < NR_PAGES" using room by linarith
  obtain ks1 dir where ip: "init_page kstart ketext kend ks = (case mm_continous_map dir 0 0 kend ks1 of
        Inl e \<Rightarrow> Inl e | Inr ks \<Rightarrow> Inr (ks\<lparr>cr3 := kpgdir ks, cr0 := cr0 ks OR CR0_PG\<rparr>))"
    and dir: "unat dir = nr * 4096" "kpgdir ks1 = dir" "cr0 ks1 = cr0 ks"
    and start: "pages_inv (kpages ks1) [nr + 1..<NR_PAGES]" "tables_ok (kmem ks1) dir [nr + 1..<NR_PAGES]"
    and none: "\<And>la. translate (kmem ks1) dir la = None" and out1: "\<And>a. unat a div 4096 = nr \<or> kmem ks1 a = kmem ks a"
    and lg1: "klog ks1 @ map_log 0 ?e = klog ks @ init_page_log kstart ketext kend"
    by (rule init_page_setup [of kend kstart ketext ks, folded nr_def, OF small]) (rule that)
  have split: "[nr + 1..<NR_PAGES] = ?xs @ ?ys"
    using room by (intro upt_split) simp_all
  have len: "length ?xs = Suc (unat (PDX ?e)) - unat (PDX 0)"
    unfolding unat_PDX unat_rounddown_div length_upt by simp
  have beg: "0 = roundup 0" and fin: "?e = rounddown (roundup 0 + kend)"
    by (simp_all add: roundup_0)
  obtain ks2 where run: "mm_continous_map dir 0 0 kend ks1 = Inr ks2"
    and reg: "kpgdir ks2 = dir" "cr0 ks2 = cr0 ks" and inv: "pages_inv (kpages ks2) ?ys"
    and tr: "\<And>la. translate (kmem ks2) dir la =
        (if PDX 0 \<le> PDX la \<and> PDX la \<le> PDX ?e
         then (if unat (PTX la) < tab_count ?e then Some (roundup 0 + (la - of_nat (4194304 * unat (PDX 0)))) else None)
         else translate (kmem ks1) dir la)"
    and tok: "tables_ok (kmem ks2) dir ?ys" and lg: "klog ks2 = klog ks1 @ map_log 0 ?e"
    and out: "\<And>a. unat a div 4096 \<in> insert (unat dir div 4096) (set ?xs) \<or> kmem ks2 a = kmem ks1 a"
    using mm_continous_map_spec [OF start [unfolded split] beg fin len, of 0] unfolding dir by blast
  have "init_page kstart ketext kend ks = Inr (ks2\<lparr>cr3 := dir, cr0 := cr0 ks OR CR0_PG\<rparr>)"
    unfolding ip run using reg by simp
  moreover have "translate (kmem ks2) dir la
      = (if unat la < mapped_limit (unat kend div 4096 * 4096) then Some la else None)" for la
  proof -
    have "PDX 0 = 0" by (simp add: PDX_def)
    then show ?thesis
      using none [of la] below_limit [of ?e la] tr [of la] by (auto simp: unat_rounddown roundup_0)
  qed
  moreover have "kmem ks2 a = kmem ks a" if a: "unat a < nr * 4096" for a
  proof -
    have "unat a div 4096 < nr" using a by linarith
    then show ?thesis using out [of a] out1 [of a] by (auto simp: dir)
  qed
  ultimately show ?thesis using inv dir reg tok lg lg1
    by (intro exI [of _ "ks2\<lparr>cr3 := dir, cr0 := cr0 ks OR CR0_PG\<rparr>"]) simp
qed

text \<open>When the pool runs out: the state at the panic.\<close>

lemma dir_loop_panics:
  assumes "pages_inv (kpages ks) xs" and "tables_ok (kmem ks) pgdir xs" and "length xs < Suc e - d" and "e < 1024"
  shows "\<exists>ks'. dir_loop pgdir map_end e d v ks = Inl (Panic no_free_page, ks') \<and> klog ks' = klog ks
    \<and> (\<forall>a. unat a div 4096 \<in> insert (unat pgdir div 4096) (set xs) \<or> kmem ks' a = kmem ks a)"
  using assms
proof (induction xs arbitrary: d v ks)
  case Nil
  then show ?case by (subst dir_loop.simps) (simp add: map_dir_panic)
next
  case (Cons x xs)
  have "d < 1024" and short: "length xs < Suc e - Suc d" using Cons.prems(3,4) by simp_all
  from \<open>d < 1024\<close> obtain v' ps m where step: "map_dir pgdir map_end d v ks = Inr (v', ks\<lparr>kpages := ps, kmem := m\<rparr>)"
    and inv: "pages_inv ps xs" "tables_ok m pgdir xs"
    and out: "\<forall>a. unat a div 4096 \<in> {x, unat pgdir div 4096} \<or> m a = kmem ks a"
    using map_dir_spec [OF Cons.prems(1,2), of d map_end v] by blast
  obtain ks' where ks': "dir_loop pgdir map_end e (Suc d) v' (ks\<lparr>kpages := ps, kmem := m\<rparr>) = Inl (Panic no_free_page, ks')"
    "klog ks' = klog ks" "\<forall>a. unat a div 4096 \<in> insert (unat pgdir div 4096) (set xs) \<or> kmem ks' a = m a"
    using Cons.IH [of "ks\<lparr>kpages := ps, kmem := m\<rparr>" "Suc d" v'] Cons.prems(4) inv short by auto
  have "dir_loop pgdir map_end e d v ks = Inl (Panic no_free_page, ks')"
    using step ks'(1) Cons.prems(3) by (subst dir_loop.simps) simp
  then show ?case using ks'(2,3) out by (metis insert_iff list.simps(15) singletonD)
qed

lemma mm_continous_map_panics:
  assumes inv: "pages_inv (kpages ks) xs" and ok: "tables_ok (kmem ks) pgdir xs"
    and beg: "map_beg = roundup p" and map_end: "map_end = rounddown (roundup p + sz)"
    and len: "length xs < Suc (unat (PDX map_end)) - unat (PDX map_beg)"
  shows "\<exists>ks'. mm_continous_map pgdir p v sz ks = Inl (Panic no_free_page, ks')
    \<and> klog ks' = klog ks @ map_log map_beg map_end
    \<and> (\<forall>a. unat a div 4096 \<in> insert (unat pgdir div 4096) (set xs) \<or> kmem ks' a = kmem ks a)"
proof -
  let ?ks = "log_expr ''kernel/page.c'' ''mm_continous_map'' 122 ''map_end.dir_idx'' (la_dir_idx map_end) (log_expr ''kernel/page.c'' ''mm_continous_map'' 121 ''map_end.val'' map_end
     (log_expr ''kernel/page.c'' ''mm_continous_map'' 119 ''map_beg.dir_idx'' (la_dir_idx map_beg) (log_expr ''kernel/page.c'' ''mm_continous_map'' 118 ''map_beg.val'' map_beg ks)))"
  have same: "kpages ?ks = kpages ks" "kmem ?ks = kmem ks" by (simp_all add: log_expr_def)
  have lg: "klog ?ks = klog ks @ map_log map_beg map_end" by (simp add: log_expr_def map_log_def la_macros)
  have "mm_continous_map pgdir p v sz ks = dir_loop pgdir map_end (unat (PDX map_end)) (unat (PDX map_beg)) (roundup v) ?ks"
    unfolding mm_continous_map_def Let_def beg [symmetric] map_end [folded beg, symmetric] la_macros by (rule refl)
  with dir_loop_panics [OF inv [folded same(1)] ok [folded same(2)] len unat_PDX_less, where map_end = map_end and v = "roundup v"]
  show ?thesis unfolding lg same by simp
qed

lemma init_page_fails:
  assumes nr: "nr = (unat kend + 4095) div 4096" and fit: "unat kend \<le> 4294963200"
  shows "NR_PAGES \<le> nr \<Longrightarrow> \<exists>ks'. init_page kstart ketext kend ks = Inl (OutOfBounds, ks')
        \<and> klog ks' = klog ks @ take 5 (init_page_log kstart ketext kend) \<and> kmem ks' = kmem ks"
    and "nr < NR_PAGES \<Longrightarrow> NR_PAGES < nr + 2 + unat kend div 4194304 \<Longrightarrow>
      \<exists>ks'. init_page kstart ketext kend ks = Inl (Panic no_free_page, ks')
        \<and> klog ks' = klog ks @ init_page_log kstart ketext kend
        \<and> (\<forall>a. unat a < nr * 4096 \<longrightarrow> kmem ks' a = kmem ks a)"
proof -
  have k: "nr_kernel_page kend = nr" using fit by (simp add: nr nr_kernel_page_eq)
  show "\<exists>ks'. init_page kstart ketext kend ks = Inl (OutOfBounds, ks')
      \<and> klog ks' = klog ks @ take 5 (init_page_log kstart ketext kend) \<and> kmem ks' = kmem ks" if "NR_PAGES \<le> nr"
    using that by (simp add: init_page_def Let_def init_pool_def k log_expr_def init_page_log_def)
  assume small: "nr < NR_PAGES" and full: "NR_PAGES < nr + 2 + unat kend div 4194304"
  let ?e = "rounddown kend" and ?xs = "[nr + 1..<NR_PAGES]"
  obtain ks1 dir where ip: "init_page kstart ketext kend ks = (case mm_continous_map dir 0 0 kend ks1 of
        Inl e \<Rightarrow> Inl e | Inr ks \<Rightarrow> Inr (ks\<lparr>cr3 := kpgdir ks, cr0 := cr0 ks OR CR0_PG\<rparr>))"
    and dir: "unat dir = nr * 4096" "kpgdir ks1 = dir" "cr0 ks1 = cr0 ks"
    and start: "pages_inv (kpages ks1) ?xs" "tables_ok (kmem ks1) dir ?xs"
    and none: "\<And>la. translate (kmem ks1) dir la = None" and out1: "\<And>a. unat a div 4096 = nr \<or> kmem ks1 a = kmem ks a"
    and lg1: "klog ks1 @ map_log 0 ?e = klog ks @ init_page_log kstart ketext kend"
    by (rule init_page_setup [of kend kstart ketext ks, folded nr, OF small]) (rule that)
  have len: "length ?xs < Suc (unat (PDX ?e)) - unat (PDX 0)"
    using full unfolding unat_PDX unat_rounddown_div length_upt by simp
  have beg: "0 = roundup 0" and fin: "?e = rounddown (roundup 0 + kend)"
    by (simp_all add: roundup_0)
  obtain ks' where ks': "mm_continous_map dir 0 0 kend ks1 = Inl (Panic no_free_page, ks')"
    "klog ks' = klog ks1 @ map_log 0 ?e" and out: "\<And>a. unat a div 4096 \<in> insert nr (set ?xs) \<or> kmem ks' a = kmem ks1 a"
    using mm_continous_map_panics [OF start beg fin len, of 0] unfolding dir by auto
  have "kmem ks' a = kmem ks a" if "unat a < nr * 4096" for a
  proof -
    have "unat a div 4096 < nr" using that by linarith
    then show ?thesis using out [of a] out1 [of a] by auto
  qed
  then show "\<exists>ks'. init_page kstart ketext kend ks = Inl (Panic no_free_page, ks')
        \<and> klog ks' = klog ks @ init_page_log kstart ketext kend
        \<and> (\<forall>a. unat a < nr * 4096 \<longrightarrow> kmem ks' a = kmem ks a)"
    using ks' lg1 unfolding ip by simp
qed

lemma mm_map_above_4m:
  assumes inv: "pages_inv (kpages ks) (xs @ ys)" and ok: "tables_ok (kmem ks) pgdir (xs @ ys)"
    and aligned: "unat p mod 4096 = 0" "unat v mod 4096 = 0"
    and top: "unat p + unat sz < 4294967296" "4194304 \<le> unat p + unat sz"
    and len: "length xs = Suc (unat (PDX (p + sz))) - unat (PDX p)"
  shows "\<exists>ks'. mm_continous_map pgdir p v sz ks = Inr ks' \<and> kpgdir ks' = kpgdir ks
    \<and> cr0 ks' = cr0 ks \<and> cr3 ks' = cr3 ks \<and> klog ks' = klog ks @ map_log p (rounddown (p + sz))
    \<and> pages_inv (kpages ks') ys \<and> tables_ok (kmem ks') pgdir ys
    \<and> (\<forall>la. translate (kmem ks') pgdir la =
        (if PDX p \<le> PDX la \<and> PDX la \<le> PDX (p + sz)
         then Some (v + (la - p) + of_nat (unat p mod 4194304))
         else translate (kmem ks) pgdir la))
    \<and> (\<forall>a. unat a div 4096 \<in> insert (unat pgdir div 4096) (set xs) \<or> kmem ks' a = kmem ks a)"
proof -
  have up: "roundup a = a" if "unat a mod 4096 = 0" for a
    by (rule roundup_aligned [OF that])
  let ?e = "rounddown (p + sz)"
  have e: "PDX ?e = PDX (p + sz)" by (simp add: word_unat_eq_iff unat_PDX unat_rounddown_div)
  have "unat (p + sz) = unat p + unat sz" using top(1) by (simp add: unat_add_word)
  then have "4194304 \<le> ?e" using top(2) unfolding word_le_nat_alt unat_rounddown by simp
  then have n: "tab_count ?e = 1024" by (rule tab_count_full)
  have offset: "v + (la - of_nat (4194304 * unat (PDX p))) = v + (la - p) + of_nat (unat p mod 4194304)" for la
  proof -
    have "p = of_nat (4194304 * unat (PDX p) + unat p mod 4194304)"
      unfolding unat_PDX mult_div_mod_eq by simp
    then have "of_nat (4194304 * unat (PDX p)) = p - of_nat (unat p mod 4194304)"
      unfolding of_nat_add by (rule eq_diff_eq [THEN iffD2, OF sym])
    then show ?thesis by simp
  qed
  obtain ks' where "mm_continous_map pgdir p v sz ks = Inr ks'" "kpgdir ks' = kpgdir ks"
    "cr0 ks' = cr0 ks" "cr3 ks' = cr3 ks" "klog ks' = klog ks @ map_log p ?e"
    "pages_inv (kpages ks') ys" "tables_ok (kmem ks') pgdir ys"
    "\<And>la. translate (kmem ks') pgdir la =
        (if PDX p \<le> PDX la \<and> PDX la \<le> PDX ?e
         then (if unat (PTX la) < tab_count ?e
               then Some (roundup v + (la - of_nat (4194304 * unat (PDX p)))) else None)
         else translate (kmem ks) pgdir la)"
    "\<And>a. unat a div 4096 \<in> insert (unat pgdir div 4096) (set xs) \<or> kmem ks' a = kmem ks a"
    using mm_continous_map_spec [OF inv ok up [OF aligned(1), symmetric] _ len [folded e], of sz v]
    unfolding up [OF aligned(1)] by blast
  then show ?thesis
    unfolding e n offset up [OF aligned(2)] using unat_PTX_less by (intro exI [of _ ks']) simp
qed

section \<open>Properties\<close>

text \<open>C23: a mapping request for physical address \<open>p\<close>, linear address \<open>v\<close> and \<open>sz\<close> bytes that
  ends above 4 MB succeeds when the pool has a page for every directory entry it touches:
  it consumes exactly these pages, writes only the directory page and them, leaves the
  translation of every other directory entry alone, and maps \<open>la\<close> to \<open>v + (la - p)\<close> plus
  the offset of \<open>p\<close> in its 4 MB block, for all \<open>la\<close> of all touched directory entries (the
  request is indexed by \<open>p\<close> and answered with \<open>v\<close>, and whole entries are filled).\<close>

theorem mm_continous_map_maps:
  assumes inv: "pages_inv (kpages ks) (xs @ ys)" and ok: "tables_ok (kmem ks) pgdir (xs @ ys)"
    and aligned: "unat p mod 4096 = 0" "unat v mod 4096 = 0"
    and top: "unat p + unat sz < 4294967296" "4194304 \<le> unat p + unat sz"
    and len: "length xs = Suc (unat (PDX (p + sz))) - unat (PDX p)"
  shows "\<exists>ks'. mm_continous_map pgdir p v sz ks = Inr ks' \<and> kpgdir ks' = kpgdir ks
    \<and> pages_inv (kpages ks') ys \<and> tables_ok (kmem ks') pgdir ys
    \<and> (\<forall>la. translate (kmem ks') pgdir la =
        (if PDX p \<le> PDX la \<and> PDX la \<le> PDX (p + sz)
         then Some (v + (la - p) + of_nat (unat p mod 4194304))
         else translate (kmem ks) pgdir la))
    \<and> (\<forall>a. unat a div 4096 \<in> insert (unat pgdir div 4096) (set xs) \<or> kmem ks' a = kmem ks a)"
  using mm_map_above_4m [OF assms] by blast

theorem mm_continous_map_maps_witness:
  "\<exists>ks ks'. mm_continous_map 0x2000 0xFD000000 0xFD000000 0x300000 ks = Inr ks'
    \<and> translate (kmem ks') 0x2000 0xFD001234 = Some 0xFD001234"
proof -
  let ?ks = "\<lparr>kpages = \<lparr>free_page_list = Some 1000, page_pool = linked_pool 1000 1003\<rparr>,
    kmem = (\<lambda>_. 0), kpgdir = 0x2000, cr0 = 0, cr3 = 0, klog = []\<rparr>"
  have "pages_inv (kpages ?ks) ([1000] @ [1001, 1002])"
    by (simp add: pages_inv_def page_ok_def linked_pool_def NR_PAGES_def)
  moreover have "tables_ok (kmem ?ks) 0x2000 ([1000] @ [1001, 1002])"
    by (simp add: tables_ok_def load32_def)
  ultimately obtain ks' where "mm_continous_map 0x2000 0xFD000000 0xFD000000 0x300000 ?ks = Inr ks'"
    "\<forall>la. translate (kmem ks') 0x2000 la =
        (if PDX 0xFD000000 \<le> PDX la \<and> PDX la \<le> PDX (0xFD000000 + 0x300000)
         then Some (0xFD000000 + (la - 0xFD000000) + of_nat (unat (0xFD000000 :: u32) mod 4194304))
         else translate (kmem ?ks) 0x2000 la)"
    using mm_continous_map_maps [where ks = ?ks and xs = "[1000]" and ys = "[1001, 1002]" and pgdir = "0x2000"
      and p = "0xFD000000" and v = "0xFD000000" and sz = "0x300000"]
    by (auto simp: PDX_def PDXSHIFT_def)
  moreover have "PDX 0xFD000000 \<le> PDX 0xFD001234" "PDX 0xFD001234 \<le> PDX (0xFD000000 + 0x300000)"
    by (simp_all add: PDX_def PDXSHIFT_def)
  ultimately show ?thesis by (intro exI [of _ ?ks] exI [of _ ks']) simp
qed

text \<open>C5: \<open>init_page\<close> turns paging on with a directory in the first page behind the kernel
  (\<open>cr3\<close> holds it, the PG bit of \<open>cr0\<close> is set), the kernel image is left intact, the tables
  take the following pages, and every linear address is either mapped to itself or not
  mapped: the mapped ones are those below the rounded-down end of the kernel, or, once
  that passes 4 MB, all of the 4 MB blocks up to it.\<close>

theorem init_page_identity:
  assumes "nr = (unat kend + 4095) div 4096" and "nr + 2 + unat kend div 4194304 \<le> NR_PAGES"
  shows "\<exists>ks'. init_page kstart ketext kend ks = Inr ks'
    \<and> unat (kpgdir ks') = nr * 4096 \<and> cr3 ks' = kpgdir ks' \<and> cr0 ks' = cr0 ks OR CR0_PG
    \<and> pages_inv (kpages ks') [nr + 2 + unat kend div 4194304..<NR_PAGES]
    \<and> (\<forall>la. translate (kmem ks') (cr3 ks') la
        = (if unat la < mapped_limit (unat kend div 4096 * 4096) then Some la else None))
    \<and> (\<forall>a. unat a < nr * 4096 \<longrightarrow> kmem ks' a = kmem ks a)"
  using init_page_run [of kend kstart ketext ks] assms(2) unfolding assms(1) by blast

theorem init_page_identity_witness:
  "\<exists>ks'. init_page 0x100000 0x108000 0x4A1234 \<lparr>kpages = three_pages, kmem = (\<lambda>_. 7), kpgdir = 0,
       cr0 = 0x11, cr3 = 0, klog = []\<rparr> = Inr ks'
    \<and> unat (kpgdir ks') = 0x4A2000 \<and> cr0 ks' = 0x80000011
    \<and> translate (kmem ks') (cr3 ks') 0x7FFFFF = Some 0x7FFFFF
    \<and> translate (kmem ks') (cr3 ks') 0x800000 = None \<and> kmem ks' 0x4A1FFF = 7"
proof -
  have "mapped_limit (unat (0x4A1234 :: u32) div 4096 * 4096) = 0x800000"
    by (simp add: mapped_limit_def)
  with init_page_identity [where nr = "0x4A2" and kend = "0x4A1234" and kstart = "0x100000" and ketext = "0x108000"
      and ks = "\<lparr>kpages = three_pages, kmem = (\<lambda>_. 7), kpgdir = 0, cr0 = 0x11, cr3 = 0, klog = []\<rparr>"]
  show ?thesis by (auto simp: NR_PAGES_def CR0_PG_def simp del: upt_rec_numeral)
qed

text \<open>C18: the memory decides how \<open>init_page\<close> ends. It succeeds exactly when the pool has room for
  the kernel, the directory and one table for every 4 MB the kernel reaches into. A kernel that
  leaves a page but not enough of them makes the allocator panic; one that leaves none makes
  \<open>init_page\<close> write behind the end of \<open>page_pool\<close>.\<close>

theorem init_page_outcome:
  assumes "nr = (unat kend + 4095) div 4096" and "unat kend \<le> 4294963200"
  shows "case init_page kstart ketext kend ks of
      Inl (e, ks') \<Rightarrow> NR_PAGES < nr + 2 + unat kend div 4194304
        \<and> e = (if NR_PAGES \<le> nr then OutOfBounds else Panic no_free_page)
        \<and> (e = OutOfBounds \<or> klog ks' = klog ks @ init_page_log kstart ketext kend)
    | Inr ks' \<Rightarrow> nr + 2 + unat kend div 4194304 \<le> NR_PAGES"
proof (cases "nr + 2 + unat kend div 4194304 \<le> NR_PAGES")
  case True
  then show ?thesis using init_page_run [of kend kstart ketext ks] unfolding assms(1) by auto
next
  case False
  then show ?thesis using init_page_fails [OF assms, of kstart ketext ks] by (cases "NR_PAGES \<le> nr") auto
qed

theorem init_page_outcome_witness:
  "\<forall>ks. (\<exists>ks'. init_page 0x100000 0x108000 0x8000001 ks = Inl (OutOfBounds, ks'))
    \<and> (\<exists>ks'. init_page 0x100000 0x108000 0x7FE0000 ks = Inl (Panic no_free_page, ks'))
    \<and> (\<exists>ks'. init_page 0x100000 0x108000 0x7FDE000 ks = Inr ks')"
proof
  fix ks
  show "(\<exists>ks'. init_page 0x100000 0x108000 0x8000001 ks = Inl (OutOfBounds, ks'))
    \<and> (\<exists>ks'. init_page 0x100000 0x108000 0x7FE0000 ks = Inl (Panic no_free_page, ks'))
    \<and> (\<exists>ks'. init_page 0x100000 0x108000 0x7FDE000 ks = Inr ks')"
    using init_page_outcome [OF refl, where kend = "0x8000001" and kstart = "0x100000" and ketext = "0x108000" and ks = ks]
      init_page_outcome [OF refl, where kend = "0x7FE0000" and kstart = "0x100000" and ketext = "0x108000" and ks = ks]
      init_page_outcome [OF refl, where kend = "0x7FDE000" and kstart = "0x100000" and ketext = "0x108000" and ks = ks]
    by (auto simp: NR_PAGES_def split: sum.splits)
qed

text \<open>A kernel that ends below 4 MB turns paging on without mapping the page directory it
  has just built, nor the last page of its own image when that page is only partly used.\<close>

lemma init_page_small_kernel:
  assumes "unat kend < 4194304" and "unat kend mod 4096 \<noteq> 0"
  shows "\<exists>ks'. init_page kstart ketext kend ks = Inr ks' \<and> cr0 ks' = cr0 ks OR CR0_PG
    \<and> translate (kmem ks') (cr3 ks') (kpgdir ks') = None
    \<and> translate (kmem ks') (cr3 ks') (kend - 1) = None"
proof -
  let ?nr = "(unat kend + 4095) div 4096"
  have room: "?nr + 2 + unat kend div 4194304 \<le> NR_PAGES" using assms(1) unfolding NR_PAGES_def by linarith
  obtain ks' where run: "init_page kstart ketext kend ks = Inr ks'" "unat (kpgdir ks') = ?nr * 4096"
      "cr0 ks' = cr0 ks OR CR0_PG"
    and tr: "\<And>la. translate (kmem ks') (cr3 ks') la
        = (if unat la < mapped_limit (unat kend div 4096 * 4096) then Some la else None)"
    using init_page_run [OF room, of kstart ketext ks] by blast
  have lim: "mapped_limit (unat kend div 4096 * 4096) = unat kend div 4096 * 4096"
    unfolding mapped_limit_def using assms(1) by simp
  have none: "translate (kmem ks') (cr3 ks') la = None" if "unat kend div 4096 * 4096 \<le> unat la" for la
    using that unfolding tr lim by simp
  have "unat kend div 4096 * 4096 \<le> ?nr * 4096" by (simp add: div_le_mono)
  moreover have "kend \<noteq> 0" using assms(2) by auto
  then have "unat (kend - 1) = unat kend - 1" by (simp add: unat_minus_one)
  then have "unat kend div 4096 * 4096 \<le> unat (kend - 1)"
    using assms(2) div_mult_mod_eq [of "unat kend" 4096] by linarith
  ultimately show ?thesis using run by (intro exI [of _ ks']) (simp add: none)
qed

lemma init_page_small_kernel_witness:
  "\<exists>ks'. init_page 0x100000 0x108000 0x2A1234 \<lparr>kpages = three_pages, kmem = (\<lambda>_. 7), kpgdir = 0,
       cr0 = 0x11, cr3 = 0, klog = []\<rparr> = Inr ks'
    \<and> translate (kmem ks') (cr3 ks') (kpgdir ks') = None"
  using init_page_small_kernel [where kend = "0x2A1234" and kstart = "0x100000" and ketext = "0x108000"
      and ks = "\<lparr>kpages = three_pages, kmem = (\<lambda>_. 7), kpgdir = 0, cr0 = 0x11, cr3 = 0, klog = []\<rparr>"]
  by auto

end
