(* ===== verification/Segment.thy ===== *)
theory Segment
  imports MMU
begin

text \<open>
  Segmentation: the descriptor formats of \<open>inc/mmu.h\<close> and \<open>kernel/segment.c\<close> with
  \<open>kernel/segment.h\<close>. A \<open>struct Segdesc\<close> is the 64-bit word of its bytes, and a member of
  it the bit field at the position the declaration order gives it. The processor's reading
  of a descriptor (base, limit in bytes) is defined beside it, so that what the kernel
  writes is compared with what the processor sees.
\<close>

section \<open>Segment descriptors\<close>

type_synonym field = "nat \<times> nat"

definition f_get :: "field \<Rightarrow> 'a::len word \<Rightarrow> 'a word" where
  "f_get f w = bf_get (fst f) (snd f) w"

definition f_set :: "field \<Rightarrow> u32 \<Rightarrow> 'a::len word \<Rightarrow> 'a word" where
  "f_set f x w = bf_set (fst f) (snd f) w (ucast x)"

type_synonym Segdesc = u64

definition sd_lim_15_0 :: field where "sd_lim_15_0 = (0, 16)"
definition sd_base_15_0 :: field where "sd_base_15_0 = (16, 16)"
definition sd_base_23_16 :: field where "sd_base_23_16 = (32, 8)"
definition sd_type :: field where "sd_type = (40, 4)"
definition sd_s :: field where "sd_s = (44, 1)"
definition sd_dpl :: field where "sd_dpl = (45, 2)"
definition sd_p :: field where "sd_p = (47, 1)"
definition sd_lim_19_16 :: field where "sd_lim_19_16 = (48, 4)"
definition sd_avl :: field where "sd_avl = (52, 1)"
definition sd_rsv1 :: field where "sd_rsv1 = (53, 1)"
definition sd_db :: field where "sd_db = (54, 1)"
definition sd_g :: field where "sd_g = (55, 1)"
definition sd_base_31_24 :: field where "sd_base_31_24 = (56, 8)"

lemmas sd_fields = sd_lim_15_0_def sd_base_15_0_def sd_base_23_16_def sd_type_def sd_s_def sd_dpl_def
  sd_p_def sd_lim_19_16_def sd_avl_def sd_rsv1_def sd_db_def sd_g_def sd_base_31_24_def

definition STA_X :: u32 where "STA_X = 0x8"
definition STA_W :: u32 where "STA_W = 0x2"
definition STA_R :: u32 where "STA_R = 0x2"
definition STS_IG32 :: u32 where "STS_IG32 = 0xE"
definition STS_TG32 :: u32 where "STS_TG32 = 0xF"

text \<open>The initialiser macros: members in declaration order.\<close>

definition Segdesc_init :: "u32 list \<Rightarrow> Segdesc" where
  "Segdesc_init xs = fold (\<lambda>(f, x). f_set f x)
     (zip [sd_lim_15_0, sd_base_15_0, sd_base_23_16, sd_type, sd_s, sd_dpl, sd_p, sd_lim_19_16,
           sd_avl, sd_rsv1, sd_db, sd_g, sd_base_31_24] xs) 0"

definition SEG_NULL :: Segdesc where
  "SEG_NULL = Segdesc_init [0, 0, 0, 0, 0, 0, 0, 0, 0, 0, 0, 0, 0]"

definition SEG :: "u32 \<Rightarrow> u32 \<Rightarrow> u32 \<Rightarrow> u32 \<Rightarrow> Segdesc" where
  "SEG type base lim dpl = Segdesc_init
     [drop_bit 12 lim AND 0xffff, base AND 0xffff, drop_bit 16 base AND 0xff,
      type, 1, dpl, 1, drop_bit 28 lim, 0, 0, 1, 1, drop_bit 24 base]"

definition SEG16 :: "u32 \<Rightarrow> u32 \<Rightarrow> u32 \<Rightarrow> u32 \<Rightarrow> Segdesc" where
  "SEG16 type base lim dpl = Segdesc_init
     [lim AND 0xffff, base AND 0xffff, drop_bit 16 base AND 0xff,
      type, 1, dpl, 1, drop_bit 16 lim, 0, 0, 1, 0, drop_bit 24 base]"

text \<open>What the processor reads from a descriptor.\<close>

definition desc_base :: "Segdesc \<Rightarrow> u32" where
  "desc_base d = ucast (f_get sd_base_15_0 d) OR push_bit 16 (ucast (f_get sd_base_23_16 d))
     OR push_bit 24 (ucast (f_get sd_base_31_24 d))"

definition desc_limit :: "Segdesc \<Rightarrow> u32" where
  "desc_limit d =
     (let l = ucast (f_get sd_lim_15_0 d) OR push_bit 16 (ucast (f_get sd_lim_19_16 d))
      in if f_get sd_g d = 1 then push_bit 12 l OR 0xFFF else l)"

section \<open>kernel/segment.c\<close>

definition set_descriptor :: "u32 \<Rightarrow> u32 \<Rightarrow> u32 \<Rightarrow> u32 \<Rightarrow> Segdesc \<Rightarrow> Segdesc" where
  "set_descriptor type dpl base limit d =
     (let d = 0;
          d = f_set sd_lim_15_0 (drop_bit 12 limit AND 0xffff) d;
          d = f_set sd_lim_19_16 (drop_bit 28 limit) d;
          d = f_set sd_base_15_0 (base AND 0xffff) d;
          d = f_set sd_base_23_16 (drop_bit 16 base AND 0xff) d;
          d = f_set sd_base_31_24 (drop_bit 24 base) d;
          d = f_set sd_type type d;
          d = f_set sd_dpl dpl d;
          d = f_set sd_s 1 d;
          d = f_set sd_p 1 d;
          d = f_set sd_avl 0 d;
          d = f_set sd_rsv1 0 d;
          d = f_set sd_g 1 d;
          d = f_set sd_db 1 d
      in d)"

record Taskstate =
  ts_link :: u32   ts_esp0 :: u32   ts_ss0 :: u16   ts_padding1 :: u16
  ts_esp1 :: u32   ts_ss1 :: u16   ts_padding2 :: u16
  ts_esp2 :: u32   ts_ss2 :: u16   ts_padding3 :: u16
  ts_cr3 :: u32   ts_eip :: u32   ts_eflags :: u32
  ts_eax :: u32   ts_ecx :: u32   ts_edx :: u32   ts_ebx :: u32
  ts_esp :: u32   ts_ebp :: u32   ts_esi :: u32   ts_edi :: u32
  ts_es :: u16   ts_padding4 :: u16   ts_cs :: u16   ts_padding5 :: u16
  ts_ss :: u16   ts_padding6 :: u16   ts_ds :: u16   ts_padding7 :: u16
  ts_fs :: u16   ts_padding8 :: u16   ts_gs :: u16   ts_padding9 :: u16
  ts_ldt :: u16   ts_padding10 :: u16   ts_t :: u16   ts_iomb :: u16

definition tss_zero :: Taskstate where
  "tss_zero = \<lparr>ts_link = 0, ts_esp0 = 0, ts_ss0 = 0, ts_padding1 = 0, ts_esp1 = 0, ts_ss1 = 0,
     ts_padding2 = 0, ts_esp2 = 0, ts_ss2 = 0, ts_padding3 = 0, ts_cr3 = 0, ts_eip = 0,
     ts_eflags = 0, ts_eax = 0, ts_ecx = 0, ts_edx = 0, ts_ebx = 0, ts_esp = 0, ts_ebp = 0,
     ts_esi = 0, ts_edi = 0, ts_es = 0, ts_padding4 = 0, ts_cs = 0, ts_padding5 = 0,
     ts_ss = 0, ts_padding6 = 0, ts_ds = 0, ts_padding7 = 0, ts_fs = 0, ts_padding8 = 0,
     ts_gs = 0, ts_padding9 = 0, ts_ldt = 0, ts_padding10 = 0, ts_t = 0, ts_iomb = 0\<rparr>"

text \<open>\<open>sizeof(struct Taskstate)\<close>: 15 four-byte members and 22 two-byte members.\<close>

definition sizeof_tss :: nat where "sizeof_tss = 15 * 4 + 22 * 2"

record DTR =
  dtr_limit :: u16
  dtr_base :: u32

definition NR_GDT :: nat where "NR_GDT = 4"

record segstate =
  gdt :: "Segdesc list"
  tss :: Taskstate
  gdtr :: DTR
  tr :: u16

text \<open>Loading the task register marks the descriptor's type busy.\<close>

definition ltr :: "u16 \<Rightarrow> segstate \<Rightarrow> segstate" where
  "ltr sel s =
     (let i = unat (drop_bit 3 sel);
          d = gdt s ! i
      in s\<lparr>gdt := (gdt s)[i := f_set sd_type (ucast (f_get sd_type d) OR 2) d], tr := sel\<rparr>)"

definition init_gdt :: "u32 \<Rightarrow> u32 \<Rightarrow> segstate \<Rightarrow> segstate" where
  "init_gdt gdt_addr tss_addr s =
     (let upd = (\<lambda>i f s. s\<lparr>gdt := (gdt s)[i := f (gdt s ! i)]\<rparr>);
          s = upd 0 (set_descriptor 0 0 0 0) s;
          s = upd 1 (set_descriptor (STA_X OR STA_R) 0 0 0xffffffff) s;
          s = upd 2 (set_descriptor (STA_W OR STA_R) 0 0 0xffffffff) s;
          s = upd 3 (set_descriptor 9 0 tss_addr (of_nat (sizeof_tss - 1))) s;
          s = upd 3 (f_set sd_s 0) s;
          s = s\<lparr>tss := tss_zero\<rparr>;
          s = s\<lparr>tss := (tss s)\<lparr>ts_iomb := 104\<rparr>\<rparr>;
          s = s\<lparr>gdtr := \<lparr>dtr_limit = of_nat (NR_GDT * 8 - 1), dtr_base = gdt_addr\<rparr>\<rparr>
      in ltr (push_bit 3 3) s)"

section \<open>Reading back what was written\<close>

lemma f_get_set_same:
  fixes w :: "'a::len word"
  assumes "fst f + snd f \<le> LENGTH('a)"
  shows "f_get f (f_set f x w) = ucast x AND mask (snd f)"
  using assms by (simp add: f_get_def f_set_def bf_get_set_same)

lemma f_get_set_other:
  "fst f + snd f \<le> fst g \<or> fst g + snd g \<le> fst f \<Longrightarrow> f_get f (f_set g x w) = f_get f w"
  by (simp add: f_get_def f_set_def bf_get_set_other)

lemma f_set_commute:
  "fst f + snd f \<le> fst g \<or> fst g + snd g \<le> fst f \<Longrightarrow> f_set f x (f_set g y w) = f_set g y (f_set f x w)"
  by (rule bit_word_eqI) (auto simp: f_set_def bit_bf_set)

lemma ucast_field:
  "k \<le> 32 \<Longrightarrow> (ucast (ucast (x :: u32) AND mask k :: u64) :: u32) = x AND mask k"
  by (rule bit_word_eqI) (auto simp: bit_simps)

lemmas desc_simps = f_get_set_same f_get_set_other sd_fields

lemma set_descriptor_fields:
  "f_get sd_lim_15_0 (set_descriptor t dpl base lim d) = ucast (drop_bit 12 lim AND 0xffff) AND mask 16"
  "f_get sd_lim_19_16 (set_descriptor t dpl base lim d) = ucast (drop_bit 28 lim) AND mask 4"
  "f_get sd_base_15_0 (set_descriptor t dpl base lim d) = ucast (base AND 0xffff) AND mask 16"
  "f_get sd_base_23_16 (set_descriptor t dpl base lim d) = ucast (drop_bit 16 base AND 0xff) AND mask 8"
  "f_get sd_base_31_24 (set_descriptor t dpl base lim d) = ucast (drop_bit 24 base) AND mask 8"
  "f_get sd_type (set_descriptor t dpl base lim d) = ucast t AND mask 4"
  "f_get sd_dpl (set_descriptor t dpl base lim d) = ucast dpl AND mask 2"
  "f_get sd_s (set_descriptor t dpl base lim d) = 1"
  "f_get sd_p (set_descriptor t dpl base lim d) = 1"
  "f_get sd_g (set_descriptor t dpl base lim d) = 1"
  "f_get sd_db (set_descriptor t dpl base lim d) = 1"
  by (simp_all add: set_descriptor_def Let_def desc_simps)

lemma f_get_bits:
  assumes "f_get f d = f_get f d'" and "fst f + snd f \<le> n \<Longrightarrow> bit d n = bit d' n" and "fst f \<le> n"
  shows "bit d n = bit d' n"
  using assms bit_bf_get [of "fst f" "snd f" d "n - fst f"] bit_bf_get [of "fst f" "snd f" d' "n - fst f"]
  by (cases "n < fst f + snd f") (auto simp: f_get_def)

text \<open>The thirteen members cover the descriptor.\<close>

lemma desc_eqI:
  assumes "f_get sd_lim_15_0 d = f_get sd_lim_15_0 d'" "f_get sd_base_15_0 d = f_get sd_base_15_0 d'"
    "f_get sd_base_23_16 d = f_get sd_base_23_16 d'" "f_get sd_type d = f_get sd_type d'"
    "f_get sd_s d = f_get sd_s d'" "f_get sd_dpl d = f_get sd_dpl d'" "f_get sd_p d = f_get sd_p d'"
    "f_get sd_lim_19_16 d = f_get sd_lim_19_16 d'" "f_get sd_avl d = f_get sd_avl d'"
    "f_get sd_rsv1 d = f_get sd_rsv1 d'" "f_get sd_db d = f_get sd_db d'" "f_get sd_g d = f_get sd_g d'"
    "f_get sd_base_31_24 d = f_get sd_base_31_24 d'"
  shows "d = (d' :: Segdesc)"
proof (rule bit_word_eqI)
  fix n :: nat assume n: "n < LENGTH(64)"
  note [simp] = sd_fields
  show "bit d n = bit d' n"
    apply (rule f_get_bits [OF assms(1)])
     apply (rule f_get_bits [OF assms(2)])
      apply (rule f_get_bits [OF assms(3)])
       apply (rule f_get_bits [OF assms(4)])
        apply (rule f_get_bits [OF assms(5)])
         apply (rule f_get_bits [OF assms(6)])
          apply (rule f_get_bits [OF assms(7)])
           apply (rule f_get_bits [OF assms(8)])
            apply (rule f_get_bits [OF assms(9)])
             apply (rule f_get_bits [OF assms(10)])
              apply (rule f_get_bits [OF assms(11)])
               apply (rule f_get_bits [OF assms(12)])
                apply (rule f_get_bits [OF assms(13)])
                 apply (use n in simp_all)
    done
qed

lemma set_descriptor_SEG: "set_descriptor t dpl base lim d = SEG t base lim dpl"
  by (rule desc_eqI) (simp_all add: set_descriptor_def SEG_def Segdesc_init_def Let_def desc_simps)

lemma field_masks: "(0xff :: u32) = mask 8" "(0xffff :: u32) = mask 16"
  by (simp_all add: mask_eq_exp_minus_1)

lemma set_descriptor_base: "desc_base (set_descriptor t dpl base lim d) = base"
proof (rule bit_word_eqI)
  fix n :: nat assume "n < LENGTH(32)"
  then consider "n < 16" | "16 \<le> n \<and> n < 24" | "24 \<le> n \<and> n < 32" by fastforce
  then show "bit (desc_base (set_descriptor t dpl base lim d)) n = bit base n"
    by cases (auto simp: desc_base_def set_descriptor_fields field_masks bit_simps)
qed

lemma set_descriptor_limit: "desc_limit (set_descriptor t dpl base lim d) = lim OR 0xFFF"
proof -
  have "(0xFFF :: u32) = mask 12" by (simp add: mask_eq_exp_minus_1)
  moreover have "bit (desc_limit (set_descriptor t dpl base lim d)) n = bit (lim OR mask 12) n"
    if "n < LENGTH(32)" for n
  proof -
    from that consider "n < 12" | "12 \<le> n \<and> n < 28" | "28 \<le> n \<and> n < 32" by fastforce
    then show ?thesis
      by cases (auto simp: desc_limit_def Let_def set_descriptor_fields field_masks masks bit_simps)
  qed
  ultimately show ?thesis by (simp only: bit_eq_iff) (auto simp: bit_word_eqI bit_simps possible_bit_def)
qed

section \<open>Properties\<close>

text \<open>The processor reads back from a descriptor the base it was set to, the limit rounded
  up to the end of its 4 KB unit, type and privilege level cut to their widths, and a
  present 32-bit segment in 4 KB units; the old content does not matter, and the result is
  the one of the initialiser macro SEG.\<close>

lemma set_descriptor_roundtrip:
  "desc_base (set_descriptor type dpl base lim d) = base
    \<and> desc_limit (set_descriptor type dpl base lim d) = lim OR 0xFFF
    \<and> f_get sd_type (set_descriptor type dpl base lim d) = ucast type AND mask 4
    \<and> f_get sd_dpl (set_descriptor type dpl base lim d) = ucast dpl AND mask 2
    \<and> f_get sd_s (set_descriptor type dpl base lim d) = 1
    \<and> f_get sd_p (set_descriptor type dpl base lim d) = 1
    \<and> f_get sd_db (set_descriptor type dpl base lim d) = 1
    \<and> set_descriptor type dpl base lim d = SEG type base lim dpl"
  by (intro conjI set_descriptor_base set_descriptor_limit set_descriptor_fields set_descriptor_SEG)

lemma flat_limit: "(0xFFFFFFFF :: u32) OR x = 0xFFFFFFFF"
proof -
  have "(0xFFFFFFFF :: u32) = mask 32" by (simp add: mask_eq_exp_minus_1)
  show ?thesis unfolding \<open>(0xFFFFFFFF :: u32) = mask 32\<close> by (rule bit_word_eqI) (simp add: bit_simps)
qed

lemma length_4: "length xs = 4 \<Longrightarrow> \<exists>a b c d. xs = [a, b, c, d]"
  by (auto simp: eval_nat_numeral length_Suc_conv)

lemma f_set_not_limit:
  "desc_base (f_set sd_s x d) = desc_base d" "desc_limit (f_set sd_s x d) = desc_limit d"
  "desc_base (f_set sd_type x d) = desc_base d" "desc_limit (f_set sd_type x d) = desc_limit d"
  by (simp_all add: desc_base_def desc_limit_def f_get_set_other sd_fields Let_def)

text \<open>C30: after \<open>init_gdt\<close> the register covers exactly the four entries, entries 1 and 2 are
  present flat 4 GB code and data segments of ring 0, and the task register selects entry
  3, a busy system segment at the task state segment. Entry 0 is not the null descriptor
  (it is set as a present segment), and the task segment's limit is 4095, beyond the I/O
  map base of 104.\<close>

theorem init_gdt_segments:
  assumes "length (gdt s) = NR_GDT"
  shows "(let s' = init_gdt gdt_addr tss_addr s in
      gdtr s' = \<lparr>dtr_limit = 31, dtr_base = gdt_addr\<rparr>
    \<and> (desc_base (gdt s' ! 1), desc_limit (gdt s' ! 1), f_get sd_type (gdt s' ! 1)) = (0, 0xFFFFFFFF, 0xA)
    \<and> (desc_base (gdt s' ! 2), desc_limit (gdt s' ! 2), f_get sd_type (gdt s' ! 2)) = (0, 0xFFFFFFFF, 2)
    \<and> (f_get sd_p (gdt s' ! 1), f_get sd_dpl (gdt s' ! 1)) = (1, 0)
    \<and> (f_get sd_p (gdt s' ! 2), f_get sd_dpl (gdt s' ! 2)) = (1, 0)
    \<and> tr s' = 24 \<and> desc_base (gdt s' ! 3) = tss_addr \<and> f_get sd_s (gdt s' ! 3) = 0
    \<and> f_get sd_type (gdt s' ! 3) = 0xB \<and> desc_limit (gdt s' ! 3) = 4095
    \<and> tss s' = tss_zero\<lparr>ts_iomb := 104\<rparr>
    \<and> gdt s' ! 0 \<noteq> SEG_NULL \<and> f_get sd_p (gdt s' ! 0) = 1)"
proof -
  obtain a b c d where xs: "gdt s = [a, b, c, d]" using length_4 [of "gdt s"] assms by (auto simp: NR_GDT_def)
  have "f_get sd_p SEG_NULL = 0" by (simp add: SEG_NULL_def Segdesc_init_def desc_simps)
  moreover have p: "f_get sd_p (set_descriptor 0 0 0 0 a) = 1" by (simp add: set_descriptor_fields)
  ultimately have "set_descriptor 0 0 0 0 a \<noteq> SEG_NULL" by (metis zero_neq_one)
  moreover have "f_get sd_s (f_set sd_type x e) = f_get sd_s e" "f_get sd_type (f_set sd_s x e) = f_get sd_type e"
    "f_get sd_s (f_set sd_s 0 e) = 0" "f_get sd_type (f_set sd_type x e) = ucast x AND mask 4" for e :: Segdesc and x
    by (simp_all add: desc_simps)
  moreover have "(103 :: u32) OR 0xFFF = 4095" by simp
  ultimately show ?thesis
    using p by (simp add: init_gdt_def ltr_def xs Let_def set_descriptor_base set_descriptor_limit flat_limit
      f_set_not_limit set_descriptor_fields NR_GDT_def sizeof_tss_def STA_X_def STA_R_def STA_W_def mask_eq_exp_minus_1)
qed

theorem init_gdt_segments_witness:
  "\<exists>s s'. init_gdt 0x104000 0x105000 s = s' \<and> tr s' = 24 \<and> desc_base (gdt s' ! 3) = 0x105000"
proof -
  let ?s = "\<lparr>gdt = [0, 0, 0, 0], tss = tss_zero, gdtr = \<lparr>dtr_limit = 0, dtr_base = 0\<rparr>, tr = 0\<rparr>"
  have "length (gdt ?s) = NR_GDT" by (simp add: NR_GDT_def)
  from init_gdt_segments [OF this, of "0x104000" "0x105000"] show ?thesis
    unfolding Let_def by blast
qed

end
