(* ===== verification/PortIO.thy ===== *)
theory PortIO
  imports Prelude
begin

text \<open>
  Port input and output of \<open>inc/x86.h\<close>. The devices behind the ports are not part of the
  program: a device is a parameter, a pair of functions that answer an input and take an
  output at a port and step the device's own state \<open>'d\<close>. The string forms move a counted
  block between a port and memory, upwards (direction flag cleared).
\<close>

datatype width = W8 | W16 | W32

record 'd device =
  dev_in :: "width \<Rightarrow> u16 \<Rightarrow> 'd \<Rightarrow> u32 \<times> 'd"
  dev_out :: "width \<Rightarrow> u16 \<Rightarrow> u32 \<Rightarrow> 'd \<Rightarrow> 'd"

definition inb :: "'d device \<Rightarrow> u16 \<Rightarrow> 'd \<Rightarrow> byte \<times> 'd" where
  "inb dv port d = map_prod ucast id (dev_in dv W8 port d)"

definition inw :: "'d device \<Rightarrow> u16 \<Rightarrow> 'd \<Rightarrow> u16 \<times> 'd" where
  "inw dv port d = map_prod ucast id (dev_in dv W16 port d)"

definition inl :: "'d device \<Rightarrow> u16 \<Rightarrow> 'd \<Rightarrow> u32 \<times> 'd" where
  "inl dv port d = dev_in dv W32 port d"

definition outb :: "'d device \<Rightarrow> u16 \<Rightarrow> byte \<Rightarrow> 'd \<Rightarrow> 'd" where
  "outb dv port x d = dev_out dv W8 port (ucast x) d"

definition outw :: "'d device \<Rightarrow> u16 \<Rightarrow> u16 \<Rightarrow> 'd \<Rightarrow> 'd" where
  "outw dv port x d = dev_out dv W16 port (ucast x) d"

definition outl :: "'d device \<Rightarrow> u16 \<Rightarrow> u32 \<Rightarrow> 'd \<Rightarrow> 'd" where
  "outl dv port x d = dev_out dv W32 port x d"

text \<open>The repeated forms; the count is the register \<open>ecx\<close>.\<close>

fun rep_insb :: "'d device \<Rightarrow> u16 \<Rightarrow> u32 \<Rightarrow> nat \<Rightarrow> mem \<times> 'd \<Rightarrow> mem \<times> 'd" where
  "rep_insb dv port addr 0 (m, d) = (m, d)"
| "rep_insb dv port addr (Suc n) (m, d) =
     (let (x, d) = inb dv port d in rep_insb dv port (addr + 1) n (m(addr := x), d))"

fun rep_insw :: "'d device \<Rightarrow> u16 \<Rightarrow> u32 \<Rightarrow> nat \<Rightarrow> mem \<times> 'd \<Rightarrow> mem \<times> 'd" where
  "rep_insw dv port addr 0 (m, d) = (m, d)"
| "rep_insw dv port addr (Suc n) (m, d) =
     (let (x, d) = inw dv port d in
      rep_insw dv port (addr + 2) n (m(addr := ucast x, addr + 1 := ucast (drop_bit 8 x)), d))"

fun rep_insl :: "'d device \<Rightarrow> u16 \<Rightarrow> u32 \<Rightarrow> nat \<Rightarrow> mem \<times> 'd \<Rightarrow> mem \<times> 'd" where
  "rep_insl dv port addr 0 (m, d) = (m, d)"
| "rep_insl dv port addr (Suc n) (m, d) =
     (let (x, d) = inl dv port d in rep_insl dv port (addr + 4) n (store32 m addr x, d))"

fun rep_outsb :: "'d device \<Rightarrow> u16 \<Rightarrow> u32 \<Rightarrow> nat \<Rightarrow> mem \<Rightarrow> 'd \<Rightarrow> 'd" where
  "rep_outsb dv port addr 0 m d = d"
| "rep_outsb dv port addr (Suc n) m d = rep_outsb dv port (addr + 1) n m (outb dv port (m addr) d)"

fun rep_outsw :: "'d device \<Rightarrow> u16 \<Rightarrow> u32 \<Rightarrow> nat \<Rightarrow> mem \<Rightarrow> 'd \<Rightarrow> 'd" where
  "rep_outsw dv port addr 0 m d = d"
| "rep_outsw dv port addr (Suc n) m d = rep_outsw dv port (addr + 2) n m (outw dv port (load16 m addr) d)"

fun rep_outsl :: "'d device \<Rightarrow> u16 \<Rightarrow> u32 \<Rightarrow> nat \<Rightarrow> mem \<Rightarrow> 'd \<Rightarrow> 'd" where
  "rep_outsl dv port addr 0 m d = d"
| "rep_outsl dv port addr (Suc n) m d = rep_outsl dv port (addr + 4) n m (outl dv port (load32 m addr) d)"

definition insb :: "'d device \<Rightarrow> u16 \<Rightarrow> u32 \<Rightarrow> u32 \<Rightarrow> mem \<times> 'd \<Rightarrow> mem \<times> 'd" where
  "insb dv port addr cnt = rep_insb dv port addr (unat cnt)"

definition insw :: "'d device \<Rightarrow> u16 \<Rightarrow> u32 \<Rightarrow> u32 \<Rightarrow> mem \<times> 'd \<Rightarrow> mem \<times> 'd" where
  "insw dv port addr cnt = rep_insw dv port addr (unat cnt)"

definition insl :: "'d device \<Rightarrow> u16 \<Rightarrow> u32 \<Rightarrow> u32 \<Rightarrow> mem \<times> 'd \<Rightarrow> mem \<times> 'd" where
  "insl dv port addr cnt = rep_insl dv port addr (unat cnt)"

definition outsb :: "'d device \<Rightarrow> u16 \<Rightarrow> u32 \<Rightarrow> u32 \<Rightarrow> mem \<Rightarrow> 'd \<Rightarrow> 'd" where
  "outsb dv port addr cnt = rep_outsb dv port addr (unat cnt)"

definition outsw :: "'d device \<Rightarrow> u16 \<Rightarrow> u32 \<Rightarrow> u32 \<Rightarrow> mem \<Rightarrow> 'd \<Rightarrow> 'd" where
  "outsw dv port addr cnt = rep_outsw dv port addr (unat cnt)"

definition outsl :: "'d device \<Rightarrow> u16 \<Rightarrow> u32 \<Rightarrow> u32 \<Rightarrow> mem \<Rightarrow> 'd \<Rightarrow> 'd" where
  "outsl dv port addr cnt = rep_outsl dv port addr (unat cnt)"

section \<open>Waiting for a device\<close>

text \<open>The busy-wait loops: a port is read until the value satisfies a condition. The loop may
  never end; it returns the state after the last read.\<close>

partial_function (option) poll :: "(byte \<Rightarrow> bool) \<Rightarrow> 'd device \<Rightarrow> u16 \<Rightarrow> 'd \<Rightarrow> 'd option" where
  "poll ok dv port d = (let (x, d) = inb dv port d in if ok x then Some d else poll ok dv port d)"

text \<open>\<open>answers dv port xs d d'\<close>: from state \<open>d\<close>, successive byte reads of the port give \<open>xs\<close>
  and leave the device in \<open>d'\<close>.\<close>

fun answers :: "'d device \<Rightarrow> u16 \<Rightarrow> byte list \<Rightarrow> 'd \<Rightarrow> 'd \<Rightarrow> bool" where
  "answers dv port [] d d' \<longleftrightarrow> d' = d"
| "answers dv port (x # xs) d d' \<longleftrightarrow> fst (inb dv port d) = x \<and> answers dv port xs (snd (inb dv port d)) d'"

lemma answers_append:
  "answers dv port (xs @ ys) d d'' \<longleftrightarrow> (\<exists>d'. answers dv port xs d d' \<and> answers dv port ys d' d'')"
  by (induction xs arbitrary: d) auto

text \<open>A device with a part that answers at a port.\<close>

lemma answers_part:
  assumes "\<And>d. inb dv port d = map_prod id (\<lambda>s. put s d) (inb dv' port (get d))"
    and "\<And>s d. get (put s d) = s" and "\<And>s t d. put s (put t d) = put s d" and "\<And>d. put (get d) d = d"
  shows "answers dv' port xs (get d) s \<Longrightarrow> answers dv port xs d (put s d)"
proof (induction xs arbitrary: d)
  case Nil
  then show ?case by (simp add: assms(4))
next
  case (Cons x xs)
  from Cons.IH [of "put (snd (inb dv' port (get d))) d"] show ?case using Cons.prems by (simp add: assms)
qed

text \<open>What every read keeps is kept.\<close>

lemma answers_keep:
  assumes "\<And>d. obs (snd (inb dv port d)) = obs d"
  shows "answers dv port xs d d' \<Longrightarrow> obs d' = obs d"
  by (induction xs arbitrary: d) (auto simp: assms)

lemma poll_returns:
  "answers dv port (xs @ [y]) d d' \<Longrightarrow> (\<forall>x \<in> set xs. \<not> ok x) \<Longrightarrow> ok y \<Longrightarrow> poll ok dv port d = Some d'"
proof (induction xs arbitrary: d)
  case Nil
  then show ?case by (subst poll.simps) (auto simp: Let_def split: prod.splits)
next
  case (Cons x xs)
  then show ?case by (subst poll.simps) (auto simp: Let_def split: prod.splits)
qed

text \<open>Conversely, when the loop ends it ends at the first accepted answer.\<close>

lemma poll_answers:
  assumes "poll ok dv port d = Some d'"
  shows "\<exists>xs y. answers dv port (xs @ [y]) d d' \<and> (\<forall>x \<in> set xs. \<not> ok x) \<and> ok y"
proof (induction rule: poll.raw_induct [OF _ assms])
  case (1 f ok dv port d d')
  obtain x d1 where in1: "inb dv port d = (x, d1)" by force
  show ?case
  proof (cases "ok x")
    case True
    then show ?thesis using 1(2) in1 by (intro exI [of _ "[]"] exI [of _ x]) simp
  next
    case False
    then have "f ok dv port d1 = Some d'" using 1(2) in1 by simp
    from 1(1) [OF this] obtain xs y where "answers dv port (xs @ [y]) d1 d'" "\<forall>x \<in> set xs. \<not> ok x" "ok y"
      by auto
    then show ?thesis using False in1 by (intro exI [of _ "x # xs"] exI [of _ y]) simp
  qed
qed

lemma poll_keeps:
  assumes "\<And>d. obs (snd (inb dv port d)) = obs d" and "poll ok dv port d = Some d'"
  shows "obs d' = obs d"
  using poll_answers [OF assms(2)] answers_keep [where obs = obs, OF assms(1)] by blast

section \<open>What the repeated forms transfer\<close>

text \<open>The repeated output of bytes sends the region, in order; the repeated input of bytes
  stores the bytes that the port gives, in order.\<close>

lemma rep_outsb_bytes:
  "rep_outsb dv port a n m d = fold (\<lambda>x d. outb dv port x d) (map (\<lambda>i. m (a + of_nat i)) [0..<n]) d"
proof (induction n arbitrary: a d)
  case 0
  then show ?case by simp
next
  case (Suc n)
  have "map (\<lambda>i. m (a + of_nat i)) [0..<Suc n] = m a # map (\<lambda>i. m (a + 1 + of_nat i)) [0..<n]"
    by (simp add: upt_conv_Cons map_Suc_upt [symmetric] add.assoc del: upt_Suc)
  then show ?case using Suc [of "a + 1"] by simp
qed

lemma rep_insb_bytes:
  "answers dv port xs d d' \<Longrightarrow> rep_insb dv port a (length xs) (m, d) = (mem_write m a xs, d')"
  by (induction xs arbitrary: a m d) (auto simp: split: prod.split)

end
