(* ===== verification/Interrupt.thy ===== *)
theory Interrupt
  imports Segment PortIO
begin

text \<open>
  Interrupts: the gate descriptors of \<open>inc/mmu.h\<close> and \<open>kernel/interrupt/interrupt.c\<close>: the
  descriptor table, the programming of the interrupt controller and the (empty) handler.
  The address of the assembly routine \<open>entry\<close> is a parameter.
\<close>

section \<open>Gate descriptors\<close>

type_synonym Gatedesc = u64

definition gd_off_15_0 :: field where "gd_off_15_0 = (0, 16)"
definition gd_sel :: field where "gd_sel = (16, 16)"
definition gd_args :: field where "gd_args = (32, 5)"
definition gd_rsv1 :: field where "gd_rsv1 = (37, 3)"
definition gd_type :: field where "gd_type = (40, 4)"
definition gd_s :: field where "gd_s = (44, 1)"
definition gd_dpl :: field where "gd_dpl = (45, 2)"
definition gd_p :: field where "gd_p = (47, 1)"
definition gd_off_31_16 :: field where "gd_off_31_16 = (48, 16)"

lemmas gd_fields = gd_off_15_0_def gd_sel_def gd_args_def gd_rsv1_def gd_type_def gd_s_def gd_dpl_def
  gd_p_def gd_off_31_16_def

definition STS_CG32 :: u32 where "STS_CG32 = 0xC"

definition SETGATE :: "bool \<Rightarrow> u32 \<Rightarrow> u32 \<Rightarrow> u32 \<Rightarrow> Gatedesc \<Rightarrow> Gatedesc" where
  "SETGATE istrap sel off dpl g =
     (let g = f_set gd_off_15_0 (off AND 0xffff) g;
          g = f_set gd_sel sel g;
          g = f_set gd_args 0 g;
          g = f_set gd_rsv1 0 g;
          g = f_set gd_type (if istrap then STS_TG32 else STS_IG32) g;
          g = f_set gd_s 0 g;
          g = f_set gd_dpl dpl g;
          g = f_set gd_p 1 g;
          g = f_set gd_off_31_16 (drop_bit 16 off) g
      in g)"

definition SETCALLGATE :: "u32 \<Rightarrow> u32 \<Rightarrow> u32 \<Rightarrow> Gatedesc \<Rightarrow> Gatedesc" where
  "SETCALLGATE sel off dpl g =
     (let g = f_set gd_off_15_0 (off AND 0xffff) g;
          g = f_set gd_sel sel g;
          g = f_set gd_args 0 g;
          g = f_set gd_rsv1 0 g;
          g = f_set gd_type STS_CG32 g;
          g = f_set gd_s 0 g;
          g = f_set gd_dpl dpl g;
          g = f_set gd_p 1 g;
          g = f_set gd_off_31_16 (drop_bit 16 off) g
      in g)"

section \<open>kernel/interrupt/interrupt.c\<close>

definition PORT_PIC_MASTER_CMD :: u16 where "PORT_PIC_MASTER_CMD = 0x20"
definition PORT_PIC_SLAVE_CMD :: u16 where "PORT_PIC_SLAVE_CMD = 0xA0"
definition PORT_PIC_MASTER_DATA :: u16 where "PORT_PIC_MASTER_DATA = PORT_PIC_MASTER_CMD + 1"
definition PORT_PIC_SLAVE_DATA :: u16 where "PORT_PIC_SLAVE_DATA = PORT_PIC_SLAVE_CMD + 1"

definition init_i8259_pic :: "'d device \<Rightarrow> 'd \<Rightarrow> 'd" where
  "init_i8259_pic dv d =
     (let d = outb dv PORT_PIC_MASTER_DATA 0xFE d;
          d = outb dv PORT_PIC_SLAVE_DATA 0xFF d;
          d = outb dv PORT_PIC_MASTER_CMD 0x11 d;
          d = outb dv PORT_PIC_MASTER_DATA 0x00 d;
          d = outb dv PORT_PIC_MASTER_DATA 0x10 d;
          d = outb dv PORT_PIC_MASTER_DATA 0x02 d
      in d)"

text \<open>The frame that the processor pushes.\<close>

record StackFrame =
  sf_eip :: u32
  sf_cs :: u32
  sf_eflags :: u32

definition irq_handle :: "StackFrame \<Rightarrow> 's \<Rightarrow> 's" where
  "irq_handle frame s = s"

record idtstate =
  idt :: "Gatedesc list"
  idtr :: DTR

text \<open>The first assignments of \<open>init_idt\<close>, to entry 32, from its old content.\<close>

definition first_gate :: "u32 \<Rightarrow> Gatedesc \<Rightarrow> Gatedesc" where
  "first_gate ent g =
     (let g = f_set gd_sel 0x8 g;
          g = f_set gd_p 1 g;
          g = f_set gd_dpl 0 g;
          g = f_set gd_s 0 g;
          g = f_set gd_rsv1 0 g;
          g = f_set gd_args 0 g;
          g = f_set gd_type STS_IG32 g;
          g = f_set gd_off_15_0 (ent AND 0x0000ffff) g;
          g = f_set gd_off_31_16 (drop_bit 16 (ent AND 0xffff0000)) g
      in g)"

definition init_idt :: "u32 \<Rightarrow> u32 \<Rightarrow> idtstate \<Rightarrow> idtstate" where
  "init_idt ent idt_addr s =
     (let i = 32;
          t = (idt s)[i := first_gate ent (idt s ! i)];
          t = t[i + 1 := t ! i];
          t = t[0 := t ! i];
          t = fold (\<lambda>i t. t[i := t ! 0]) [0..<48] t
      in s\<lparr>idt := t, idtr := \<lparr>dtr_limit = of_nat (48 * 8 - 1), dtr_base = idt_addr\<rparr>\<rparr>)"

section \<open>Delivery\<close>

text \<open>How the processor finds the handler of a vector: it must lie within the table's limit and
  its gate be a present 32-bit interrupt gate; then the selector and offset are read.\<close>

definition gate_offset :: "Gatedesc \<Rightarrow> u32" where
  "gate_offset g = ucast (f_get gd_off_15_0 g) OR push_bit 16 (ucast (f_get gd_off_31_16 g))"

definition deliver :: "idtstate \<Rightarrow> nat \<Rightarrow> (u16 \<times> u32) option" where
  "deliver s v =
     (if 8 * v + 7 \<le> unat (dtr_limit (idtr s))
         \<and> f_get gd_p (idt s ! v) = 1 \<and> f_get gd_s (idt s ! v) = 0 \<and> f_get gd_type (idt s ! v) = 0xE
      then Some (ucast (f_get gd_sel (idt s ! v)), gate_offset (idt s ! v)) else None)"

lemmas gate_simps = f_get_set_same f_get_set_other gd_fields

text \<open>The nine members cover the gate.\<close>

lemma gate_eqI:
  assumes "f_get gd_off_15_0 d = f_get gd_off_15_0 d'" "f_get gd_sel d = f_get gd_sel d'"
    "f_get gd_args d = f_get gd_args d'" "f_get gd_rsv1 d = f_get gd_rsv1 d'"
    "f_get gd_type d = f_get gd_type d'" "f_get gd_s d = f_get gd_s d'" "f_get gd_dpl d = f_get gd_dpl d'"
    "f_get gd_p d = f_get gd_p d'" "f_get gd_off_31_16 d = f_get gd_off_31_16 d'"
  shows "d = (d' :: Gatedesc)"
proof (rule bit_word_eqI)
  fix n :: nat assume n: "n < LENGTH(64)"
  note [simp] = gd_fields
  show "bit d n = bit d' n"
    apply (rule f_get_bits [OF assms(1)])
     apply (rule f_get_bits [OF assms(2)])
      apply (rule f_get_bits [OF assms(3)])
       apply (rule f_get_bits [OF assms(4)])
        apply (rule f_get_bits [OF assms(5)])
         apply (rule f_get_bits [OF assms(6)])
          apply (rule f_get_bits [OF assms(7)])
           apply (rule f_get_bits [OF assms(8)])
            apply (rule f_get_bits [OF assms(9)])
             apply (use n in simp_all)
    done
qed

lemma drop_high: "drop_bit 16 x AND 0xffff = drop_bit 16 (x :: u32)"
  unfolding field_masks by (rule bit_word_eqI) (auto simp: bit_simps dest: bit_imp_le_length)

lemma first_gate_SETGATE: "first_gate ent g = SETGATE False 8 ent 0 g'"
  by (rule gate_eqI) (simp_all add: first_gate_def SETGATE_def Let_def gate_simps drop_high)

lemma SETGATE_offset: "gate_offset (SETGATE istrap sel off dpl g) = off"
proof (rule bit_word_eqI)
  fix n :: nat assume "n < LENGTH(32)"
  then consider "n < 16" | "16 \<le> n \<and> n < 32" by fastforce
  then show "bit (gate_offset (SETGATE istrap sel off dpl g)) n = bit off n"
    by cases (auto simp: gate_offset_def SETGATE_def Let_def gate_simps field_masks bit_simps)
qed

lemma SETGATE_fields:
  "f_get gd_sel (SETGATE istrap sel off dpl g) = ucast sel AND mask 16"
  "f_get gd_type (SETGATE istrap sel off dpl g) = (if istrap then 0xF else 0xE)"
  "f_get gd_dpl (SETGATE istrap sel off dpl g) = ucast dpl AND mask 2"
  "f_get gd_p (SETGATE istrap sel off dpl g) = 1"
  "f_get gd_s (SETGATE istrap sel off dpl g) = 0"
  by (simp_all add: SETGATE_def Let_def gate_simps STS_TG32_def STS_IG32_def mask_eq_exp_minus_1)

lemma fold_copy_first:
  "t \<noteq> [] \<Longrightarrow> n \<le> length t \<Longrightarrow> fold (\<lambda>i t. t[i := t ! 0]) [0..<n] t = replicate n (t ! 0) @ drop n t"
proof (induction n)
  case 0
  then show ?case by simp
next
  case (Suc n)
  then have "(replicate n (t ! 0) @ drop n t) ! 0 = t ! 0"
    by (cases n) (simp_all add: nth_append)
  with Suc show ?case
    by (simp add: list_update_append Cons_nth_drop_Suc [symmetric] replicate_append_same [symmetric])
qed

section \<open>Properties\<close>

text \<open>A gate keeps the handler offset, selector, type and privilege level it is set to,
  whatever it held before.\<close>

lemma SETGATE_roundtrip:
  "gate_offset (SETGATE istrap sel off dpl g) = off
    \<and> f_get gd_sel (SETGATE istrap sel off dpl g) = ucast sel AND mask 16
    \<and> f_get gd_type (SETGATE istrap sel off dpl g) = (if istrap then 0xF else 0xE)
    \<and> f_get gd_dpl (SETGATE istrap sel off dpl g) = ucast dpl AND mask 2
    \<and> f_get gd_p (SETGATE istrap sel off dpl g) = 1 \<and> f_get gd_s (SETGATE istrap sel off dpl g) = 0
    \<and> SETGATE istrap sel off dpl g = SETGATE istrap sel off dpl 0"
proof (intro conjI SETGATE_offset SETGATE_fields)
  show "SETGATE istrap sel off dpl g = SETGATE istrap sel off dpl 0"
    by (rule gate_eqI) (simp_all add: SETGATE_def Let_def gate_simps)
qed

lemma init_idt_gates:
  assumes "length (idt s) = 48"
  shows "deliver (init_idt ent idt_addr s) v = (if v < 48 then Some (0x8, ent) else None)
    \<and> length (idt (init_idt ent idt_addr s)) = 48"
proof -
  let ?g = "SETGATE False 8 ent 0 0"
  have "idt s \<noteq> []" using assms by auto
  then have "idt (init_idt ent idt_addr s) = replicate 48 ?g"
    using assms fold_copy_first [of "((idt s)[32 := ?g, 33 := ?g])[0 := ?g]" 48]
    by (simp add: init_idt_def Let_def first_gate_SETGATE [of ent _ 0] del: upt_rec_numeral)
  moreover have "idtr (init_idt ent idt_addr s) = \<lparr>dtr_limit = 383, dtr_base = idt_addr\<rparr>"
    by (simp add: init_idt_def Let_def)
  ultimately show ?thesis
    by (auto simp: deliver_def SETGATE_offset SETGATE_fields mask_eq_exp_minus_1 del: upt_rec_numeral)
qed

text \<open>C29: after \<open>init_idt\<close> every vector below 48 is delivered to the routine \<open>ent\<close> in the kernel code
  segment, and every vector from 48 on is outside the table.\<close>

theorem init_idt_delivers:
  assumes "length (idt s) = 48"
  shows "deliver (init_idt ent idt_addr s) v = (if v < 48 then Some (0x8, ent) else None)
    \<and> length (idt (init_idt ent idt_addr s)) = 48"
  by (rule init_idt_gates [OF assms])

theorem init_idt_delivers_witness:
  "deliver (init_idt 0x101234 0x106000 \<lparr>idt = replicate 48 0, idtr = \<lparr>dtr_limit = 0, dtr_base = 0\<rparr>\<rparr>) 33
     = Some (0x8, 0x101234)"
  using init_idt_delivers [of "\<lparr>idt = replicate 48 0, idtr = \<lparr>dtr_limit = 0, dtr_base = 0\<rparr>\<rparr>" "0x101234" "0x106000" 33]
  by simp

end
