(* ===== verification/Pic8259.thy ===== *)
theory Pic8259
  imports Interrupt
begin

text \<open>
  What \<open>init_i8259_pic\<close> of \<open>kernel/interrupt/interrupt.c\<close> makes of the two interrupt
  controllers. The controller is not part of the program: its documented initialisation
  sequence is a hypothesis on the ports, stated with the state machine of the 8259A (a
  command word with bit 4 set starts the sequence and clears the mask; the next writes to
  the data port are taken in turn for the vector base, the wiring and the mode; after that a
  write to the data port sets the mask).
\<close>

section \<open>The controller\<close>

datatype pic_phase = Ready | Want_base | Want_wiring | Want_mode

record pic =
  pic_phase :: pic_phase
  pic_icw1 :: byte
  pic_base :: byte
  pic_wiring :: byte
  pic_mode :: byte
  pic_mask :: byte

definition pic_command :: "byte \<Rightarrow> pic \<Rightarrow> pic" where
  "pic_command b p = (if bit b 4 then p\<lparr>pic_phase := Want_base, pic_icw1 := b, pic_mask := 0, pic_mode := 0\<rparr> else p)"

definition pic_data :: "byte \<Rightarrow> pic \<Rightarrow> pic" where
  "pic_data b p =
     (case pic_phase p of
        Ready \<Rightarrow> p\<lparr>pic_mask := b\<rparr>
      | Want_base \<Rightarrow> p\<lparr>pic_base := b, pic_phase := (if \<not> bit (pic_icw1 p) 1 then Want_wiring
            else if bit (pic_icw1 p) 0 then Want_mode else Ready)\<rparr>
      | Want_wiring \<Rightarrow> p\<lparr>pic_wiring := b, pic_phase := (if bit (pic_icw1 p) 0 then Want_mode else Ready)\<rparr>
      | Want_mode \<Rightarrow> p\<lparr>pic_mode := b, pic_phase := Ready\<rparr>)"

text \<open>The two controllers of a PC as parts of the devices.\<close>

definition pic_laws :: "'d device \<Rightarrow> ('d \<Rightarrow> pic) \<Rightarrow> ('d \<Rightarrow> pic) \<Rightarrow> bool" where
  "pic_laws dv ma sl \<longleftrightarrow>
     (\<forall>b d. ma (outb dv PORT_PIC_MASTER_CMD b d) = pic_command b (ma d) \<and> sl (outb dv PORT_PIC_MASTER_CMD b d) = sl d)
   \<and> (\<forall>b d. ma (outb dv PORT_PIC_MASTER_DATA b d) = pic_data b (ma d) \<and> sl (outb dv PORT_PIC_MASTER_DATA b d) = sl d)
   \<and> (\<forall>b d. sl (outb dv PORT_PIC_SLAVE_CMD b d) = pic_command b (sl d) \<and> ma (outb dv PORT_PIC_SLAVE_CMD b d) = ma d)
   \<and> (\<forall>b d. sl (outb dv PORT_PIC_SLAVE_DATA b d) = pic_data b (sl d) \<and> ma (outb dv PORT_PIC_SLAVE_DATA b d) = ma d)"

text \<open>A request on line \<open>n\<close> is passed on when its mask bit is clear, with the vector that the base
  gives; the processor family and the automatic end of interrupt are bits of the mode.\<close>

definition pic_passes :: "pic \<Rightarrow> nat \<Rightarrow> bool" where
  "pic_passes p n \<longleftrightarrow> pic_phase p = Ready \<and> n < 8 \<and> \<not> bit (pic_mask p) n"

definition pic_vector :: "pic \<Rightarrow> nat \<Rightarrow> nat" where
  "pic_vector p n = unat (pic_base p AND 0xF8) + n"

definition pic_8086 :: "pic \<Rightarrow> bool" where "pic_8086 p \<longleftrightarrow> bit (pic_mode p) 0"
definition pic_auto_eoi :: "pic \<Rightarrow> bool" where "pic_auto_eoi p \<longleftrightarrow> bit (pic_mode p) 1"

section \<open>The state after the initialisation\<close>

lemma master_sequence:
  "pic_data 0x02 (pic_data 0x10 (pic_data 0x00 (pic_command 0x11 p)))
     = p\<lparr>pic_phase := Ready, pic_icw1 := 0x11, pic_base := 0, pic_wiring := 0x10, pic_mode := 0x02, pic_mask := 0\<rparr>"
proof -
  have "bit (0x11 :: byte) 4" "\<not> bit (0x11 :: byte) 1" "bit (0x11 :: byte) 0" by simp_all
  then show ?thesis by (simp add: pic_command_def pic_data_def)
qed

lemma init_pic_parts:
  assumes "pic_laws dv ma sl"
  shows "ma (init_i8259_pic dv d) = pic_data 0x02 (pic_data 0x10 (pic_data 0x00 (pic_command 0x11 (pic_data 0xFE (ma d)))))"
    and "sl (init_i8259_pic dv d) = pic_data 0xFF (sl d)"
  using assms by (simp_all add: pic_laws_def init_i8259_pic_def Let_def)

text \<open>C20: whatever state the BIOS has left the master controller in, \<open>init_i8259_pic\<close> ends its
  initialisation sequence with vector base 0, so that line \<open>n\<close> raises vector \<open>n\<close>, among the
  processor's own exceptions; with the end of interrupt automatic, which the entry stub
  relies on; without the bit that selects the 8086 family; and with no line masked: the
  mask \<open>0xFE\<close> is written before the command word that clears it. The slave is masked
  completely and keeps the rest of its state.\<close>

theorem init_pic_state:
  assumes "pic_laws dv ma sl" and "pic_phase (sl d) = Ready" and "p = ma (init_i8259_pic dv d)"
  shows "pic_phase p = Ready \<and> (\<forall>n. pic_passes p n = (n < 8)) \<and> (\<forall>n. pic_vector p n = n)
    \<and> pic_auto_eoi p \<and> \<not> pic_8086 p \<and> sl (init_i8259_pic dv d) = (sl d)\<lparr>pic_mask := 0xFF\<rparr>
    \<and> (\<forall>n. \<not> pic_passes (sl (init_i8259_pic dv d)) n)"
proof -
  have p: "p = (pic_data 0xFE (ma d))\<lparr>pic_phase := Ready, pic_icw1 := 0x11, pic_base := 0, pic_wiring := 0x10, pic_mode := 0x02,
      pic_mask := 0\<rparr>"
    unfolding assms(3) init_pic_parts(1) [OF assms(1)] master_sequence ..
  have s: "sl (init_i8259_pic dv d) = (sl d)\<lparr>pic_mask := 0xFF\<rparr>"
    unfolding init_pic_parts(2) [OF assms(1)] by (simp add: pic_data_def assms(2))
  have "bit (0xFF :: byte) n" if "n < 8" for n
  proof -
    have m: "(0xFF :: byte) = mask 8" by (simp add: mask_eq_exp_minus_1)
    show ?thesis unfolding m using that by (simp add: bit_mask_iff)
  qed
  moreover have "bit (0x02 :: byte) 1" "\<not> bit (0x02 :: byte) 0" by simp_all
  ultimately show ?thesis
    unfolding s by (auto simp: p pic_passes_def pic_vector_def pic_8086_def pic_auto_eoi_def)
qed

text \<open>Two controllers, and nothing else.\<close>

definition two_pics :: "(pic \<times> pic) device" where
  "two_pics = \<lparr>dev_in = (\<lambda>w port d. (0, d)), dev_out = (\<lambda>w port x d.
     if port = PORT_PIC_MASTER_CMD then (pic_command (ucast x) (fst d), snd d)
     else if port = PORT_PIC_MASTER_DATA then (pic_data (ucast x) (fst d), snd d)
     else if port = PORT_PIC_SLAVE_CMD then (fst d, pic_command (ucast x) (snd d))
     else if port = PORT_PIC_SLAVE_DATA then (fst d, pic_data (ucast x) (snd d)) else d)\<rparr>"

definition bios_pic :: "byte \<Rightarrow> pic" where
  "bios_pic base = \<lparr>pic_phase = Ready, pic_icw1 = 0x11, pic_base = base, pic_wiring = 0x04, pic_mode = 0x01, pic_mask = 0xB8\<rparr>"

lemma two_pics_laws: "pic_laws two_pics fst snd"
proof -
  have "ucast (ucast b :: u32) = (b :: byte)" for b by (rule bit_word_eqI) (auto simp: bit_simps)
  then show ?thesis
    by (simp add: pic_laws_def two_pics_def outb_def PORT_PIC_MASTER_CMD_def PORT_PIC_MASTER_DATA_def PORT_PIC_SLAVE_CMD_def
        PORT_PIC_SLAVE_DATA_def)
qed

theorem init_pic_state_witness:
  "pic_passes (fst (init_i8259_pic two_pics (bios_pic 8, bios_pic 0x70))) 6
    \<and> pic_vector (fst (init_i8259_pic two_pics (bios_pic 8, bios_pic 0x70))) 1 = 1
    \<and> pic_mask (snd (init_i8259_pic two_pics (bios_pic 8, bios_pic 0x70))) = 0xFF"
  using init_pic_state [OF two_pics_laws _ refl, of "(bios_pic 8, bios_pic 0x70)"] by (simp add: bios_pic_def)

end
