(* ===== verification/Boot.thy ===== *)
theory Boot
  imports PortIO
begin

text \<open>
  The boot loader \<open>boot/main.c\<close> with the ELF headers of \<open>inc/elf.h\<close>: reading sectors of the
  first IDE disk by programmed input, loading a segment, and \<open>bootmain\<close>.

  The disk is a device parameter; what the loader relies on is stated as \<open>disk_laws\<close>, the ATA
  protocol for reading by programmed input: a drive may be busy, which ends after finitely many
  looks at the status register; only a drive that is not busy takes register writes and the read
  command and has data to give. So both calls of \<open>waitdisk\<close> in \<open>readsect\<close> are needed for the theorems
  below. Every loop of the loader may run for ever, so that its functions return an option.
\<close>

section \<open>ELF headers\<close>

definition ELF_MAGIC :: u32 where "ELF_MAGIC = 0x464C457F"

record Elf =
  e_magic :: u32
  e_elf :: "byte list"
  e_type :: u16
  e_machine :: u16
  e_version :: u32
  e_entry :: u32
  e_phoff :: u32
  e_shoff :: u32
  e_flags :: u32
  e_ehsize :: u16
  e_phentsize :: u16
  e_phnum :: u16
  e_shentsize :: u16
  e_shnum :: u16
  e_shstrndx :: u16

record Proghdr =
  p_type :: u32
  p_offset :: u32
  p_va :: u32
  p_pa :: u32
  p_filesz :: u32
  p_memsz :: u32
  p_flags :: u32
  p_align :: u32

definition Elf_at :: "mem \<Rightarrow> u32 \<Rightarrow> Elf" where
  "Elf_at m a = \<lparr>e_magic = load32 m a, e_elf = mem_read m (a + 4) 12, e_type = load16 m (a + 16),
     e_machine = load16 m (a + 18), e_version = load32 m (a + 20), e_entry = load32 m (a + 24),
     e_phoff = load32 m (a + 28), e_shoff = load32 m (a + 32), e_flags = load32 m (a + 36),
     e_ehsize = load16 m (a + 40), e_phentsize = load16 m (a + 42), e_phnum = load16 m (a + 44),
     e_shentsize = load16 m (a + 46), e_shnum = load16 m (a + 48), e_shstrndx = load16 m (a + 50)\<rparr>"

definition Proghdr_at :: "mem \<Rightarrow> u32 \<Rightarrow> Proghdr" where
  "Proghdr_at m a = \<lparr>p_type = load32 m a, p_offset = load32 m (a + 4), p_va = load32 m (a + 8),
     p_pa = load32 m (a + 12), p_filesz = load32 m (a + 16), p_memsz = load32 m (a + 20),
     p_flags = load32 m (a + 24), p_align = load32 m (a + 28)\<rparr>"

text \<open>The section headers and the constants, which the loader does not look at.\<close>

record Secthdr =
  sh_name :: u32
  sh_type :: u32
  sh_flags :: u32
  sh_addr :: u32
  sh_offset :: u32
  sh_size :: u32
  sh_link :: u32
  sh_info :: u32
  sh_addralign :: u32
  sh_entsize :: u32

definition Secthdr_at :: "mem \<Rightarrow> u32 \<Rightarrow> Secthdr" where
  "Secthdr_at m a = \<lparr>sh_name = load32 m a, sh_type = load32 m (a + 4), sh_flags = load32 m (a + 8),
     sh_addr = load32 m (a + 12), sh_offset = load32 m (a + 16), sh_size = load32 m (a + 20), sh_link = load32 m (a + 24),
     sh_info = load32 m (a + 28), sh_addralign = load32 m (a + 32), sh_entsize = load32 m (a + 36)\<rparr>"

definition ELF_PROG_LOAD :: u32 where "ELF_PROG_LOAD = 1"
definition ELF_PROG_FLAG_EXEC :: u32 where "ELF_PROG_FLAG_EXEC = 1"
definition ELF_PROG_FLAG_WRITE :: u32 where "ELF_PROG_FLAG_WRITE = 2"
definition ELF_PROG_FLAG_READ :: u32 where "ELF_PROG_FLAG_READ = 4"
definition ELF_SHT_NULL :: u32 where "ELF_SHT_NULL = 0"
definition ELF_SHT_PROGBITS :: u32 where "ELF_SHT_PROGBITS = 1"
definition ELF_SHT_SYMTAB :: u32 where "ELF_SHT_SYMTAB = 2"
definition ELF_SHT_STRTAB :: u32 where "ELF_SHT_STRTAB = 3"
definition ELF_SHN_UNDEF :: u32 where "ELF_SHN_UNDEF = 0"

section \<open>boot/main.c\<close>

definition SECTSIZE :: u32 where "SECTSIZE = 512"
definition ELFHDR :: u32 where "ELFHDR = 0x10000"

definition waitdisk :: "'d device \<Rightarrow> 'd \<Rightarrow> 'd option" where
  "waitdisk dv d = poll (\<lambda>x. x AND 0xC0 = 0x40) dv 0x1F7 d"

definition readsect :: "'d device \<Rightarrow> u32 \<Rightarrow> u32 \<Rightarrow> mem \<times> 'd \<Rightarrow> (mem \<times> 'd) option" where
  "readsect dv dst offset s =
     (case waitdisk dv (snd s) of
        None \<Rightarrow> None
      | Some d \<Rightarrow>
          (let d = outb dv 0x1F2 1 d;
               d = outb dv 0x1F3 (ucast offset) d;
               d = outb dv 0x1F4 (ucast (drop_bit 8 offset)) d;
               d = outb dv 0x1F5 (ucast (drop_bit 16 offset)) d;
               d = outb dv 0x1F6 (ucast (drop_bit 24 offset OR 0xE0)) d;
               d = outb dv 0x1F7 0x20 d
           in case waitdisk dv d of
                None \<Rightarrow> None
              | Some d \<Rightarrow> Some (insl dv 0x1F0 dst (SECTSIZE div 4) (fst s, d))))"

partial_function (option) readseg_loop ::
    "'d device \<Rightarrow> u32 \<Rightarrow> u32 \<Rightarrow> u32 \<Rightarrow> mem \<times> 'd \<Rightarrow> (mem \<times> 'd) option" where
  "readseg_loop dv end_pa pa offset s =
     (if pa < end_pa
      then (case readsect dv pa offset s of
              None \<Rightarrow> None
            | Some s \<Rightarrow> readseg_loop dv end_pa (pa + SECTSIZE) (offset + 1) s)
      else Some s)"

definition readseg :: "'d device \<Rightarrow> u32 \<Rightarrow> u32 \<Rightarrow> u32 \<Rightarrow> mem \<times> 'd \<Rightarrow> (mem \<times> 'd) option" where
  "readseg dv pa count offset s =
     (let end_pa = pa + count;
          pa = pa AND NOT (SECTSIZE - 1);
          offset = offset div SECTSIZE + 1
      in readseg_loop dv end_pa pa offset s)"

text \<open>The loop over the program headers; \<open>ph\<close> and \<open>eph\<close> point to headers of 32 bytes.\<close>

partial_function (option) load_loop :: "'d device \<Rightarrow> u32 \<Rightarrow> u32 \<Rightarrow> mem \<times> 'd \<Rightarrow> (mem \<times> 'd) option" where
  "load_loop dv ph eph s =
     (if ph < eph
      then (let p = Proghdr_at (fst s) ph in
            case readseg dv (p_pa p) (p_memsz p) (p_offset p) s of
              None \<Rightarrow> None
            | Some s \<Rightarrow> load_loop dv (ph + 32) eph s)
      else Some s)"

text \<open>\<open>bootmain\<close> ends by jumping to the kernel's entry, or by spinning after the two writes
  at \<open>bad\<close>.\<close>

datatype boot_end = Enter u32 | Spin

definition bootmain :: "'d device \<Rightarrow> mem \<times> 'd \<Rightarrow> (boot_end \<times> mem \<times> 'd) option" where
  "bootmain dv s =
     (case readseg dv ELFHDR (SECTSIZE * 8) 0 s of
        None \<Rightarrow> None
      | Some s \<Rightarrow>
          (if e_magic (Elf_at (fst s) ELFHDR) \<noteq> ELF_MAGIC
           then Some (Spin, fst s, outw dv 0x8A00 0x8E00 (outw dv 0x8A00 0x8A00 (snd s)))
           else
             (let ph = ELFHDR + e_phoff (Elf_at (fst s) ELFHDR);
                  eph = ph + 32 * ucast (e_phnum (Elf_at (fst s) ELFHDR))
              in case load_loop dv ph eph s of
                   None \<Rightarrow> None
                 | Some s \<Rightarrow> Some (Enter (e_entry (Elf_at (fst s) ELFHDR)), s))))"

section \<open>The disk\<close>

text \<open>The state of a drive as the loader sees it: idle, or in the transfer of a sector of
  which some words have been read; and the content of its registers. \<open>img\<close> is the content
  of the disk by byte number.\<close>

datatype phase = Idle | Xfer u32 nat

definition ready :: "byte \<Rightarrow> bool" where
  "ready x \<longleftrightarrow> x AND 0xC0 = 0x40"

definition lba_of :: "(u16 \<Rightarrow> byte) \<Rightarrow> u32" where
  "lba_of reg = ucast (reg 0x1F3) OR push_bit 8 (ucast (reg 0x1F4)) OR push_bit 16 (ucast (reg 0x1F5))
     OR push_bit 24 (ucast (reg 0x1F6 AND 0x0F))"

definition word_of_bytes :: "(nat \<Rightarrow> byte) \<Rightarrow> nat \<Rightarrow> u32" where
  "word_of_bytes f i = ucast (f i) OR push_bit 8 (ucast (f (i + 1))) OR push_bit 16 (ucast (f (i + 2)))
     OR push_bit 24 (ucast (f (i + 3)))"

text \<open>\<open>ph\<close> is the phase, \<open>reg\<close> the registers, and \<open>rdy\<close> says that the drive is not busy. Looking at the status
  register changes neither phase nor registers, and when the ready answer comes the drive is not
  busy. Registers that are written while it is not busy and idle keep their value. The read command of
  one sector by its number, for drive 0, starts a transfer, for which the drive may be busy as long as it likes;
  once it is not, the data port gives the words of the sector one after the other; after the last one
  the drive is idle and may be busy again. Nothing is said of any access to a busy drive but looking.\<close>

definition disk_laws :: "'d device \<Rightarrow> ('d \<Rightarrow> phase) \<Rightarrow> ('d \<Rightarrow> u16 \<Rightarrow> byte) \<Rightarrow> (nat \<Rightarrow> byte) \<Rightarrow> bool" where
  "disk_laws dv ph reg img \<longleftrightarrow> (\<exists>rdy.
     (\<forall>d. \<exists>xs y d'. answers dv 0x1F7 (xs @ [y]) d d' \<and> (\<forall>x \<in> set xs. \<not> ready x) \<and> ready y
          \<and> rdy d' \<and> ph d' = ph d \<and> reg d' = reg d)
   \<and> (\<forall>d port x. rdy d \<longrightarrow> ph d = Idle \<longrightarrow> port \<in> {0x1F2, 0x1F3, 0x1F4, 0x1F5, 0x1F6} \<longrightarrow>
          rdy (outb dv port x d) \<and> ph (outb dv port x d) = Idle \<and> reg (outb dv port x d) = (reg d)(port := x))
   \<and> (\<forall>d. rdy d \<longrightarrow> ph d = Idle \<longrightarrow> reg d 0x1F2 = 1 \<longrightarrow> bit (reg d 0x1F6) 6 \<longrightarrow> \<not> bit (reg d 0x1F6) 4 \<longrightarrow>
          ph (outb dv 0x1F7 0x20 d) = Xfer (lba_of (reg d)) 0)
   \<and> (\<forall>d n i. rdy d \<longrightarrow> ph d = Xfer n i \<longrightarrow> i < 128 \<longrightarrow>
          fst (inl dv 0x1F0 d) = word_of_bytes img (512 * unat n + 4 * i)
          \<and> ph (snd (inl dv 0x1F0 d)) = (if i = 127 then Idle else Xfer n (i + 1))
          \<and> (i < 127 \<longrightarrow> rdy (snd (inl dv 0x1F0 d)))))"

text \<open>The same with the drive's own notion of being ready fixed.\<close>

definition disk_ready :: "'d device \<Rightarrow> ('d \<Rightarrow> phase) \<Rightarrow> ('d \<Rightarrow> u16 \<Rightarrow> byte) \<Rightarrow> (nat \<Rightarrow> byte) \<Rightarrow> ('d \<Rightarrow> bool) \<Rightarrow> bool" where
  "disk_ready dv ph reg img rdy \<longleftrightarrow>
     (\<forall>d. \<exists>d'. waitdisk dv d = Some d' \<and> rdy d' \<and> ph d' = ph d \<and> reg d' = reg d)
   \<and> (\<forall>d port x. rdy d \<longrightarrow> ph d = Idle \<longrightarrow> port \<in> {0x1F2, 0x1F3, 0x1F4, 0x1F5, 0x1F6} \<longrightarrow>
          rdy (outb dv port x d) \<and> ph (outb dv port x d) = Idle \<and> reg (outb dv port x d) = (reg d)(port := x))
   \<and> (\<forall>d. rdy d \<longrightarrow> ph d = Idle \<longrightarrow> reg d 0x1F2 = 1 \<longrightarrow> bit (reg d 0x1F6) 6 \<longrightarrow> \<not> bit (reg d 0x1F6) 4 \<longrightarrow>
          ph (outb dv 0x1F7 0x20 d) = Xfer (lba_of (reg d)) 0)
   \<and> (\<forall>d n i. rdy d \<longrightarrow> ph d = Xfer n i \<longrightarrow> i < 128 \<longrightarrow>
          fst (inl dv 0x1F0 d) = word_of_bytes img (512 * unat n + 4 * i)
          \<and> ph (snd (inl dv 0x1F0 d)) = (if i = 127 then Idle else Xfer n (i + 1))
          \<and> (i < 127 \<longrightarrow> rdy (snd (inl dv 0x1F0 d))))"

lemma waitdisk_returns:
  assumes "disk_laws dv ph reg img"
  obtains rdy where "disk_ready dv ph reg img rdy"
proof -
  from assms obtain rdy where
    look: "\<forall>d. \<exists>xs y d'. answers dv 0x1F7 (xs @ [y]) d d' \<and> (\<forall>x \<in> set xs. \<not> ready x) \<and> ready y
          \<and> rdy d' \<and> ph d' = ph d \<and> reg d' = reg d"
    and rest: "\<forall>d port x. rdy d \<longrightarrow> ph d = Idle \<longrightarrow> port \<in> {0x1F2, 0x1F3, 0x1F4, 0x1F5, 0x1F6} \<longrightarrow>
          rdy (outb dv port x d) \<and> ph (outb dv port x d) = Idle \<and> reg (outb dv port x d) = (reg d)(port := x)"
      "\<forall>d. rdy d \<longrightarrow> ph d = Idle \<longrightarrow> reg d 0x1F2 = 1 \<longrightarrow> bit (reg d 0x1F6) 6 \<longrightarrow> \<not> bit (reg d 0x1F6) 4 \<longrightarrow>
          ph (outb dv 0x1F7 0x20 d) = Xfer (lba_of (reg d)) 0"
      "\<forall>d n i. rdy d \<longrightarrow> ph d = Xfer n i \<longrightarrow> i < 128 \<longrightarrow>
          fst (inl dv 0x1F0 d) = word_of_bytes img (512 * unat n + 4 * i)
          \<and> ph (snd (inl dv 0x1F0 d)) = (if i = 127 then Idle else Xfer n (i + 1))
          \<and> (i < 127 \<longrightarrow> rdy (snd (inl dv 0x1F0 d)))"
    unfolding disk_laws_def by (elim exE conjE)
  have "\<exists>d'. waitdisk dv d = Some d' \<and> rdy d' \<and> ph d' = ph d \<and> reg d' = reg d" for d
  proof -
    obtain xs y d' where "answers dv 0x1F7 (xs @ [y]) d d'" "\<forall>x \<in> set xs. \<not> ready x" "ready y"
      "rdy d'" "ph d' = ph d" "reg d' = reg d"
      using look by blast
    then show ?thesis
      unfolding waitdisk_def using poll_returns [of dv "0x1F7" xs y d d' ready]
      by (auto simp: ready_def [abs_def])
  qed
  with rest show thesis by (intro that [of rdy]) (simp add: disk_ready_def)
qed

lemma byte_of_word:
  assumes "j < 4"
  shows "ucast (drop_bit (8 * j) (word_of_bytes f i)) = f (i + j)"
proof -
  have "j = 0 \<or> j = 1 \<or> j = 2 \<or> j = 3" using assms by linarith
  then show ?thesis
    by (elim disjE; hypsubst; intro bit_word_eqI) (auto simp: word_of_bytes_def bit_simps)
qed

text \<open>The registers hold the 28 bits of the sector number.\<close>

lemma lba_roundtrip:
  assumes "unat offset < 268435456"
    and "reg 0x1F3 = ucast offset" "reg 0x1F4 = ucast (drop_bit 8 offset)" "reg 0x1F5 = ucast (drop_bit 16 offset)"
    and "reg 0x1F6 = ucast (drop_bit 24 offset OR 0xE0)"
  shows "lba_of reg = offset" "bit (reg 0x1F6) 6" "\<not> bit (reg 0x1F6) 4"
proof -
  have e0: "(0xE0 :: u32) = push_bit 5 (mask 3)" and f: "(0x0F :: byte) = mask 4"
    by (simp_all add: mask_eq_exp_minus_1)
  show "bit (reg 0x1F6) 6" unfolding assms(5) e0 by (simp add: bit_simps)
  have "offset = take_bit 28 offset"
    using assms(1) by (simp add: word_unat_eq_iff unsigned_take_bit_eq take_bit_nat_eq_self)
  then have hi: "\<not> bit offset n" if "28 \<le> n" for n
    using that by (metis bit_take_bit_iff not_le)
  have "\<not> bit offset 28" by (rule hi) simp
  then show "\<not> bit (reg 0x1F6) 4" unfolding assms(5) e0 by (simp add: bit_simps)
  show "lba_of reg = offset"
  proof (rule bit_word_eqI)
    fix n :: nat assume "n < LENGTH(32)"
    then consider "n < 8" | "8 \<le> n \<and> n < 16" | "16 \<le> n \<and> n < 24" | "24 \<le> n \<and> n < 28" | "28 \<le> n \<and> n < 32"
      by fastforce
    then show "bit (lba_of reg) n = bit offset n"
      by cases (use hi in \<open>auto simp: lba_of_def assms(2-5) e0 f bit_simps\<close>)
  qed
qed

section \<open>Reading a sector\<close>

lemma rep_insl_transfer:
  assumes laws: "disk_ready dv ph reg img rdy"
  shows "k \<le> 128 \<Longrightarrow> ph d = (if k = 0 then Idle else Xfer n (128 - k)) \<Longrightarrow> (k \<noteq> 0 \<longrightarrow> rdy d) \<Longrightarrow>
   \<exists>d'. rep_insl dv 0x1F0 a k (m, d)
        = ((\<lambda>x. if in_reg a (4 * k) x then img (512 * unat n + 4 * (128 - k) + unat (x - a)) else m x), d')
     \<and> ph d' = Idle"
proof (induction k arbitrary: a m d)
  case 0
  then show ?case by simp
next
  case (Suc k)
  let ?i = "128 - Suc k"
  have i: "?i < 128" "Suc ?i = 128 - k" "4 * (128 - k) = 4 * ?i + 4" using Suc.prems by simp_all
  let ?w = "word_of_bytes img (512 * unat n + 4 * ?i)"
  have start: "rdy d" "ph d = Xfer n ?i" using Suc.prems by simp_all
  obtain d1 where in1: "inl dv 0x1F0 d = (?w, d1)" and ph1: "ph d1 = (if ?i = 127 then Idle else Xfer n (?i + 1))"
    and rdy1: "?i < 127 \<longrightarrow> rdy d1"
    using laws start i(1) unfolding disk_ready_def by (metis prod.exhaust_sel)
  have "ph d1 = (if k = 0 then Idle else Xfer n (128 - k))"
    using ph1 Suc.prems(1) by (cases "k = 0") auto
  moreover have "k \<noteq> 0 \<longrightarrow> rdy d1" using rdy1 by auto
  ultimately obtain d' where rest: "rep_insl dv 0x1F0 (a + 4) k (store32 m a ?w, d1)
        = ((\<lambda>x. if in_reg (a + 4) (4 * k) x then img (512 * unat n + 4 * (128 - k) + unat (x - (a + 4)))
                else store32 m a ?w x), d')" and idle: "ph d' = Idle"
    using Suc.IH [of d1 "a + 4" "store32 m a ?w"] Suc.prems(1) by auto
  have "(if in_reg (a + 4) (4 * k) x then img (512 * unat n + 4 * (128 - k) + unat (x - (a + 4)))
            else store32 m a ?w x)
      = (if in_reg a (4 * Suc k) x then img (512 * unat n + 4 * ?i + unat (x - a)) else m x)" for x
  proof -
    have split: "in_reg a (4 * Suc k) x \<longleftrightarrow> in_reg a 4 x \<or> in_reg (a + 4) (4 * k) x"
      using in_reg_add [of 4 "4 * k" a x] Suc.prems(1) by simp
    have "x - (a + 4) = x - a - 4" by (simp add: diff_diff_eq)
    then have off: "unat (x - (a + 4)) = (if 4 \<le> unat (x - a) then unat (x - a) - 4 else unat (x - a) + 4294967292)"
      by (simp only: unat_diff_word [of "x - a" 4]) simp
    have disj: "4 \<le> unat (x - a)" if "in_reg (a + 4) (4 * k) x"
      using that Suc.prems(1) unfolding in_reg_def off by (auto split: if_splits)
    show ?thesis
    proof (cases "in_reg (a + 4) (4 * k) x")
      case True
      then show ?thesis using disj split off i(3) by (simp add: add.commute add.left_commute)
    next
      case False
      then show ?thesis using split byte_of_word [of "unat (x - a)" img "512 * unat n + 4 * ?i"]
        by (simp add: store32_apply in_reg_def [of a 4])
    qed
  qed
  then show ?case using in1 rest idle by simp
qed

definition sector_read :: "(nat \<Rightarrow> byte) \<Rightarrow> u32 \<Rightarrow> u32 \<Rightarrow> mem \<Rightarrow> mem" where
  "sector_read img dst offset m x = (if in_reg dst 512 x then img (512 * unat offset + unat (x - dst)) else m x)"

lemma readsect_reads:
  assumes disk: "disk_laws dv ph reg img" and idle: "ph d = Idle" and off: "unat offset < 268435456"
  shows "\<exists>d'. readsect dv dst offset (m, d) = Some (sector_read img dst offset m, d') \<and> ph d' = Idle"
proof -
  obtain rdy where laws: "disk_ready dv ph reg img rdy" by (rule waitdisk_returns [OF disk])
  have wait: "\<exists>d'. waitdisk dv d = Some d' \<and> rdy d' \<and> ph d' = ph d \<and> reg d' = reg d" for d
    using laws unfolding disk_ready_def by blast
  have regs: "rdy (outb dv port x d) \<and> ph (outb dv port x d) = Idle \<and> reg (outb dv port x d) = (reg d)(port := x)"
    if "rdy d" "ph d = Idle" "port \<in> {0x1F2, 0x1F3, 0x1F4, 0x1F5, 0x1F6}" for port x d
    using laws that unfolding disk_ready_def by blast
  obtain d1 where d1: "waitdisk dv d = Some d1" "rdy d1" "ph d1 = Idle"
    using wait [of d] idle by auto
  define d2 where "d2 = outb dv 0x1F6 (ucast (drop_bit 24 offset OR 0xE0)) (outb dv 0x1F5 (ucast (drop_bit 16 offset))
     (outb dv 0x1F4 (ucast (drop_bit 8 offset)) (outb dv 0x1F3 (ucast offset) (outb dv 0x1F2 1 d1))))"
  have ph2: "rdy d2" "ph d2 = Idle" and reg2: "reg d2 = (reg d1)(0x1F2 := 1, 0x1F3 := ucast offset,
      0x1F4 := ucast (drop_bit 8 offset), 0x1F5 := ucast (drop_bit 16 offset),
      0x1F6 := ucast (drop_bit 24 offset OR 0xE0))"
    using d1(2,3) by (simp_all add: d2_def regs)
  have lba: "lba_of (reg d2) = offset" "bit (reg d2 0x1F6) 6" "\<not> bit (reg d2 0x1F6) 4"
    by (rule lba_roundtrip [OF off]; simp add: reg2)+
  have "reg d2 0x1F2 = 1" by (simp add: reg2)
  then have ph3: "ph (outb dv 0x1F7 0x20 d2) = Xfer offset 0"
    using laws ph2 lba unfolding disk_ready_def by metis
  obtain d4 where d4: "waitdisk dv (outb dv 0x1F7 0x20 d2) = Some d4" "rdy d4" "ph d4 = Xfer offset 0"
    using wait [of "outb dv 0x1F7 0x20 d2"] ph3 by auto
  obtain d5 where d5: "rep_insl dv 0x1F0 dst 128 (m, d4)
        = ((\<lambda>x. if in_reg dst (4 * 128) x then img (512 * unat offset + 4 * (128 - 128) + unat (x - dst)) else m x), d5)"
      "ph d5 = Idle"
    using rep_insl_transfer [OF laws, of 128 d4 offset dst m] d4(2,3) by auto
  have "readsect dv dst offset (m, d) = Some (insl dv 0x1F0 dst (SECTSIZE div 4) (m, d4))"
    using d1(1) d4(1) by (simp add: readsect_def Let_def d2_def)
  also have "insl dv 0x1F0 dst (SECTSIZE div 4) (m, d4) = (sector_read img dst offset m, d5)"
    using d5(1) by (auto simp: insl_def SECTSIZE_def sector_read_def)
  finally show ?thesis using d5(2) by blast
qed

section \<open>Loading a segment\<close>

text \<open>What \<open>readseg\<close> does to memory: whole sectors are read, from the sector boundary at or
  below the address on, beginning with the sector of the offset (one further: the kernel
  starts at sector 1).\<close>

definition load_seg :: "(nat \<Rightarrow> byte) \<Rightarrow> nat \<Rightarrow> nat \<Rightarrow> nat \<Rightarrow> mem \<Rightarrow> mem" where
  "load_seg img pa count offset m x =
     (if pa div 512 * 512 \<le> unat x \<and> unat x < (pa + count + 511) div 512 * 512
      then img (512 * (offset div 512 + 1) + (unat x - pa div 512 * 512)) else m x)"

lemma sector_read_nat:
  assumes "unat pa + 512 \<le> 4294967296"
  shows "sector_read img pa offset m x = (if unat pa \<le> unat x \<and> unat x < unat pa + 512
    then img (512 * unat offset + (unat x - unat pa)) else m x)"
  using assms by (simp add: sector_read_def in_reg_nat unat_diff_word)

lemma readseg_loop_reads:
  assumes laws: "disk_laws dv ph reg img"
  shows "ph d = Idle \<Longrightarrow> unat pa mod 512 = 0 \<Longrightarrow> unat end_pa \<le> 4294966784 \<Longrightarrow>
    unat offset + N < 268435456 \<Longrightarrow> N = (unat end_pa + 511) div 512 - unat pa div 512 \<Longrightarrow>
    \<exists>d'. readseg_loop dv end_pa pa offset (m, d)
        = Some ((\<lambda>x. if unat pa \<le> unat x \<and> unat x < unat pa + 512 * N
                     then img (512 * unat offset + (unat x - unat pa)) else m x), d')
      \<and> ph d' = Idle"
proof (induction N arbitrary: pa offset m d)
  case 0
  then have "\<not> pa < end_pa" unfolding word_less_nat_alt by linarith
  moreover have "(\<lambda>x. if unat pa \<le> unat x \<and> unat x < unat pa + 512 * 0
      then img (512 * unat offset + (unat x - unat pa)) else m x) = m" by (rule ext) auto
  ultimately show ?case using 0(1) by (subst readseg_loop.simps) simp
next
  case (Suc N)
  have lt: "unat pa < unat end_pa"
    using Suc.prems(2,5) div_mult_mod_eq [of "unat pa" 512] by linarith
  then have lt': "pa < end_pa" by (simp add: word_less_nat_alt)
  have pa: "unat (pa + 512) = unat pa + 512" and offs: "unat (offset + 1) = unat offset + 1"
    using lt Suc.prems(3,4) by (simp_all add: unat_add_word del: unat_lt32)
  obtain d1 where d1: "readsect dv pa offset (m, d) = Some (sector_read img pa offset m, d1)" "ph d1 = Idle"
    using readsect_reads [OF laws Suc.prems(1), of offset pa m] Suc.prems(4) by auto
  have N: "N = (unat end_pa + 511) div 512 - unat (pa + 512) div 512"
    using Suc.prems(5) unfolding pa by simp
  have al: "unat (pa + 512) mod 512 = 0" using Suc.prems(2) pa by simp
  have room: "unat (offset + 1) + N < 268435456" using Suc.prems(4) offs by simp
  obtain d' where rest: "readseg_loop dv end_pa (pa + 512) (offset + 1) (sector_read img pa offset m, d1)
        = Some ((\<lambda>x. if unat (pa + 512) \<le> unat x \<and> unat x < unat (pa + 512) + 512 * N
                     then img (512 * unat (offset + 1) + (unat x - unat (pa + 512)))
                     else sector_read img pa offset m x), d')" and idle: "ph d' = Idle"
    using Suc.IH [OF d1(2) al Suc.prems(3) room N] by blast
  have fits: "unat pa + 512 \<le> 4294967296" using lt Suc.prems(3) by linarith
  have eq: "(if unat (pa + 512) \<le> unat x \<and> unat x < unat (pa + 512) + 512 * N
        then img (512 * unat (offset + 1) + (unat x - unat (pa + 512))) else sector_read img pa offset m x)
      = (if unat pa \<le> unat x \<and> unat x < unat pa + 512 * Suc N
         then img (512 * unat offset + (unat x - unat pa)) else m x)" for x
    unfolding pa offs sector_read_nat [OF fits]
  proof (cases "unat pa + 512 \<le> unat x")
    case True
    then have "512 * (unat offset + 1) + (unat x - (unat pa + 512)) = 512 * unat offset + (unat x - unat pa)" by simp
    then show "(if unat pa + 512 \<le> unat x \<and> unat x < unat pa + 512 + 512 * N
        then img (512 * (unat offset + 1) + (unat x - (unat pa + 512)))
        else if unat pa \<le> unat x \<and> unat x < unat pa + 512 then img (512 * unat offset + (unat x - unat pa)) else m x)
      = (if unat pa \<le> unat x \<and> unat x < unat pa + 512 * Suc N
         then img (512 * unat offset + (unat x - unat pa)) else m x)"
      using True by simp
  qed auto
  show ?case
    using lt' d1(1) rest idle unfolding eq by (subst readseg_loop.simps) (simp add: SECTSIZE_def)
qed

lemma unat_round_512: "unat (pa AND NOT (SECTSIZE - 1)) = unat pa div 512 * 512"
proof -
  have "SECTSIZE - 1 = mask 9" by (simp add: SECTSIZE_def mask_eq_exp_minus_1)
  then have "pa AND NOT (SECTSIZE - 1) = push_bit 9 (drop_bit 9 pa)"
    by (simp only:) (rule bit_word_eqI, auto simp: bit_simps)
  moreover have "unat pa div 512 * 512 < 4294967296" using unat_lt32 [of pa] by linarith
  ultimately show ?thesis by (simp only: unat_push_bit32 unat_drop_bit32) simp
qed

lemma load_seg_base:
  "load_seg img (k * 512) c off m x =
     (if k * 512 \<le> unat x \<and> unat x < (k * 512 + c + 511) div 512 * 512
      then img (512 * (off div 512 + 1) + (unat x - k * 512)) else m x)"
  by (simp add: load_seg_def)

lemma whole_sectors:
  fixes k e :: nat
  shows "k * 512 + 512 * ((e + 511) div 512 - k) = (k * 512 + (e - k * 512) + 511) div 512 * 512"
proof (cases "k * 512 \<le> e")
  case True
  then have "k \<le> (e + 511) div 512" by linarith
  then have "k * 512 + 512 * ((e + 511) div 512 - k) = (e + 511) div 512 * 512" by (simp add: diff_mult_distrib2)
  with True show ?thesis by simp
next
  case False
  then have "(e + 511) div 512 - k = 0" by linarith
  moreover have "(k * 512 + 511) div 512 = k" by linarith
  ultimately show ?thesis using False by simp
qed

text \<open>The end is computed modulo the address space; as long as it is not behind the beginning of the last
  sector, \<open>readseg\<close> returns, with the sectors from the rounded address up to that end.\<close>

lemma readseg_to_end:
  assumes laws: "disk_laws dv ph reg img" and idle: "ph d = Idle"
    and top: "unat (pa + count) \<le> 4294966784"
  shows "\<exists>d'. readseg dv pa count offset (m, d)
      = Some (load_seg img (unat pa div 512 * 512) (unat (pa + count) - unat pa div 512 * 512) (unat offset) m, d') \<and> ph d' = Idle"
proof -
  let ?pa = "pa AND NOT (SECTSIZE - 1)" and ?off = "offset div SECTSIZE + 1" and ?b = "unat pa div 512 * 512" and ?e = "unat (pa + count)"
  have pa: "unat ?pa = ?b" by (rule unat_round_512)
  have "unat (offset div SECTSIZE) = unat offset div 512" by (simp add: unat_div SECTSIZE_def)
  moreover have "unat offset div 512 + 1 < 8388609" using unat_lt32 [of offset] by linarith
  ultimately have off: "unat ?off = unat offset div 512 + 1" by (simp add: unat_add_word)
  let ?N = "(?e + 511) div 512 - unat ?pa div 512"
  have N: "?N = (?e + 511) div 512 - unat pa div 512" unfolding pa by simp
  have room: "unat ?off + ?N < 268435456"
    using top \<open>unat offset div 512 + 1 < 8388609\<close> unfolding off N by linarith
  have al: "unat ?pa mod 512 = 0" unfolding pa by simp
  obtain d' where run: "readseg_loop dv (pa + count) ?pa ?off (m, d)
        = Some ((\<lambda>x. if unat ?pa \<le> unat x \<and> unat x < unat ?pa + 512 * ?N
                     then img (512 * unat ?off + (unat x - unat ?pa)) else m x), d')" and idle': "ph d' = Idle"
    using readseg_loop_reads [OF laws idle al top room refl] by blast
  have "?b + 512 * ?N = (?b + (?e - ?b) + 511) div 512 * 512"
    unfolding N by (rule whole_sectors)
  then have "(\<lambda>x. if unat ?pa \<le> unat x \<and> unat x < unat ?pa + 512 * ?N
      then img (512 * unat ?off + (unat x - unat ?pa)) else m x)
      = load_seg img ?b (?e - ?b) (unat offset) m"
    unfolding pa off fun_eq_iff load_seg_base by simp
  then show ?thesis using run idle' by (simp add: readseg_def Let_def)
qed

lemma readseg_reads:
  assumes laws: "disk_laws dv ph reg img" and idle: "ph d = Idle"
    and top: "unat pa + unat count \<le> 4294966784"
  shows "\<exists>d'. readseg dv pa count offset (m, d)
      = Some (load_seg img (unat pa) (unat count) (unat offset) m, d') \<and> ph d' = Idle"
proof -
  have e: "unat (pa + count) = unat pa + unat count" using top by (simp add: unat_add_word)
  have "unat pa div 512 * 512 + (unat pa + unat count - unat pa div 512 * 512) = unat pa + unat count"
    using div_times_less_eq_dividend [of "unat pa" 512] by linarith
  then have "load_seg img (unat pa div 512 * 512) (unat (pa + count) - unat pa div 512 * 512) (unat offset) m
      = load_seg img (unat pa) (unat count) (unat offset) m"
    unfolding e fun_eq_iff load_seg_base by (simp add: load_seg_def)
  then show ?thesis using readseg_to_end [OF laws idle, of pa count offset m] top e by simp
qed

section \<open>Loading the kernel\<close>

text \<open>The program headers of the image, as they lie in memory from \<open>ph\<close> on.\<close>

definition headers :: "mem \<Rightarrow> u32 \<Rightarrow> nat \<Rightarrow> Proghdr list" where
  "headers m ph n = map (\<lambda>i. Proghdr_at m (ph + of_nat (32 * i))) [0..<n]"

definition load_segs :: "(nat \<Rightarrow> byte) \<Rightarrow> Proghdr list \<Rightarrow> mem \<Rightarrow> mem" where
  "load_segs img ps m = fold (\<lambda>p. load_seg img (unat (p_pa p)) (unat (p_memsz p)) (unat (p_offset p))) ps m"

text \<open>A segment stays below the last sector of the address space and its sectors keep off the
  page of the headers.\<close>

definition seg_ok :: "Proghdr \<Rightarrow> bool" where
  "seg_ok p \<longleftrightarrow> unat (p_pa p) + unat (p_memsz p) \<le> 4294966784
     \<and> ((unat (p_pa p) + unat (p_memsz p) + 511) div 512 * 512 \<le> 65536 \<or> 69632 \<le> unat (p_pa p) div 512 * 512)"

lemma load_seg_header:
  "seg_ok p \<Longrightarrow> in_reg ELFHDR 4096 x \<Longrightarrow>
   load_seg img (unat (p_pa p)) (unat (p_memsz p)) (unat (p_offset p)) m x = m x"
  by (auto simp: seg_ok_def load_seg_def ELFHDR_def in_reg_nat)

lemma Elf_at_cong:
  assumes "\<And>x. in_reg a 4096 x \<Longrightarrow> m x = m' x"
  shows "Elf_at m a = Elf_at m' a"
proof -
  have sub: "in_reg a 4096 (a + of_nat k)" if "k < 4096" for k
    using that in_reg_index [of k 4096 a] by simp
  have l32: "load32 m (a + of_nat k) = load32 m' (a + of_nat k)" if "k + 4 \<le> 4096" for k
  proof (rule load32_cong)
    fix x assume "in_reg (a + of_nat k) 4 x"
    then have "in_reg a (k + 4) x" using that by (subst in_reg_add) simp_all
    then show "m x = m' x" using that by (intro assms) (rule in_reg_mono)
  qed
  have l16: "load16 m (a + of_nat k) = load16 m' (a + of_nat k)" if "k + 2 \<le> 4096" for k
    using assms [OF sub [of k]] assms [OF sub [of "Suc k"]] that
    by (intro load16_cong) (simp_all add: ac_simps)
  have rd: "mem_read m (a + 4) 12 = mem_read m' (a + 4) 12"
  proof (rule mem_read_cong)
    fix x assume "in_reg (a + 4) 12 x"
    then have "in_reg a (4 + 12) x" by (subst in_reg_add) simp_all
    then have "in_reg a 4096 x" by (rule in_reg_mono) simp
    then show "m x = m' x" by (rule assms)
  qed simp
  show ?thesis
    using l32 [of 0] l32 [of 20] l32 [of 24] l32 [of 28] l32 [of 32] l32 [of 36] rd
      l16 [of 16] l16 [of 18] l16 [of 40] l16 [of 42] l16 [of 44] l16 [of 46] l16 [of 48] l16 [of 50]
    by (simp add: Elf_at_def)
qed

lemma Proghdr_at_cong:
  assumes "\<And>x. in_reg a 32 x \<Longrightarrow> m x = m' x"
  shows "Proghdr_at m a = Proghdr_at m' a"
proof -
  have l32: "load32 m (a + of_nat k) = load32 m' (a + of_nat k)" if "k + 4 \<le> 32" for k
  proof (rule load32_cong)
    fix x assume "in_reg (a + of_nat k) 4 x"
    then have "in_reg a (k + 4) x" using that by (subst in_reg_add) simp_all
    then show "m x = m' x" using that by (intro assms) (rule in_reg_mono)
  qed
  show ?thesis
    using l32 [of 0] l32 [of 4] l32 [of 8] l32 [of 12] l32 [of 16] l32 [of 20] l32 [of 24] l32 [of 28]
    by (simp add: Proghdr_at_def)
qed

lemma load_loop_loads:
  assumes laws: "disk_laws dv ph reg img"
  shows "ph d = Idle \<Longrightarrow> unat p0 + 32 * n \<le> 69632 \<Longrightarrow> 65536 \<le> unat p0 \<Longrightarrow>
    (\<forall>p \<in> set (headers m p0 n). seg_ok p) \<Longrightarrow>
    \<exists>d'. load_loop dv p0 (p0 + of_nat (32 * n)) (m, d) = Some (load_segs img (headers m p0 n) m, d') \<and> ph d' = Idle"
proof (induction n arbitrary: p0 m d)
  case 0
  then show ?case by (subst load_loop.simps) (simp add: headers_def load_segs_def)
next
  case (Suc n)
  let ?p = "Proghdr_at m p0"
  let ?m1 = "load_seg img (unat (p_pa ?p)) (unat (p_memsz ?p)) (unat (p_offset ?p)) m"
  have hd: "headers m p0 (Suc n) = ?p # headers m (p0 + 32) n"
    by (simp add: headers_def upt_conv_Cons map_Suc_upt [symmetric] del: upt_Suc) (simp add: add.assoc)
  have ok: "seg_ok ?p" "\<forall>p \<in> set (headers m (p0 + 32) n). seg_ok p" using Suc.prems(4) unfolding hd by simp_all
  obtain d1 where d1: "readseg dv (p_pa ?p) (p_memsz ?p) (p_offset ?p) (m, d) = Some (?m1, d1)" "ph d1 = Idle"
    using readseg_reads [OF laws Suc.prems(1), of "p_pa ?p" "p_memsz ?p" "p_offset ?p" m] ok(1)
    by (auto simp: seg_ok_def)
  have p0: "unat (p0 + 32) = unat p0 + 32" using Suc.prems(2) by (simp add: unat_add_word)
  have same: "headers ?m1 (p0 + 32) n = headers m (p0 + 32) n"
    unfolding headers_def
  proof (rule map_cong [OF refl], rule Proghdr_at_cong)
    fix i x assume i: "i \<in> set [0..<n]" and x: "in_reg (p0 + 32 + of_nat (32 * i)) 32 x"
    have "unat (of_nat (32 * i) :: u32) = 32 * i" using i Suc.prems(2) by (intro unat_of_nat32) simp
    then have "unat (p0 + 32 + of_nat (32 * i)) = unat p0 + 32 + 32 * i"
      using i Suc.prems(2) p0 by (simp add: unat_add_word)
    then have "in_reg ELFHDR 4096 x" using x i Suc.prems(2,3) by (simp add: in_reg_nat ELFHDR_def)
    then show "?m1 x = m x" by (rule load_seg_header [OF ok(1)])
  qed
  have room: "unat (p0 + 32) + 32 * n \<le> 69632" "65536 \<le> unat (p0 + 32)" using Suc.prems(2,3) p0 by simp_all
  obtain d' where rest: "load_loop dv (p0 + 32) (p0 + 32 + of_nat (32 * n)) (?m1, d1)
      = Some (load_segs img (headers ?m1 (p0 + 32) n) ?m1, d')" "ph d' = Idle"
    using Suc.IH [OF d1(2) room, of ?m1] ok(2) unfolding same by blast
  have end_eq: "p0 + of_nat (32 * Suc n) = p0 + 32 + of_nat (32 * n)" by (simp add: add.assoc)
  have "unat (of_nat (32 * Suc n) :: u32) = 32 * Suc n" using Suc.prems(2) by (intro unat_of_nat32) simp
  then have "p0 < p0 + of_nat (32 * Suc n)"
    using Suc.prems(2) unfolding word_less_nat_alt by (simp only: unat_add_word) simp
  then show ?case
    using d1(1) rest unfolding hd end_eq
    by (subst load_loop.simps) (simp add: Let_def same load_segs_def)
qed

section \<open>The rest of the devices\<close>

text \<open>The loader uses the ports of the disk only, so that what these do not touch is kept.\<close>

definition disk_keeps :: "'d device \<Rightarrow> ('d \<Rightarrow> 'o) \<Rightarrow> bool" where
  "disk_keeps dv obs \<longleftrightarrow> (\<forall>d. obs (snd (inb dv 0x1F7 d)) = obs d) \<and> (\<forall>d. obs (snd (inl dv 0x1F0 d)) = obs d)
     \<and> (\<forall>d port x. port \<in> {0x1F2, 0x1F3, 0x1F4, 0x1F5, 0x1F6, 0x1F7} \<longrightarrow> obs (outb dv port x d) = obs d)"

lemma rep_insl_keeps:
  assumes "disk_keeps dv obs"
  shows "obs (snd (rep_insl dv 0x1F0 a n (m, d))) = obs d"
proof (induction n arbitrary: a m d)
  case (Suc n)
  have "obs (snd (inl dv 0x1F0 d)) = obs d" using assms by (simp add: disk_keeps_def)
  with Suc show ?case by (cases "inl dv 0x1F0 d") simp
qed simp

lemma readsect_keeps:
  assumes "disk_keeps dv obs" and "readsect dv dst offset s = Some s'"
  shows "obs (snd s') = obs (snd s)"
proof -
  have w: "obs d' = obs d" if "waitdisk dv d = Some d'" for d d'
    using that unfolding waitdisk_def
    by (rule poll_keeps [where obs = obs, rotated]) (use assms(1) in \<open>simp add: disk_keeps_def\<close>)
  have outs: "\<forall>d port x. port \<in> {0x1F2, 0x1F3, 0x1F4, 0x1F5, 0x1F6, 0x1F7} \<longrightarrow> obs (outb dv port x d) = obs d"
    using assms(1) unfolding disk_keeps_def by (elim conjE)
  have o: "obs (outb dv port x d) = obs d" if "port \<in> {0x1F2, 0x1F3, 0x1F4, 0x1F5, 0x1F6, 0x1F7}" for port x d
    by (rule outs [rule_format, OF that])
  obtain d1 where d1: "waitdisk dv (snd s) = Some d1"
    using assms(2) by (auto simp: readsect_def split: option.splits)
  let ?d2 = "outb dv 0x1F7 0x20 (outb dv 0x1F6 (ucast (drop_bit 24 offset OR 0xE0)) (outb dv 0x1F5 (ucast (drop_bit 16 offset))
     (outb dv 0x1F4 (ucast (drop_bit 8 offset)) (outb dv 0x1F3 (ucast offset) (outb dv 0x1F2 1 d1)))))"
  obtain d3 where d3: "waitdisk dv ?d2 = Some d3" "s' = insl dv 0x1F0 dst (SECTSIZE div 4) (fst s, d3)"
    using assms(2) by (auto simp: readsect_def d1 Let_def split: option.splits)
  have "obs ?d2 = obs d1" by (simp add: o)
  moreover have "obs (snd s') = obs d3" unfolding d3(2) insl_def by (rule rep_insl_keeps [OF assms(1)])
  ultimately show ?thesis using w [OF d1] w [OF d3(1)] by simp
qed

lemma readseg_keeps:
  assumes keeps: "disk_keeps dv obs" and "readseg dv pa count offset s = Some s'"
  shows "obs (snd s') = obs (snd s)"
proof -
  have loop: "disk_keeps dv obs \<longrightarrow> obs (snd s') = obs (snd s)" if "readseg_loop dv end_pa pa offset s = Some s'"
    for end_pa pa offset s s'
  proof (induction rule: readseg_loop.raw_induct [OF _ that])
    case (1 f dv end_pa pa offset s s')
    show ?case
    proof (cases "pa < end_pa")
      case True
      then obtain s1 where "readsect dv pa offset s = Some s1" "f dv end_pa (pa + SECTSIZE) (offset + 1) s1 = Some s'"
        using 1(2) by (auto split: option.splits)
      then show ?thesis using 1(1) readsect_keeps [of dv obs] by auto
    next
      case False
      then show ?thesis using 1(2) by simp
    qed
  qed
  show ?thesis using assms(2) loop keeps unfolding readseg_def Let_def by blast
qed

lemma load_loop_keeps:
  assumes "load_loop dv ph eph s = Some s'" and "disk_keeps dv obs"
  shows "obs (snd s') = obs (snd s)"
proof -
  have "disk_keeps dv obs \<longrightarrow> obs (snd s') = obs (snd s)"
  proof (induction rule: load_loop.raw_induct [OF _ assms(1)])
    case (1 f dv ph eph s s')
    show ?case
    proof (cases "ph < eph")
      case True
      let ?p = "Proghdr_at (fst s) ph"
      obtain s1 where "readseg dv (p_pa ?p) (p_memsz ?p) (p_offset ?p) s = Some s1" "f dv (ph + 32) eph s1 = Some s'"
        using 1(2) True by (auto simp: Let_def split: option.splits)
      then show ?thesis using 1(1) readseg_keeps [of dv obs] by metis
    next
      case False
      then show ?thesis using 1(2) by simp
    qed
  qed
  then show ?thesis using assms(2) by blast
qed

lemma bootmain_keeps:
  assumes "disk_keeps dv obs" and "bootmain dv s = Some (Enter a, s')"
  shows "obs (snd s') = obs (snd s)"
proof -
  obtain s1 where s1: "readseg dv ELFHDR (SECTSIZE * 8) 0 s = Some s1"
    using assms(2) by (auto simp: bootmain_def split: option.splits)
  then have "\<exists>ph eph. load_loop dv ph eph s1 = Some s'"
    using assms(2) by (auto simp: bootmain_def Let_def split: option.splits if_splits)
  then show ?thesis using readseg_keeps [OF assms(1) s1] load_loop_keeps assms(1) by metis
qed

section \<open>A simulated drive\<close>

text \<open>A drive that is busy for three looks after a command and for one look after a sector, and that ignores
  what is written and has no data meanwhile.\<close>

record sim =
  sim_phase :: phase
  sim_reg :: "u16 \<Rightarrow> byte"
  sim_busy :: nat

definition sim_in :: "(nat \<Rightarrow> byte) \<Rightarrow> width \<Rightarrow> u16 \<Rightarrow> sim \<Rightarrow> u32 \<times> sim" where
  "sim_in img w port d =
     (if port = 0x1F7 then (if sim_busy d = 0 then (0x40, d) else (0x80, d\<lparr>sim_busy := sim_busy d - 1\<rparr>))
      else if port = 0x1F0 \<and> sim_busy d = 0
      then (case sim_phase d of
              Idle \<Rightarrow> (0, d)
            | Xfer n i \<Rightarrow> (word_of_bytes img (512 * unat n + 4 * i),
                          if i = 127 then d\<lparr>sim_phase := Idle, sim_busy := 1\<rparr> else d\<lparr>sim_phase := Xfer n (i + 1)\<rparr>))
      else (0xFFFFFFFF, d))"

definition sim_out :: "width \<Rightarrow> u16 \<Rightarrow> u32 \<Rightarrow> sim \<Rightarrow> sim" where
  "sim_out w port x d =
     (if sim_busy d \<noteq> 0 then d
      else if port = 0x1F7 then d\<lparr>sim_phase := Xfer (lba_of (sim_reg d)) 0, sim_busy := 3\<rparr>
      else d\<lparr>sim_reg := (sim_reg d)(port := ucast x)\<rparr>)"

definition sim_disk :: "(nat \<Rightarrow> byte) \<Rightarrow> sim device" where
  "sim_disk img = \<lparr>dev_in = sim_in img, dev_out = sim_out\<rparr>"

definition sim_start :: sim where "sim_start = \<lparr>sim_phase = Idle, sim_reg = (\<lambda>_. 0), sim_busy = 2\<rparr>"

lemma sim_busy_looks:
  "sim_busy d = n \<Longrightarrow> answers (sim_disk img) 0x1F7 (replicate n 0x80 @ [0x40]) d (d\<lparr>sim_busy := 0\<rparr>)"
proof (induction n arbitrary: d)
  case 0
  then show ?case by (simp add: inb_def sim_disk_def sim_in_def)
next
  case (Suc n)
  from Suc.IH [of "d\<lparr>sim_busy := n\<rparr>"] show ?case using Suc.prems by (simp add: inb_def sim_disk_def sim_in_def)
qed

lemma sim_disk_laws: "disk_laws (sim_disk img) sim_phase sim_reg img"
proof -
  have "ready 0x40" "\<not> ready 0x80" by (simp_all add: ready_def)
  then have "\<exists>xs y d'. answers (sim_disk img) 0x1F7 (xs @ [y]) d d' \<and> (\<forall>x \<in> set xs. \<not> ready x) \<and> ready y
      \<and> sim_busy d' = 0 \<and> sim_phase d' = sim_phase d \<and> sim_reg d' = sim_reg d" for d
    using sim_busy_looks [of d "sim_busy d" img]
    by (intro exI [of _ "replicate (sim_busy d) 0x80"] exI [of _ "0x40"] exI [of _ "d\<lparr>sim_busy := 0\<rparr>"]) simp
  moreover have "ucast (ucast x :: u32) = (x :: byte)" for x
    by (rule bit_word_eqI) (auto simp: bit_simps)
  ultimately show ?thesis
    unfolding disk_laws_def
    by (intro exI [of _ "\<lambda>d. sim_busy d = 0"]) (auto simp: outb_def inl_def sim_disk_def sim_in_def sim_out_def)
qed

text \<open>A disk with a kernel of one segment.\<close>

definition one_segment :: "nat \<Rightarrow> byte" where
  "one_segment = (\<lambda>_. 0)(512 := 0x7F, 513 := 0x45, 514 := 0x4C, 515 := 0x46, 538 := 0x10, 540 := 52,
     556 := 1, 564 := 1, 569 := 0x10, 578 := 0x10, 584 := 0x20)"

definition one_header :: mem where
  "one_header = load_seg one_segment 65536 4096 0 (\<lambda>_. 0)"

lemma one_header_bytes:
  "unat x < 69632 \<Longrightarrow> 65536 \<le> unat x \<Longrightarrow> one_header x = one_segment (unat x - 65024)"
  by (simp add: one_header_def load_seg_def)

section \<open>Properties\<close>

text \<open>With a drive that keeps the ATA read protocol, \<open>readseg\<close> returns: it waits out the
  busy phases, writes the 28-bit sector numbers, and leaves in memory the whole sectors
  of the disk that hold the requested bytes, the rest of the memory unchanged.\<close>

lemma readseg_loads:
  assumes "disk_laws dv ph reg img" and "ph d = Idle" and "unat pa + unat count \<le> 4294966784"
  shows "\<exists>d'. readseg dv pa count offset (m, d)
      = Some (load_seg img (unat pa) (unat count) (unat offset) m, d') \<and> ph d' = Idle"
  using assms by (rule readseg_reads)

lemma readseg_loads_witness:
  "\<exists>d'. readseg (sim_disk of_nat) 0x100010 600 1000 (\<lambda>_. 0, sim_start)
      = Some (load_seg of_nat (unat (0x100010 :: u32)) (unat (600 :: u32)) (unat (1000 :: u32)) (\<lambda>_. 0), d')
    \<and> sim_phase d' = Idle"
  by (rule readseg_loads [OF sim_disk_laws]) (simp_all add: sim_start_def)

lemma bootmain_spec:
  fixes m :: mem
  assumes laws: "disk_laws dv ph reg img" and idle: "ph d = Idle"
    and m1: "m1 = load_seg img 65536 4096 0 m" and e: "e = Elf_at m1 ELFHDR"
    and tab: "unat (e_phoff e) + 32 * unat (e_phnum e) \<le> 4096"
    and ps: "ps = headers m1 (ELFHDR + e_phoff e) (unat (e_phnum e))" and ok: "list_all seg_ok ps"
  shows "\<exists>d'. bootmain dv (m, d) =
     (if e_magic e = ELF_MAGIC then Some (Enter (e_entry e), load_segs img ps m1, d')
      else Some (Spin, m1, outw dv 0x8A00 0x8E00 (outw dv 0x8A00 0x8A00 d')))"
proof -
  have hdr: "unat ELFHDR = 65536" and cnt: "unat (SECTSIZE * 8) = 4096" by (simp_all add: ELFHDR_def SECTSIZE_def)
  obtain d1 where d1: "readseg dv ELFHDR (SECTSIZE * 8) 0 (m, d) = Some (m1, d1)" "ph d1 = Idle"
    using readseg_reads [OF laws idle, of ELFHDR "SECTSIZE * 8" 0 m] unfolding hdr cnt m1 by auto
  let ?p0 = "ELFHDR + e_phoff e"
  have p0: "unat ?p0 = 65536 + unat (e_phoff e)" using tab hdr by (simp add: unat_add_word)
  have size: "32 * ucast (e_phnum e) = (of_nat (32 * unat (e_phnum e)) :: u32)" by simp
  obtain d2 where d2: "load_loop dv ?p0 (?p0 + of_nat (32 * unat (e_phnum e))) (m1, d1)
      = Some (load_segs img ps m1, d2)"
    using load_loop_loads [OF laws d1(2), of ?p0 "unat (e_phnum e)" m1] tab ok p0
    unfolding ps by (auto simp: list_all_iff)
  have "load_segs img qs m' x = m' x" if "list_all seg_ok qs" "in_reg ELFHDR 4096 x" for qs m' x
    using that by (induction qs arbitrary: m') (simp_all add: load_segs_def load_seg_header)
  then have "Elf_at (load_segs img ps m1) ELFHDR = e"
    unfolding e using ok by (intro Elf_at_cong) blast
  then show ?thesis
    using d1(1) d2
    by (intro exI [of _ "if e_magic e = ELF_MAGIC then d2 else d1"])
      (simp add: bootmain_def Let_def e [symmetric] size del: of_nat_mult)
qed

text \<open>C9: \<open>bootmain\<close> reads the header page; without the ELF magic it signals \<open>bad\<close> and
  spins; otherwise it loads every segment of the program header table in order, each with
  its \<open>p_memsz\<close> bytes from the disk, and enters the kernel at \<open>e_entry\<close>. (The table must
  lie in the header page, and the segments off that page.)\<close>

theorem bootmain_loads:
  fixes m :: mem
  assumes laws: "disk_laws dv ph reg img" and idle: "ph d = Idle"
    and m1: "m1 = load_seg img 65536 4096 0 m" and e: "e = Elf_at m1 ELFHDR"
    and tab: "unat (e_phoff e) + 32 * unat (e_phnum e) \<le> 4096"
    and ps: "ps = headers m1 (ELFHDR + e_phoff e) (unat (e_phnum e))" and ok: "list_all seg_ok ps"
  shows "\<exists>d'. bootmain dv (m, d) =
     (if e_magic e = ELF_MAGIC then Some (Enter (e_entry e), load_segs img ps m1, d')
      else Some (Spin, m1, outw dv 0x8A00 0x8E00 (outw dv 0x8A00 0x8A00 d')))"
  by (rule bootmain_spec [OF assms])

theorem bootmain_loads_witness:
  "\<exists>m' d'. bootmain (sim_disk one_segment) (\<lambda>_. 0, sim_start) = Some (Enter 0x100000, m', d')"
proof -
  let ?e = "Elf_at one_header ELFHDR"
  have e: "e_magic ?e = ELF_MAGIC" "e_entry ?e = 0x100000" "e_phoff ?e = 52" "e_phnum ?e = 1"
    by (simp_all add: Elf_at_def load32_def load16_def ELFHDR_def ELF_MAGIC_def one_header_bytes one_segment_def)
  have "list_all seg_ok (headers one_header (ELFHDR + e_phoff ?e) (unat (e_phnum ?e)))"
    unfolding e by (simp add: headers_def Proghdr_at_def seg_ok_def load32_def ELFHDR_def one_header_bytes one_segment_def)
  then obtain d' where "bootmain (sim_disk one_segment) (\<lambda>_. 0, sim_start) =
     (if e_magic ?e = ELF_MAGIC
      then Some (Enter (e_entry ?e), load_segs one_segment (headers one_header (ELFHDR + e_phoff ?e) (unat (e_phnum ?e)))
        one_header, d')
      else Some (Spin, one_header, outw (sim_disk one_segment) 0x8A00 0x8E00 (outw (sim_disk one_segment) 0x8A00 0x8A00 d')))"
    using bootmain_loads [OF sim_disk_laws _ one_header_def refl _ refl, of sim_start] e(3,4)
    by (auto simp: sim_start_def)
  then show ?thesis unfolding e(1,2) by auto
qed

text \<open>The bytes of a loaded segment: when the load address and the file offset of a
  program header agree modulo the sector size and no later segment's sectors cover the
  byte, byte \<open>j\<close> of the segment in memory is byte \<open>p_offset + j\<close> of the kernel image
  (which starts at sector 1), also for \<open>j\<close> beyond \<open>p_filesz\<close>: the space behind the file
  part is filled from the disk, not cleared.\<close>

lemma segment_bytes:
  assumes "ps = ps1 @ p # ps2" and "seg_ok p" and "j < unat (p_memsz p)"
    and "unat (p_pa p) mod 512 = unat (p_offset p) mod 512"
    and "list_all (\<lambda>q. unat (p_pa p) + j < unat (p_pa q) div 512 * 512
           \<or> (unat (p_pa q) + unat (p_memsz q) + 511) div 512 * 512 \<le> unat (p_pa p) + j) ps2"
  shows "load_segs img ps m (p_pa p + of_nat j) = img (512 + unat (p_offset p) + j)"
proof -
  have small: "unat (p_pa p) + j < 4294967296" using assms(2,3) by (simp add: seg_ok_def)
  then have x: "unat (p_pa p + of_nat j) = unat (p_pa p) + j"
    using unat_of_nat32 [of j] by (simp add: unat_add_word)
  have later: "load_segs img qs m' y = m' y"
    if "list_all (\<lambda>q. unat y < unat (p_pa q) div 512 * 512
           \<or> (unat (p_pa q) + unat (p_memsz q) + 511) div 512 * 512 \<le> unat y) qs" for qs m' y
    using that by (induction qs arbitrary: m') (auto simp: load_segs_def load_seg_def)
  have "load_segs img ps m (p_pa p + of_nat j)
      = load_segs img ps2 (load_seg img (unat (p_pa p)) (unat (p_memsz p)) (unat (p_offset p)) (load_segs img ps1 m))
          (p_pa p + of_nat j)"
    by (simp add: assms(1) load_segs_def)
  also have "\<dots> = load_seg img (unat (p_pa p)) (unat (p_memsz p)) (unat (p_offset p)) (load_segs img ps1 m) (p_pa p + of_nat j)"
    using assms(5) by (intro later) (simp add: x)
  also have "\<dots> = img (512 * (unat (p_offset p) div 512 + 1) + (unat (p_pa p) + j - unat (p_pa p) div 512 * 512))"
  proof -
    have "unat (p_pa p) div 512 * 512 \<le> unat (p_pa p) + j"
      "unat (p_pa p) + j < (unat (p_pa p) + unat (p_memsz p) + 511) div 512 * 512"
      using assms(3) by linarith+
    then show ?thesis by (simp add: load_seg_def x)
  qed
  also have "512 * (unat (p_offset p) div 512 + 1) + (unat (p_pa p) + j - unat (p_pa p) div 512 * 512)
      = 512 + unat (p_offset p) + j"
  proof -
    have "unat (p_pa p) + j - unat (p_pa p) div 512 * 512 = unat (p_offset p) mod 512 + j"
      using minus_div_mult_eq_mod [of "unat (p_pa p)" 512] assms(4) by simp
    then show ?thesis using div_mult_mod_eq [of "unat (p_offset p)" 512] by simp
  qed
  finally show ?thesis .
qed

lemma segment_bytes_witness:
  "load_segs of_nat [\<lparr>p_type = 1, p_offset = 0x1000, p_va = 0x100000, p_pa = 0x100000, p_filesz = 0x10,
     p_memsz = 0x20, p_flags = 0, p_align = 0\<rparr>] (\<lambda>_. 0) (0x100000 + of_nat 0x15) = (of_nat (512 + 0x1000 + 0x15) :: byte)"
  using segment_bytes [where img = of_nat and m = "\<lambda>_. 0" and j = "0x15" and ?ps1.0 = "[]" and ?ps2.0 = "[]" and
     p = "\<lparr>p_type = 1, p_offset = 0x1000, p_va = 0x100000, p_pa = 0x100000, p_filesz = 0x10,
     p_memsz = 0x20, p_flags = 0, p_align = 0\<rparr>", OF refl]
  by (simp add: seg_ok_def)

text \<open>The load address of a sector-aligned loop never passes an end in the last sector.\<close>

lemma readseg_loop_diverges:
  assumes "readseg_loop dv end_pa pa offset s = Some s'" and "4294966784 < unat end_pa" and "unat pa mod 512 = 0"
  shows False
proof -
  have "4294966784 < unat end_pa \<longrightarrow> unat pa mod 512 = 0 \<longrightarrow> False"
  proof (induction rule: readseg_loop.raw_induct [OF _ assms(1)])
    case (1 f dv end_pa pa offset s s')
    show ?case
    proof (intro impI)
      assume e: "4294966784 < unat end_pa" and pa: "unat pa mod 512 = 0"
      have "unat pa div 512 \<le> 8388607" using unat_lt32 [of pa] by linarith
      then have "unat pa \<le> 4294966784" using pa div_mult_mod_eq [of "unat pa" 512] by simp
      then have "unat pa < unat end_pa" using e by (rule le_less_trans)
      then obtain s1 where rest: "f dv end_pa (pa + SECTSIZE) (offset + 1) s1 = Some s'"
        using 1(2) by (auto simp: word_less_nat_alt split: option.splits)
      have "unat (pa + SECTSIZE) mod 512 = 0"
      proof -
        have "512 dvd (4294966784 :: nat)" by simp
        then show ?thesis
          using pa by (auto simp: SECTSIZE_def unat_add_word mod_eq_0_iff_dvd intro!: dvd_diff_nat)
      qed
      then show False using 1(1) [OF rest] e by simp
    qed
  qed
  then show False using assms(2,3) by blast
qed

text \<open>A segment that reaches into the last sector of the address space is never loaded:
  the loop's address wraps around and stays below the end.\<close>

lemma readseg_diverges:
  assumes "4294966784 < unat (pa + count)"
  shows "readseg dv pa count offset s = None"
proof -
  have "unat (pa AND NOT (SECTSIZE - 1)) mod 512 = 0" unfolding unat_round_512 by simp
  then show ?thesis
    using assms readseg_loop_diverges [of dv "pa + count" "pa AND NOT (SECTSIZE - 1)" "offset div SECTSIZE + 1" s]
    by (cases "readseg dv pa count offset s") (auto simp: readseg_def Let_def)
qed

text \<open>C33: when \<open>readseg\<close> returns. With a drive that keeps the ATA read protocol it returns exactly when the end
  of the segment, computed modulo the address space, is not behind the beginning of the last sector.
  Then memory holds the whole sectors from the one of the address up to that end and is unchanged
  elsewhere; so a segment that runs past the top of the address space is left out without notice. Otherwise
  the loop's address wraps around below the end for ever.\<close>

theorem readseg_outcome:
  assumes "disk_laws dv ph reg img" and "ph d = Idle"
  shows "if 4294966784 < unat (pa + count) then readseg dv pa count offset (m, d) = None
    else \<exists>d'. readseg dv pa count offset (m, d)
      = Some (load_seg img (unat pa div 512 * 512) (unat (pa + count) - unat pa div 512 * 512) (unat offset) m, d') \<and> ph d' = Idle"
  using readseg_to_end [OF assms, of pa count offset m] readseg_diverges [of pa count dv offset "(m, d)"] by auto

text \<open>A segment in the last sector, one of 600 bytes at \<open>0x100010\<close>, and one that runs past the top.\<close>

theorem readseg_outcome_witness:
  "readseg (sim_disk of_nat) 0xFFFFFF00 0x80 0 (\<lambda>_. 0, sim_start) = None
    \<and> (\<exists>d'. readseg (sim_disk of_nat) 0x100010 600 1000 (\<lambda>_. 0, sim_start)
      = Some (load_seg of_nat 0x100000 616 1000 (\<lambda>_. 0), d') \<and> sim_phase d' = Idle)
    \<and> (\<exists>d'. readseg (sim_disk of_nat) 0xFFFFF000 0x2000 0 (\<lambda>_. 7, sim_start) = Some (\<lambda>_. 7, d'))"
proof -
  note out = readseg_outcome [where img = of_nat, OF sim_disk_laws]
  have idle: "sim_phase sim_start = Idle" by (simp add: sim_start_def)
  have "load_seg of_nat 4294963200 0 0 (\<lambda>_. 7) = (\<lambda>_. 7)" by (rule ext) (simp add: load_seg_def)
  then show ?thesis
    using out [OF idle, of "0xFFFFFF00" "0x80" 0 "\<lambda>_. 0"] out [OF idle, of "0x100010" 600 1000 "\<lambda>_. 0"]
      out [OF idle, of "0xFFFFF000" "0x2000" 0 "\<lambda>_. 7"] by auto
qed

end
