(* ===== verification/Serial.thy ===== *)
theory Serial
  imports PortIO
begin

text \<open>
  The serial port driver \<open>kernel/serial.c\<close>. The UART behind the ports is a device
  parameter; what the driver relies on is stated as \<open>uart_laws\<close>, the documented behaviour of
  the 16550: it takes a byte for transmission only when the transmitter holding register is
  empty, which is what the status register tells, and only when the line is set up for it:
  with the divisor latch switched in, the same port is the divisor. So the driver's wait loop
  and the order of the writes in \<open>init_serial_com\<close> are both needed for the theorems below.
\<close>

definition COM1 :: u16 where "COM1 = 0x3f8"

definition init_serial_com :: "'d device \<Rightarrow> u16 \<Rightarrow> 'd \<Rightarrow> 'd" where
  "init_serial_com dv port d =
     (let d = outb dv (port + 1) 0x00 d;
          d = outb dv (port + 3) 0x80 d;
          d = outb dv (port + 0) 0x03 d;
          d = outb dv (port + 1) 0x00 d;
          d = outb dv (port + 3) 0x03 d;
          d = outb dv (port + 2) 0xC7 d;
          d = outb dv (port + 4) 0x0B d
      in d)"

definition transmit_empty :: "byte \<Rightarrow> bool" where
  "transmit_empty x \<longleftrightarrow> x AND 0x20 \<noteq> 0"

definition is_transmit_empty :: "'d device \<Rightarrow> u16 \<Rightarrow> 'd \<Rightarrow> byte \<times> 'd" where
  "is_transmit_empty dv port d = (let (x, d) = inb dv (port + 5) d in (x AND 0x20, d))"

partial_function (option) wait_transmit :: "'d device \<Rightarrow> u16 \<Rightarrow> 'd \<Rightarrow> 'd option" where
  "wait_transmit dv port d =
     (let (r, d) = is_transmit_empty dv port d in if r = 0 then wait_transmit dv port d else Some d)"

definition write_serial :: "'d device \<Rightarrow> u16 \<Rightarrow> byte \<Rightarrow> 'd \<Rightarrow> 'd option" where
  "write_serial dv port ch d =
     (case wait_transmit dv port d of None \<Rightarrow> None | Some d \<Rightarrow> Some (outb dv port ch d))"

definition init_serial :: "'d device \<Rightarrow> 'd \<Rightarrow> 'd" where
  "init_serial dv d = init_serial_com dv COM1 d"

definition serial_putchar :: "'d device \<Rightarrow> byte \<Rightarrow> 'd \<Rightarrow> 'd option" where
  "serial_putchar dv ch d = write_serial dv COM1 ch d"

section \<open>Sending\<close>

text \<open>The line is open when the line control register says eight data bits, divisor latch switched out
  and no break, and the modem control register no loopback.\<close>

definition line_open :: "byte \<times> byte \<Rightarrow> bool" where
  "line_open r \<longleftrightarrow> fst r AND 0xC3 = 0x03 \<and> \<not> bit (snd r) 4"

text \<open>\<open>sent\<close> is what the UART has taken for transmission, \<open>ctl\<close> its line and modem control registers, and
  \<open>idle\<close> says that the transmitter is empty. After finitely many looks the status register says so;
  looking changes nothing else. A byte that is written to an empty transmitter on an open line is sent.
  Nothing is said of a byte that is written without looking, of one that is written to a line that is
  not open, or of what is lost when the FIFOs are cleared.\<close>

definition uart_laws :: "'d device \<Rightarrow> ('d \<Rightarrow> byte list) \<Rightarrow> ('d \<Rightarrow> byte \<times> byte) \<Rightarrow> bool" where
  "uart_laws dv sent ctl \<longleftrightarrow> (\<exists>idle.
     (\<forall>d. \<exists>xs y d'. answers dv (COM1 + 5) (xs @ [y]) d d' \<and> (\<forall>x \<in> set xs. \<not> transmit_empty x)
        \<and> transmit_empty y \<and> idle d' \<and> sent d' = sent d \<and> ctl d' = ctl d)
   \<and> (\<forall>d c. idle d \<longrightarrow> line_open (ctl d) \<longrightarrow> sent (outb dv COM1 c d) = sent d @ [c])
   \<and> (\<forall>d c. ctl (outb dv COM1 c d) = ctl d)
   \<and> (\<forall>d c. ctl (outb dv (COM1 + 1) c d) = ctl d)
   \<and> (\<forall>d c. ctl (outb dv (COM1 + 2) c d) = ctl d)
   \<and> (\<forall>d c. ctl (outb dv (COM1 + 3) c d) = (c, snd (ctl d)))
   \<and> (\<forall>d c. ctl (outb dv (COM1 + 4) c d) = (fst (ctl d), c)))"

text \<open>The initialisation opens the line.\<close>

lemma init_serial_opens:
  assumes "uart_laws dv sent ctl"
  shows "line_open (ctl (init_serial dv d))"
proof -
  have "ctl (outb dv (COM1 + 0) c d) = ctl d" "ctl (outb dv (COM1 + 1) c d) = ctl d" "ctl (outb dv (COM1 + 2) c d) = ctl d"
    "ctl (outb dv (COM1 + 3) c d) = (c, snd (ctl d))" "ctl (outb dv (COM1 + 4) c d) = (fst (ctl d), c)" for c d
    using assms unfolding uart_laws_def by auto
  then have "ctl (init_serial dv d) = (0x03, 0x0B)"
    unfolding init_serial_def init_serial_com_def Let_def by (simp only: fst_conv snd_conv)
  then show ?thesis by (simp add: line_open_def)
qed

text \<open>A UART in a state in which the line is open.\<close>

definition uart_open :: "'d device \<Rightarrow> ('d \<Rightarrow> byte list) \<Rightarrow> ('d \<Rightarrow> byte \<times> byte) \<Rightarrow> 'd \<Rightarrow> bool" where
  "uart_open dv sent ctl d \<longleftrightarrow> uart_laws dv sent ctl \<and> line_open (ctl d)"

lemma uart_open_kept: "uart_open dv sent ctl d \<Longrightarrow> ctl d' = ctl d \<Longrightarrow> uart_open dv sent ctl d'"
  by (simp add: uart_open_def)

lemma uart_open_init: "uart_laws dv sent ctl \<Longrightarrow> uart_open dv sent ctl (init_serial dv d)"
  using init_serial_opens by (simp add: uart_open_def)

lemma wait_transmit_returns:
  "answers dv (port + 5) (xs @ [y]) d d' \<Longrightarrow> (\<forall>x \<in> set xs. \<not> transmit_empty x) \<Longrightarrow> transmit_empty y \<Longrightarrow>
   wait_transmit dv port d = Some d'"
proof (induction xs arbitrary: d)
  case Nil
  then show ?case
    by (subst wait_transmit.simps) (auto simp: is_transmit_empty_def transmit_empty_def Let_def split: prod.splits)
next
  case (Cons x xs)
  then show ?case
    by (subst wait_transmit.simps) (auto simp: is_transmit_empty_def transmit_empty_def Let_def split: prod.splits)
qed

lemma serial_putchar_spec:
  assumes "uart_open dv sent ctl d"
  shows "\<exists>d'. serial_putchar dv ch d = Some d' \<and> sent d' = sent d @ [ch] \<and> ctl d' = ctl d"
proof -
  obtain idle where look: "\<exists>xs y d'. answers dv (COM1 + 5) (xs @ [y]) d d' \<and> (\<forall>x \<in> set xs. \<not> transmit_empty x)
        \<and> transmit_empty y \<and> idle d' \<and> sent d' = sent d \<and> ctl d' = ctl d"
    and out: "\<forall>d c. idle d \<longrightarrow> line_open (ctl d) \<longrightarrow> sent (outb dv COM1 c d) = sent d @ [c]"
    and keep: "\<forall>d c. ctl (outb dv COM1 c d) = ctl d"
    using assms unfolding uart_open_def uart_laws_def by blast
  obtain xs y d1 where "answers dv (COM1 + 5) (xs @ [y]) d d1" "\<forall>x \<in> set xs. \<not> transmit_empty x"
    "transmit_empty y" and d1: "idle d1" "sent d1 = sent d" "ctl d1 = ctl d"
    using look by blast
  then have "wait_transmit dv COM1 d = Some d1" by (intro wait_transmit_returns)
  then show ?thesis
    using out keep d1 assms by (auto simp: uart_open_def serial_putchar_def write_serial_def)
qed

text \<open>Sending a text byte by byte.\<close>

fun serial_puts :: "'d device \<Rightarrow> byte list \<Rightarrow> 'd \<Rightarrow> 'd option" where
  "serial_puts dv [] d = Some d"
| "serial_puts dv (c # cs) d = (case serial_putchar dv c d of None \<Rightarrow> None | Some d \<Rightarrow> serial_puts dv cs d)"

section \<open>Properties\<close>

text \<open>On a UART that keeps its protocol, every \<open>serial_putchar\<close> of a text returns and the
  bytes go out complete and in order.\<close>

lemma serial_puts_sends:
  "uart_open dv sent ctl d \<Longrightarrow> \<exists>d'. serial_puts dv cs d = Some d' \<and> sent d' = sent d @ cs \<and> ctl d' = ctl d"
proof (induction cs arbitrary: d)
  case Nil
  then show ?case by simp
next
  case (Cons c cs)
  obtain d1 where d1: "serial_putchar dv c d = Some d1" "sent d1 = sent d @ [c]" "ctl d1 = ctl d"
    using serial_putchar_spec [OF Cons.prems] by blast
  with Cons.IH [OF uart_open_kept [OF Cons.prems d1(3)]] show ?case by auto
qed

text \<open>A UART that is busy for one look after every byte and loses what is written to it meanwhile, and that
  has a divisor latch.\<close>

record uart =
  u_busy :: bool
  u_sent :: "byte list"
  u_ctl :: "byte \<times> byte"
  u_divisor :: byte

definition uart_out :: "u16 \<Rightarrow> byte \<Rightarrow> uart \<Rightarrow> uart" where
  "uart_out port x d =
     (if port = COM1 then
        (if bit (fst (u_ctl d)) 7 then d\<lparr>u_divisor := x\<rparr>
         else if u_busy d then d
         else d\<lparr>u_busy := True, u_sent := u_sent d @ [x]\<rparr>)
      else if port = COM1 + 3 then d\<lparr>u_ctl := (x, snd (u_ctl d))\<rparr>
      else if port = COM1 + 4 then d\<lparr>u_ctl := (fst (u_ctl d), x)\<rparr>
      else d)"

definition sim_uart :: "uart device" where
  "sim_uart = \<lparr>dev_in = (\<lambda>w port d. ((if u_busy d then 0 else 0x20), d\<lparr>u_busy := False\<rparr>)),
     dev_out = (\<lambda>w port x d. uart_out port (ucast x) d)\<rparr>"

lemma ucast_byte: "ucast (ucast x :: u32) = (x :: byte)"
  by (rule bit_word_eqI) (auto simp: bit_simps)

text \<open>An open line has the divisor latch switched out.\<close>

lemma line_open_latch: "line_open r \<Longrightarrow> \<not> bit (fst r) 7"
proof
  assume r: "line_open r" "bit (fst r) 7"
  have "bit (fst r AND 0xC3) 7 = (bit (fst r) 7 \<and> bit (0xC3 :: byte) 7)" by (rule bit_and_iff)
  then show False using r by (simp add: line_open_def)
qed

lemma uart_out_keeps:
  "\<not> u_busy d \<Longrightarrow> line_open (u_ctl d) \<Longrightarrow> u_sent (uart_out COM1 c d) = u_sent d @ [c]"
  "u_ctl (uart_out COM1 c d) = u_ctl d" "u_ctl (uart_out (COM1 + 1) c d) = u_ctl d" "u_ctl (uart_out (COM1 + 2) c d) = u_ctl d"
  "u_ctl (uart_out (COM1 + 3) c d) = (c, snd (u_ctl d))" "u_ctl (uart_out (COM1 + 4) c d) = (fst (u_ctl d), c)"
  using line_open_latch [of "u_ctl d"] by (simp_all add: uart_out_def COM1_def)

lemma sim_uart_laws: "uart_laws sim_uart u_sent u_ctl"
proof -
  have "\<exists>xs y d'. answers sim_uart (COM1 + 5) (xs @ [y]) d d' \<and> (\<forall>x \<in> set xs. \<not> transmit_empty x)
        \<and> transmit_empty y \<and> \<not> u_busy d' \<and> u_sent d' = u_sent d \<and> u_ctl d' = u_ctl d" for d
    by (intro exI [of _ "if u_busy d then [0] else []"] exI [of _ "0x20"] exI [of _ "d\<lparr>u_busy := False\<rparr>"])
      (simp add: sim_uart_def inb_def transmit_empty_def)
  moreover have "outb sim_uart port c d = uart_out port c d" for port c d
    by (simp add: outb_def sim_uart_def ucast_byte)
  ultimately show ?thesis
    unfolding uart_laws_def by (intro exI [of _ "\<lambda>d. \<not> u_busy d"]) (simp add: uart_out_keeps)
qed

text \<open>The UART after \<open>init_serial\<close>: the divisor is set and nothing is sent.\<close>

definition uart_start :: uart where
  "uart_start = \<lparr>u_busy = True, u_sent = [], u_ctl = (0, 0), u_divisor = 12\<rparr>"

definition uart_ready :: uart where
  "uart_ready = init_serial sim_uart uart_start"

lemma uart_ready_state: "u_sent uart_ready = []" "u_divisor uart_ready = 3" "line_open (u_ctl uart_ready)"
  by (simp_all add: uart_ready_def uart_start_def init_serial_def init_serial_com_def outb_def sim_uart_def uart_out_def
      COM1_def Let_def ucast_byte line_open_def)

lemma uart_ready_open: "uart_open sim_uart u_sent u_ctl uart_ready"
  using sim_uart_laws uart_ready_state(3) by (simp add: uart_open_def)

lemma serial_puts_sends_witness:
  "\<exists>d'. serial_puts sim_uart [0x48, 0x69] uart_ready = Some d' \<and> u_sent d' = [0x48, 0x69]"
  using serial_puts_sends [OF uart_ready_open, of "[0x48, 0x69]"] uart_ready_state(1) by auto

end
