(* ===== verification/Keyboard.thy ===== *)
theory Keyboard
  imports PortIO
begin

text \<open>
  The keyboard driver \<open>kernel/keyboard.c\<close>: \<open>get_key\<close> reads scan codes from port \<open>0x60\<close>
  until a key is pressed, then until that key is released. A code behind the prefix
  \<open>0xE0\<close> becomes a two-byte code. Both loops may run for ever.
\<close>

section \<open>kernel/keyboard.c and kernel/keyboard.h\<close>

definition KEY_UP :: u32 where "KEY_UP = 0xE048"
definition KEY_DOWN :: u32 where "KEY_DOWN = 0xE050"
definition KEY_LEFT :: u32 where "KEY_LEFT = 0xE04B"
definition KEY_RIGHT :: u32 where "KEY_RIGHT = 0xE04D"
definition KEY_SPACE :: u32 where "KEY_SPACE = 0x39"

definition read_code :: "'d device \<Rightarrow> 'd \<Rightarrow> u32 \<times> 'd" where
  "read_code dv d =
     (let (c, d) = inb dv 0x60 d;
          scancode = ucast c :: u32
      in if scancode = 0xE0
         then (let (c, d) = inb dv 0x60 d in (push_bit 8 scancode OR ucast c, d))
         else (scancode, d))"

partial_function (option) wait_press :: "'d device \<Rightarrow> 'd \<Rightarrow> (u32 \<times> 'd) option" where
  "wait_press dv d =
     (let (scancode, d) = read_code dv d
      in if scancode AND 0x80 \<noteq> 0 then wait_press dv d else Some (scancode, d))"

partial_function (option) wait_release :: "'d device \<Rightarrow> u32 \<Rightarrow> 'd \<Rightarrow> 'd option" where
  "wait_release dv scancode d =
     (let (esccode, d) = read_code dv d
      in if esccode \<noteq> scancode OR 0x80 then wait_release dv scancode d else Some d)"

definition get_key :: "'d device \<Rightarrow> 'd \<Rightarrow> (u32 \<times> 'd) option" where
  "get_key dv d =
     (case wait_press dv d of
        None \<Rightarrow> None
      | Some (scancode, d) \<Rightarrow>
          (case wait_release dv scancode d of None \<Rightarrow> None | Some d \<Rightarrow> Some (scancode, d)))"

section \<open>What reading a key leaves alone\<close>

text \<open>The driver only reads port \<open>0x60\<close>: what such a read keeps of the device, \<open>get_key\<close> keeps.\<close>

lemma read_code_keeps:
  "(\<And>d. obs (snd (inb dv 0x60 d)) = obs d) \<Longrightarrow> obs (snd (read_code dv d)) = obs d"
  by (simp add: read_code_def Let_def split: prod.split) (metis snd_conv)

lemma wait_press_keeps:
  assumes "wait_press dv d = Some r" and "\<And>d. obs (snd (inb dv 0x60 d)) = obs d"
  shows "obs (snd r) = obs d"
proof -
  have "(\<forall>d. obs (snd (inb dv 0x60 d)) = obs d) \<longrightarrow> obs (snd r) = obs d"
  proof (induction rule: wait_press.raw_induct [OF _ assms(1)])
    case (1 f dv d r)
    show ?case
    proof
      assume q: "\<forall>d. obs (snd (inb dv 0x60 d)) = obs d"
      obtain c d1 where rc: "read_code dv d = (c, d1)" by fastforce
      have d1: "obs d1 = obs d" using read_code_keeps [of obs dv d] q rc by simp
      show "obs (snd r) = obs d"
      proof (cases "c AND 0x80 \<noteq> 0")
        case True
        then have "f dv d1 = Some r" using 1(2) rc by simp
        from 1(1) [OF this] q d1 show ?thesis by simp
      qed (use 1(2) rc d1 in auto)
    qed
  qed
  with assms(2) show ?thesis by blast
qed

lemma wait_release_keeps:
  assumes "wait_release dv k d = Some d'" and "\<And>d. obs (snd (inb dv 0x60 d)) = obs d"
  shows "obs d' = obs d"
proof -
  have "(\<forall>d. obs (snd (inb dv 0x60 d)) = obs d) \<longrightarrow> obs d' = obs d"
  proof (induction rule: wait_release.raw_induct [OF _ assms(1)])
    case (1 f dv k d r)
    show ?case
    proof
      assume q: "\<forall>d. obs (snd (inb dv 0x60 d)) = obs d"
      obtain c d1 where rc: "read_code dv d = (c, d1)" by fastforce
      have d1: "obs d1 = obs d" using read_code_keeps [of obs dv d] q rc by simp
      show "obs r = obs d"
      proof (cases "c \<noteq> k OR 0x80")
        case True
        then have "f dv k d1 = Some r" using 1(2) rc by simp
        from 1(1) [OF this] q d1 show ?thesis by simp
      qed (use 1(2) rc d1 in auto)
    qed
  qed
  with assms(2) show ?thesis by blast
qed

lemma get_key_keeps:
  assumes "get_key dv d = Some (c, d')" and "\<And>d. obs (snd (inb dv 0x60 d)) = obs d"
  shows "obs d' = obs d"
proof -
  obtain d1 where "wait_press dv d = Some (c, d1)" "wait_release dv c d1 = Some d'"
    using assms(1) by (auto simp: get_key_def split: option.splits)
  then show ?thesis
    using wait_press_keeps [of dv d "(c, d1)" obs] wait_release_keeps [of dv c d1 d' obs] assms(2) by simp
qed

section \<open>Scan codes as the keyboard sends them\<close>

definition code_bytes :: "u32 \<Rightarrow> byte list" where
  "code_bytes c = (if drop_bit 8 c = 0xE0 then [0xE0, ucast c] else [ucast c])"

definition is_code :: "u32 \<Rightarrow> bool" where
  "is_code c \<longleftrightarrow> drop_bit 8 c = 0xE0 \<or> (drop_bit 8 c = 0 \<and> c \<noteq> 0xE0)"

lemma join_code: "(c :: u32) = push_bit 8 (drop_bit 8 c) OR ucast (ucast c :: byte)"
  by (rule bit_word_eqI) (auto simp: bit_simps)

lemma read_code_bytes:
  assumes "is_code c" and "answers dv 0x60 (code_bytes c @ xs) d d'"
  shows "\<exists>d1. read_code dv d = (c, d1) \<and> answers dv 0x60 xs d1 d'"
proof (cases "drop_bit 8 c = 0xE0")
  case True
  then have "c = push_bit 8 0xE0 OR ucast (ucast c :: byte)" using join_code [of c] by simp
  then show ?thesis
    using True assms(2) by (auto simp: read_code_def code_bytes_def Let_def split: prod.splits)
next
  case False
  then have hi: "drop_bit 8 c = 0" "c \<noteq> 0xE0" using assms(1) by (auto simp: is_code_def)
  then have "c = ucast (ucast c :: byte)" using join_code [of c] by simp
  then show ?thesis
    using hi False assms(2) by (auto simp: read_code_def code_bytes_def Let_def split: prod.splits)
qed

lemma wait_press_codes:
  "answers dv 0x60 (concat (map code_bytes cs) @ code_bytes k @ xs) d d' \<Longrightarrow>
   (\<forall>c \<in> set cs. is_code c \<and> c AND 0x80 \<noteq> 0) \<Longrightarrow> is_code k \<Longrightarrow> k AND 0x80 = 0 \<Longrightarrow>
   \<exists>d1. wait_press dv d = Some (k, d1) \<and> answers dv 0x60 xs d1 d'"
proof (induction cs arbitrary: d)
  case Nil
  with read_code_bytes [of k dv xs d d'] show ?case by (subst wait_press.simps) auto
next
  case (Cons c cs)
  then obtain d1 where "read_code dv d = (c, d1)"
    "answers dv 0x60 (concat (map code_bytes cs) @ code_bytes k @ xs) d1 d'"
    using read_code_bytes [of c dv "concat (map code_bytes cs) @ code_bytes k @ xs" d d'] by auto
  with Cons show ?case by (subst wait_press.simps) auto
qed

lemma wait_release_codes:
  "answers dv 0x60 (concat (map code_bytes cs) @ code_bytes (k OR 0x80)) d d' \<Longrightarrow>
   (\<forall>c \<in> set cs. is_code c \<and> c \<noteq> k OR 0x80) \<Longrightarrow> is_code (k OR 0x80) \<Longrightarrow>
   wait_release dv k d = Some d'"
proof (induction cs arbitrary: d)
  case Nil
  with read_code_bytes [of "k OR 0x80" dv "[]" d d'] show ?case by (subst wait_release.simps) auto
next
  case (Cons c cs)
  then obtain d1 where "read_code dv d = (c, d1)"
    "answers dv 0x60 (concat (map code_bytes cs) @ code_bytes (k OR 0x80)) d1 d'"
    using read_code_bytes [of c dv "concat (map code_bytes cs) @ code_bytes (k OR 0x80)" d d'] by auto
  with Cons show ?case by (subst wait_release.simps) auto
qed

section \<open>Properties\<close>

text \<open>C34: when the port delivers every byte of the keyboard once, \<open>get_key\<close> skips the release
  codes that come first, returns the first pressed key, and leaves the port right behind
  that key's release; presses and releases of other keys in between are swallowed.\<close>

theorem get_key_returns:
  assumes "answers dv 0x60
      (concat (map code_bytes rs) @ code_bytes k @ concat (map code_bytes cs) @ code_bytes (k OR 0x80)) d d'"
    and "list_all (\<lambda>c. is_code c \<and> c AND 0x80 \<noteq> 0) rs" and "is_code k" and "k AND 0x80 = 0"
    and "list_all (\<lambda>c. is_code c \<and> c \<noteq> k OR 0x80) cs" and "is_code (k OR 0x80)"
  shows "get_key dv d = Some (k, d')"
proof -
  obtain d1 where "wait_press dv d = Some (k, d1)"
    "answers dv 0x60 (concat (map code_bytes cs) @ code_bytes (k OR 0x80)) d1 d'"
    using wait_press_codes [OF assms(1)] assms(2-4) by (auto simp: list_all_iff)
  with wait_release_codes [of dv cs k d1 d'] assms(5,6) show ?thesis
    by (simp add: get_key_def list_all_iff)
qed

text \<open>A keyboard that delivers the bytes of a list, and then zeros.\<close>

definition byte_source :: "byte list device" where
  "byte_source = \<lparr>dev_in = (\<lambda>w port bs. case bs of [] \<Rightarrow> (0, []) | b # bs \<Rightarrow> (ucast b, bs)),
     dev_out = (\<lambda>w port x bs. bs)\<rparr>"

lemma byte_source_answers: "answers byte_source port bs (bs @ cs) cs"
proof (induction bs)
  case Nil
  then show ?case by simp
next
  case (Cons b bs)
  have "ucast (ucast b :: u32) = (b :: byte)" by (rule bit_word_eqI) (auto simp: bit_simps)
  then show ?case using Cons by (simp add: byte_source_def inb_def)
qed

theorem get_key_returns_witness:
  "get_key byte_source [0xCD, 0xE0, 0x48, 0x39, 0xB9, 0xE0, 0xC8, 0x01] = Some (KEY_UP, [0x01])"
proof -
  let ?bs = "[0xCD, 0xE0, 0x48, 0x39, 0xB9, 0xE0, 0xC8]"
  have "concat (map code_bytes [0xCD]) @ code_bytes 0xE048 @ concat (map code_bytes [0x39, 0xB9])
      @ code_bytes (0xE048 OR 0x80) = ?bs"
    by (simp add: code_bytes_def)
  then have "answers byte_source 0x60 (concat (map code_bytes [0xCD]) @ code_bytes 0xE048
      @ concat (map code_bytes [0x39, 0xB9]) @ code_bytes (0xE048 OR 0x80)) (?bs @ [0x01]) [0x01]"
    by (simp only: byte_source_answers)
  then show ?thesis
    using get_key_returns [of byte_source "[0xCD]" "0xE048" "[0x39, 0xB9]" "?bs @ [0x01]" "[0x01]"]
    by (simp add: KEY_UP_def is_code_def)
qed

text \<open>The driver never checks whether a new byte has arrived: a controller that still
  shows the prefix of an arrow key on the second read gets its code taken for a key of
  the numeric pad.\<close>

lemma get_key_stale_prefix:
  assumes "answers dv 0x60 [0xE0, 0xE0, 0x48, 0xC8] d d'"
  shows "get_key dv d = Some (0x48, d') \<and> 0x48 \<noteq> KEY_UP"
proof -
  have "answers dv 0x60 (concat (map code_bytes [0xE0E0]) @ code_bytes 0x48 @ concat (map code_bytes [])
      @ code_bytes (0x48 OR 0x80)) d d'"
    using assms by (simp add: code_bytes_def)
  then have "get_key dv d = Some (0x48, d')"
  proof -
    obtain d1 where "wait_press dv d = Some (0x48, d1)" "answers dv 0x60 (code_bytes (0x48 OR 0x80)) d1 d'"
      using wait_press_codes [of dv "[0xE0E0]" "0x48" "code_bytes (0x48 OR 0x80)" d d'] assms
      by (auto simp: code_bytes_def is_code_def)
    with wait_release_codes [of dv "[]" "0x48" d1 d'] show ?thesis by (simp add: get_key_def is_code_def)
  qed
  then show ?thesis by (simp add: KEY_UP_def)
qed

lemma get_key_stale_prefix_witness:
  "get_key byte_source [0xE0, 0xE0, 0x48, 0xC8] = Some (0x48, [])"
  using get_key_stale_prefix [of byte_source "[0xE0, 0xE0, 0x48, 0xC8]" "[]"]
    byte_source_answers [of "0x60" "[0xE0, 0xE0, 0x48, 0xC8]" "[]"] by simp

end
