(* ===== verification/Video.thy ===== *)
theory Video
  imports PageMap
begin

text \<open>
  The frame buffer driver \<open>kernel/video.c\<close>: the mode information left by the boot loader,
  the back buffer \<open>vmem_buffer\<close> and its drawing routines, and the copy to video memory.

  The state is the kernel state with its memory, the mode information, the pointer \<open>vmem\<close>
  and the address of the array \<open>vmem_buffer\<close>. Coordinates are the C integers; a pixel is
  three bytes, blue first. Linear addresses are used as physical ones, as the kernel's
  mapping makes them.
\<close>

section \<open>kernel/video.c: mode and buffer\<close>

record ModeInfoBlock =
  attributes :: u16   winA :: byte   winB :: byte   granularity :: u16   winsize :: u16
  segmentA :: u16   segmentB :: u16   mib_offset :: u16   mib_base :: u16
  pitch :: u16   Xres :: u16   Yres :: u16
  Wchar :: byte   Ychar :: byte   planes :: byte   bpp :: byte   banks :: byte
  memory_model :: byte   bank_size :: byte   image_pages :: byte   reserved0 :: byte
  red_mask :: byte   red_position :: byte   green_mask :: byte   green_position :: byte
  blue_mask :: byte   blue_position :: byte   rsv_mask :: byte   rsv_position :: byte
  directcolor_attributes :: byte
  physbase :: u32   reserved1 :: u32   reserved2 :: u16

definition ModeInfoBlock_at :: "mem \<Rightarrow> u32 \<Rightarrow> ModeInfoBlock" where
  "ModeInfoBlock_at m a = \<lparr>attributes = load16 m a, winA = m (a + 2), winB = m (a + 3),
     granularity = load16 m (a + 4), winsize = load16 m (a + 6), segmentA = load16 m (a + 8),
     segmentB = load16 m (a + 10), mib_offset = load16 m (a + 12), mib_base = load16 m (a + 14),
     pitch = load16 m (a + 16), Xres = load16 m (a + 18), Yres = load16 m (a + 20),
     Wchar = m (a + 22), Ychar = m (a + 23), planes = m (a + 24), bpp = m (a + 25), banks = m (a + 26),
     memory_model = m (a + 27), bank_size = m (a + 28), image_pages = m (a + 29), reserved0 = m (a + 30),
     red_mask = m (a + 31), red_position = m (a + 32), green_mask = m (a + 33), green_position = m (a + 34),
     blue_mask = m (a + 35), blue_position = m (a + 36), rsv_mask = m (a + 37), rsv_position = m (a + 38),
     directcolor_attributes = m (a + 39),
     physbase = load32 m (a + 40), reserved1 = load32 m (a + 44), reserved2 = load16 m (a + 48)\<rparr>"

record vstate =
  kern :: kstate
  mode_info :: ModeInfoBlock
  vmem :: u32
  vmem_buffer :: u32

definition VBUF_SIZE :: nat where "VBUF_SIZE = 800 * 600 * 3"

abbreviation vmemory :: "vstate \<Rightarrow> mem" where
  "vmemory vs \<equiv> kmem (kern vs)"

definition set_mem :: "mem \<Rightarrow> vstate \<Rightarrow> vstate" where
  "set_mem m vs = vs\<lparr>kern := (kern vs)\<lparr>kmem := m\<rparr>\<rparr>"

definition init_video :: "vstate \<Rightarrow> (vstate, vstate) attempt" where
  "init_video vs =
     (let vs = vs\<lparr>mode_info := ModeInfoBlock_at (vmemory vs) 0xf000\<rparr>;
          vs = vs\<lparr>kern := log_expr ''kernel/video.c'' ''init_video'' 55 ''mode_info.pitch'' (ucast (pitch (mode_info vs))) (kern vs)\<rparr>;
          vs = vs\<lparr>vmem := physbase (mode_info vs)\<rparr>
      in case mm_continous_map (get_kpgdir (kern vs)) (vmem vs) (vmem vs)
                (ucast (Yres (mode_info vs)) * ucast (pitch (mode_info vs))) (kern vs) of
           Inl (e, ks) \<Rightarrow> Inl (e, vs\<lparr>kern := ks\<rparr>)
         | Inr ks \<Rightarrow> Inr (vs\<lparr>kern := ks\<rparr>))"

definition get_scr_w :: "vstate \<Rightarrow> u32" where "get_scr_w vs = ucast (Xres (mode_info vs))"
definition get_scr_h :: "vstate \<Rightarrow> u32" where "get_scr_h vs = ucast (Yres (mode_info vs))"

definition init_video_buffer :: "vstate \<Rightarrow> vstate" where
  "init_video_buffer vs = set_mem (memset (vmemory vs) (vmem_buffer vs) 0 (of_nat VBUF_SIZE)) vs"

definition update_screen :: "vstate \<Rightarrow> vstate" where
  "update_screen vs = set_mem (memcpy (vmemory vs) (vmem vs) (vmem_buffer vs) (of_nat VBUF_SIZE)) vs"

section \<open>kernel/video.c: drawing\<close>

definition draw_pixel_bgr :: "int \<Rightarrow> int \<Rightarrow> byte \<Rightarrow> byte \<Rightarrow> byte \<Rightarrow> vstate \<Rightarrow> vstate" where
  "draw_pixel_bgr x y b g r vs =
     (if 0 \<le> x \<and> x < uint (Xres (mode_info vs)) \<and> 0 \<le> y \<and> y < uint (Yres (mode_info vs))
      then (let pixel = vmem_buffer vs + word_of_int (y * uint (pitch (mode_info vs))) + word_of_int (x * 3);
                m = (vmemory vs)(pixel := b);
                m = m(pixel + 1 := g);
                m = m(pixel + 2 := r)
            in set_mem m vs)
      else vs)"

definition draw_pixel :: "int \<Rightarrow> int \<Rightarrow> u32 \<Rightarrow> vstate \<Rightarrow> vstate" where
  "draw_pixel x y color vs =
     draw_pixel_bgr x y (ucast (drop_bit 16 color AND 0xff)) (ucast (drop_bit 8 color AND 0xff))
       (ucast (color AND 0xff)) vs"

definition get_color :: "mem \<Rightarrow> u32 \<Rightarrow> int \<Rightarrow> int \<Rightarrow> int \<Rightarrow> int \<Rightarrow> u32" where
  "get_color m bgr x y w h =
     (let index = (y * w + x) * 3
      in push_bit 16 (ucast (m (bgr + word_of_int index)))
         OR push_bit 8 (ucast (m (bgr + word_of_int (index + 1))))
         OR ucast (m (bgr + word_of_int (index + 2))))"

definition draw_column :: "int \<Rightarrow> int \<Rightarrow> int \<Rightarrow> int \<Rightarrow> u32 \<Rightarrow> vstate \<Rightarrow> vstate" where
  "draw_column x y width len color vs =
     (let x = x - width sdiv 2
      in for_loop 0 len (\<lambda>off_y. for_loop 0 width (\<lambda>off_x. draw_pixel (x + off_x) (y + off_y) color)) vs)"

definition draw_row :: "int \<Rightarrow> int \<Rightarrow> int \<Rightarrow> int \<Rightarrow> u32 \<Rightarrow> vstate \<Rightarrow> vstate" where
  "draw_row x y width len color vs =
     (let y = y - width sdiv 2
      in for_loop 0 width (\<lambda>off_y. for_loop 0 len (\<lambda>off_x. draw_pixel (x + off_x) (y + off_y) color)) vs)"

definition draw_border :: "int \<Rightarrow> int \<Rightarrow> int \<Rightarrow> int \<Rightarrow> int \<Rightarrow> u32 \<Rightarrow> vstate \<Rightarrow> vstate" where
  "draw_border x y w h thick color vs =
     (let vs = draw_row x (y + thick sdiv 2) thick w color vs;
          vs = draw_row x (y + h - thick + thick sdiv 2) thick w color vs;
          vs = draw_column (x + thick sdiv 2) (y + thick) thick (h - thick * 2) color vs;
          vs = draw_column (x + w - thick + thick sdiv 2) (y + thick) thick (h - thick * 2) color vs
      in vs)"

section \<open>The drawing interface\<close>

text \<open>What the drawing routines rely on: setting a pixel of the screen changes that pixel
  alone, and setting one off the screen changes nothing.\<close>

locale canvas =
  fixes put :: "int \<Rightarrow> int \<Rightarrow> u32 \<Rightarrow> 's \<Rightarrow> 's"
    and get :: "'s \<Rightarrow> int \<Rightarrow> int \<Rightarrow> u32"
    and on :: "'s \<Rightarrow> int \<Rightarrow> int \<Rightarrow> bool"
    and ok :: "'s \<Rightarrow> bool"
  assumes ok_put: "ok s \<Longrightarrow> ok (put x y c s)"
    and on_put: "on (put x y c s) = on s"
    and get_put: "ok s \<Longrightarrow> on s px py \<Longrightarrow>
      get (put x y c s) px py = (if px = x \<and> py = y then c AND 0xFFFFFF else get s px py)"
begin

text \<open>A rectangle of pixels whose colour depends on the offset, painted row by row.\<close>

lemma blit_row:
  assumes "ok s" and "on s px py" and "0 \<le> w"
  shows "(let s' = for_loop 0 w (\<lambda>ox. put (x + ox) y (f ox)) s in
      ok s' \<and> on s' = on s \<and>
      get s' px py = (if x \<le> px \<and> px < x + w \<and> py = y then f (px - x) AND 0xFFFFFF else get s px py))"
proof -
  let ?I = "\<lambda>i s'. ok s' \<and> on s' = on s \<and>
      get s' px py = (if x \<le> px \<and> px < x + i \<and> py = y then f (px - x) AND 0xFFFFFF else get s px py)"
  have "?I w (for_loop 0 w (\<lambda>ox. put (x + ox) y (f ox)) s)"
  proof (rule for_loop_inv [where I = ?I])
    fix i s' assume "0 \<le> i" "i < w" and I: "?I i s'"
    then show "?I (i + 1) (put (x + i) y (f i) s')"
      using assms(2) by (auto simp: ok_put on_put get_put)
  qed (use assms in auto)
  then show ?thesis by (simp add: Let_def)
qed

lemma blit:
  assumes "ok s" and "on s px py" and "0 \<le> w"
  shows "(let s' = for_loop 0 h (\<lambda>oy. for_loop 0 w (\<lambda>ox. put (x + ox) (y + oy) (f ox oy))) s in
      ok s' \<and> on s' = on s \<and>
      get s' px py = (if x \<le> px \<and> px < x + w \<and> y \<le> py \<and> py < y + h then f (px - x) (py - y) AND 0xFFFFFF
                      else get s px py))"
proof (cases "0 \<le> h")
  case True
  let ?row = "\<lambda>oy. for_loop 0 w (\<lambda>ox. put (x + ox) (y + oy) (f ox oy))"
  let ?I = "\<lambda>i s'. ok s' \<and> on s' = on s \<and>
      get s' px py = (if x \<le> px \<and> px < x + w \<and> y \<le> py \<and> py < y + i then f (px - x) (py - y) AND 0xFFFFFF
                      else get s px py)"
  have "?I h (for_loop 0 h ?row s)"
  proof (rule for_loop_inv [where I = ?I])
    fix i s' assume i: "0 \<le> i" "i < h" and I: "?I i s'"
    then have "ok s'" "on s' px py" using assms(2) by simp_all
    from blit_row [OF this assms(3), of x "y + i" "\<lambda>ox. f ox i"] I show "?I (i + 1) (?row i s')"
      using i by (auto simp: Let_def)
  qed (use assms True in auto)
  then show ?thesis by (simp add: Let_def)
next
  case False
  then show ?thesis using assms(1) by (auto simp: Let_def)
qed

end

section \<open>The back buffer as a canvas\<close>

text \<open>The mode fits the buffer: rows do not overlap, and the last row ends in the buffer,
  which does not wrap around the address space.\<close>

definition fits :: "ModeInfoBlock \<Rightarrow> bool" where
  "fits mi \<longleftrightarrow> 3 * unat (Xres mi) \<le> unat (pitch mi) \<and> unat (Yres mi) * unat (pitch mi) \<le> VBUF_SIZE"

definition screen_ok :: "vstate \<Rightarrow> bool" where
  "screen_ok vs \<longleftrightarrow> fits (mode_info vs) \<and> unat (vmem_buffer vs) + VBUF_SIZE \<le> 4294967296"

definition on_screen :: "vstate \<Rightarrow> int \<Rightarrow> int \<Rightarrow> bool" where
  "on_screen vs x y \<longleftrightarrow> 0 \<le> x \<and> x < uint (Xres (mode_info vs)) \<and> 0 \<le> y \<and> y < uint (Yres (mode_info vs))"

text \<open>The offset of a pixel in a buffer, and the colour stored there.\<close>

definition pixel_off :: "ModeInfoBlock \<Rightarrow> int \<Rightarrow> int \<Rightarrow> nat" where
  "pixel_off mi x y = nat y * unat (pitch mi) + nat x * 3"

definition color_at :: "mem \<Rightarrow> u32 \<Rightarrow> u32" where
  "color_at m a = push_bit 16 (ucast (m a)) OR push_bit 8 (ucast (m (a + 1))) OR ucast (m (a + 2))"

definition buffer_pixel :: "vstate \<Rightarrow> int \<Rightarrow> int \<Rightarrow> u32" where
  "buffer_pixel vs x y = color_at (vmemory vs) (vmem_buffer vs + of_nat (pixel_off (mode_info vs) x y))"

lemma pixel_off_bound:
  assumes "fits (mode_info vs)" and "on_screen vs x y"
  shows "pixel_off (mode_info vs) x y + 3 \<le> VBUF_SIZE"
proof -
  let ?P = "unat (pitch (mode_info vs))" and ?Y = "unat (Yres (mode_info vs))" and ?X = "unat (Xres (mode_info vs))"
  have xy: "nat x + 1 \<le> ?X" "nat y + 1 \<le> ?Y" using assms(2) by (auto simp: on_screen_def nat_less_iff Suc_le_eq)
  have "nat y * ?P + ?P \<le> ?Y * ?P" using mult_le_mono1 [OF xy(2), of ?P] by simp
  moreover have "nat x * 3 + 3 \<le> ?P" using xy(1) assms(1) by (simp add: fits_def)
  ultimately show ?thesis using assms(1) by (simp add: fits_def pixel_off_def)
qed

lemma pixel_off_inj:
  assumes "fits (mode_info vs)" and "on_screen vs x y" and "on_screen vs px py"
    and "i < 3" "j < 3" and "pixel_off (mode_info vs) x y + i = pixel_off (mode_info vs) px py + j"
  shows "x = px \<and> y = py \<and> i = j"
proof -
  let ?P = "unat (pitch (mode_info vs))"
  have "nat x < unat (Xres (mode_info vs))" "nat px < unat (Xres (mode_info vs))"
    using assms(2,3) by (auto simp: on_screen_def nat_less_iff)
  then have row: "nat x * 3 + i < ?P" "nat px * 3 + j < ?P"
    using assms(1,4,5) unfolding fits_def by linarith+
  have "nat y * ?P + (nat x * 3 + i) = nat py * ?P + (nat px * 3 + j)"
    using assms(6) by (simp add: pixel_off_def)
  then have "nat y = nat py" "nat x * 3 + i = nat px * 3 + j"
    using row by (metis div_mult_self3 div_less add_0_right mod_mult_self3 mod_less gr_zeroI less_nat_zero_code)+
  moreover have "a * 3 + i = b * 3 + j \<Longrightarrow> a = b" for a b :: nat using assms(4,5) by presburger
  ultimately have "nat y = nat py" "nat x = nat px" "nat x * 3 + i = nat px * 3 + j" by blast+
  moreover from this(2,3) have "i = j" by simp
  ultimately show ?thesis using assms(2,3) by (auto simp: on_screen_def)
qed

definition pixel_addr :: "vstate \<Rightarrow> int \<Rightarrow> int \<Rightarrow> u32" where
  "pixel_addr vs x y = vmem_buffer vs + of_nat (pixel_off (mode_info vs) x y)"

lemma draw_pixel_bgr_on:
  assumes "on_screen vs x y"
  shows "draw_pixel_bgr x y b g r vs
    = set_mem ((vmemory vs)(pixel_addr vs x y := b, pixel_addr vs x y + 1 := g, pixel_addr vs x y + 2 := r)) vs"
proof -
  have "y * uint (pitch (mode_info vs)) = int (nat y * unat (pitch (mode_info vs)))" "x * 3 = int (nat x * 3)"
    using assms by (simp_all add: on_screen_def)
  moreover have "word_of_int (int k) = (of_nat k :: u32)" for k by simp
  ultimately have "vmem_buffer vs + word_of_int (y * uint (pitch (mode_info vs))) + word_of_int (x * 3) = pixel_addr vs x y"
    by (simp only: pixel_addr_def pixel_off_def of_nat_add add.assoc)
  then show ?thesis using assms by (simp add: draw_pixel_bgr_def on_screen_def Let_def)
qed

lemma draw_pixel_bgr_off: "\<not> on_screen vs x y \<Longrightarrow> draw_pixel_bgr x y b g r vs = vs"
  by (auto simp: draw_pixel_bgr_def on_screen_def)

lemma set_mem_simps [simp]:
  "vmemory (set_mem m vs) = m" "mode_info (set_mem m vs) = mode_info vs" "vmem (set_mem m vs) = vmem vs"
  "vmem_buffer (set_mem m vs) = vmem_buffer vs" "screen_ok (set_mem m vs) = screen_ok vs"
  "on_screen (set_mem m vs) = on_screen vs" "pixel_addr (set_mem m vs) = pixel_addr vs"
  by (auto simp: set_mem_def screen_ok_def on_screen_def pixel_addr_def fun_eq_iff)

lemma pixel_addr_plus: "pixel_addr vs x y + of_nat i = vmem_buffer vs + of_nat (pixel_off (mode_info vs) x y + i)"
  by (simp add: pixel_addr_def add.assoc)

lemma pixel_addr_inj:
  assumes "screen_ok vs" and "on_screen vs x y" and "on_screen vs px py" and "i < 3" "j < 3"
    and "pixel_addr vs x y + of_nat i = pixel_addr vs px py + of_nat j"
  shows "x = px \<and> y = py \<and> i = j"
proof (rule pixel_off_inj [of vs])
  show fit: "fits (mode_info vs)" using assms(1) by (simp add: screen_ok_def)
  let ?k = "pixel_off (mode_info vs) x y + i" and ?l = "pixel_off (mode_info vs) px py + j"
  have "?k < 4294967296" "?l < 4294967296"
    using pixel_off_bound [OF fit assms(2)] pixel_off_bound [OF fit assms(3)] assms(4,5) by (simp_all add: VBUF_SIZE_def)
  moreover have "(of_nat ?k :: u32) = of_nat ?l" using assms(6) unfolding pixel_addr_plus by simp
  ultimately show "?k = ?l" by (metis unat_of_nat32)
qed (use assms in auto)

lemma color_at_bytes:
  "color_at (m(a := ucast (drop_bit 16 c AND 0xff), a + 1 := ucast (drop_bit 8 c AND 0xff), a + 2 := ucast (c AND 0xff))) a
     = c AND 0xFFFFFF"
proof -
  have m: "(0xff :: u32) = mask 8" "(0xFFFFFF :: u32) = mask 24" by (simp_all add: mask_eq_exp_minus_1)
  show ?thesis unfolding m
  proof (rule bit_word_eqI)
    fix n :: nat assume "n < LENGTH(32)"
    then consider "n < 8" | "8 \<le> n \<and> n < 16" | "16 \<le> n \<and> n < 24" | "24 \<le> n \<and> n < 32" by fastforce
    then show "bit (color_at (m(a := ucast (drop_bit 16 c AND mask 8), a + 1 := ucast (drop_bit 8 c AND mask 8),
        a + 2 := ucast (c AND mask 8))) a) n = bit (c AND mask 24) n"
      by cases (auto simp: color_at_def bit_simps)
  qed
qed

interpretation screen: canvas draw_pixel buffer_pixel on_screen screen_ok
proof
  fix vs x y c px py
  show "screen_ok vs \<Longrightarrow> screen_ok (draw_pixel x y c vs)"
    by (cases "on_screen vs x y") (simp_all add: draw_pixel_def draw_pixel_bgr_on draw_pixel_bgr_off)
  show "on_screen (draw_pixel x y c vs) = on_screen vs"
    by (cases "on_screen vs x y") (simp_all add: draw_pixel_def draw_pixel_bgr_on draw_pixel_bgr_off)
  assume ok: "screen_ok vs" and on: "on_screen vs px py"
  have get: "buffer_pixel vs' qx qy = color_at (vmemory vs') (pixel_addr vs' qx qy)" for vs' qx qy
    by (simp add: buffer_pixel_def pixel_addr_def)
  show "buffer_pixel (draw_pixel x y c vs) px py = (if px = x \<and> py = y then c AND 0xFFFFFF else buffer_pixel vs px py)"
  proof (cases "on_screen vs x y")
    case False
    with on show ?thesis by (auto simp: draw_pixel_def draw_pixel_bgr_off)
  next
    case True
    show ?thesis
    proof (cases "px = x \<and> py = y")
      case same: True
      then show ?thesis by (simp add: get draw_pixel_def draw_pixel_bgr_on [OF True] color_at_bytes)
    next
      case False
      have ne: "pixel_addr vs px py + of_nat j \<noteq> pixel_addr vs x y + of_nat i" if "i < 3" "j < 3" for i j
        using pixel_addr_inj [OF ok on True that(2,1)] False by auto
      have "buffer_pixel (draw_pixel x y c vs) px py = buffer_pixel vs px py"
        using ne [of 0 0] ne [of 0 1] ne [of 0 2] ne [of 1 0] ne [of 1 1] ne [of 1 2] ne [of 2 0] ne [of 2 1] ne [of 2 2]
        by (simp add: get draw_pixel_def draw_pixel_bgr_on [OF True] color_at_def)
      with False show ?thesis by auto
    qed
  qed
qed

lemma get_color_eq:
  "0 \<le> x \<Longrightarrow> 0 \<le> y \<Longrightarrow> 0 \<le> w \<Longrightarrow> get_color m bgr x y w h = color_at m (bgr + of_nat (nat ((y * w + x) * 3)))"
  by (simp add: get_color_def color_at_def Let_def add.assoc)

section \<open>What drawing leaves alone\<close>

definition draws :: "vstate \<Rightarrow> vstate \<Rightarrow> bool" where
  "draws vs vs' \<longleftrightarrow> mode_info vs' = mode_info vs \<and> vmem vs' = vmem vs \<and> vmem_buffer vs' = vmem_buffer vs
     \<and> kpages (kern vs') = kpages (kern vs) \<and> kpgdir (kern vs') = kpgdir (kern vs)
     \<and> cr0 (kern vs') = cr0 (kern vs) \<and> cr3 (kern vs') = cr3 (kern vs) \<and> klog (kern vs') = klog (kern vs)
     \<and> (\<forall>a. in_reg (vmem_buffer vs) VBUF_SIZE a \<or> vmemory vs' a = vmemory vs a)"

lemma draws_refl: "draws vs vs"
  by (simp add: draws_def)

lemma draws_trans: "draws vs vs1 \<Longrightarrow> draws vs1 vs2 \<Longrightarrow> draws vs vs2"
  unfolding draws_def by auto metis

lemma draws_screen_ok: "draws vs vs' \<Longrightarrow> screen_ok vs' = screen_ok vs"
  by (simp add: draws_def screen_ok_def)

lemma draws_on_screen: "draws vs vs' \<Longrightarrow> on_screen vs' = on_screen vs"
  by (simp add: draws_def on_screen_def fun_eq_iff)

lemma draws_set_mem:
  "(\<And>a. \<not> in_reg (vmem_buffer vs) VBUF_SIZE a \<Longrightarrow> m a = vmemory vs a) \<Longrightarrow> draws vs (set_mem m vs)"
  by (auto simp: draws_def set_mem_def)

lemma pixel_in_buffer:
  assumes "screen_ok vs" and "on_screen vs x y" and "i < 3"
  shows "in_reg (vmem_buffer vs) VBUF_SIZE (pixel_addr vs x y + of_nat i)"
proof -
  have "pixel_off (mode_info vs) x y + 3 \<le> VBUF_SIZE"
    using assms by (intro pixel_off_bound) (simp_all add: screen_ok_def)
  then show ?thesis unfolding pixel_addr_plus using assms(3)
    by (intro in_reg_index) (simp_all add: VBUF_SIZE_def)
qed

lemma draws_draw_pixel: "screen_ok vs \<Longrightarrow> draws vs (draw_pixel x y c vs)"
proof (cases "on_screen vs x y")
  case True
  assume "screen_ok vs"
  from pixel_in_buffer [OF this True, of 0] pixel_in_buffer [OF this True, of 1] pixel_in_buffer [OF this True, of 2]
  show ?thesis unfolding draw_pixel_def draw_pixel_bgr_on [OF True] by (intro draws_set_mem) auto
qed (simp add: draw_pixel_def draw_pixel_bgr_off draws_refl)

lemma draws_for_loop:
  assumes "\<And>i vs. lo \<le> i \<Longrightarrow> i < hi \<Longrightarrow> screen_ok vs \<Longrightarrow> draws vs (body i vs)" and "screen_ok vs"
  shows "draws vs (for_loop lo hi body vs)"
proof -
  let ?I = "\<lambda>s. draws vs s"
  have "?I (for_loop lo hi body vs)"
  proof (rule for_loop_inv_const [where I = ?I])
    fix i s assume "lo \<le> i" "i < hi" "?I s"
    then show "?I (body i s)"
      using assms draws_screen_ok [of vs s] draws_trans [of vs s "body i s"] by blast
  qed (rule draws_refl)
  then show ?thesis .
qed

lemma draws_column: "screen_ok vs \<Longrightarrow> draws vs (draw_column x y width len color vs)"
  unfolding draw_column_def Let_def by (intro draws_for_loop draws_draw_pixel)

lemma draws_row: "screen_ok vs \<Longrightarrow> draws vs (draw_row x y width len color vs)"
  unfolding draw_row_def Let_def by (intro draws_for_loop draws_draw_pixel)

lemma draws_border:
  assumes "screen_ok vs"
  shows "draws vs (draw_border x y w h thick color vs)"
proof -
  let ?a = "draw_row x (y + thick sdiv 2) thick w color vs"
  let ?d = "draw_row x (y + h - thick + thick sdiv 2) thick w color ?a"
  let ?b = "draw_column (x + thick sdiv 2) (y + thick) thick (h - thick * 2) color ?d"
  have "draws vs ?a" using assms by (rule draws_row)
  moreover from draws_screen_ok [OF this] have "draws ?a ?d" using assms by (intro draws_row) simp
  ultimately have d: "draws vs ?d" by (rule draws_trans)
  moreover from draws_screen_ok [OF d] have "draws ?d ?b" using assms by (intro draws_column) simp
  ultimately have b: "draws vs ?b" by (rule draws_trans)
  moreover from draws_screen_ok [OF b] have "draws ?b (draw_border x y w h thick color vs)"
    unfolding draw_border_def Let_def using assms by (intro draws_column) simp
  ultimately show ?thesis by (rule draws_trans)
qed

section \<open>What drawing shows\<close>

lemma column_pixel:
  assumes "screen_ok vs" "on_screen vs px py" "0 \<le> width"
  shows "buffer_pixel (draw_column x y width len color vs) px py
    = (if x - width sdiv 2 \<le> px \<and> px < x - width sdiv 2 + width \<and> y \<le> py \<and> py < y + len
       then color AND 0xFFFFFF else buffer_pixel vs px py)"
  using screen.blit [OF assms, where x = "x - width sdiv 2" and y = y and h = len and f = "\<lambda>_ _. color"]
  by (simp add: draw_column_def Let_def)

lemma row_pixel:
  assumes "screen_ok vs" "on_screen vs px py" "0 \<le> len"
  shows "buffer_pixel (draw_row x y width len color vs) px py
    = (if x \<le> px \<and> px < x + len \<and> y - width sdiv 2 \<le> py \<and> py < y - width sdiv 2 + width
       then color AND 0xFFFFFF else buffer_pixel vs px py)"
  using screen.blit [OF assms, where x = x and y = "y - width sdiv 2" and h = width and f = "\<lambda>_ _. color"]
  by (simp add: draw_row_def Let_def)

lemma border_pixel:
  assumes "screen_ok vs" "on_screen vs px py" "0 \<le> thick" "0 \<le> w"
  shows "buffer_pixel (draw_border x y w h thick color vs) px py
    = (if (x \<le> px \<and> px < x + w \<and> (y \<le> py \<and> py < y + thick \<or> y + h - thick \<le> py \<and> py < y + h))
        \<or> ((x \<le> px \<and> px < x + thick \<or> x + w - thick \<le> px \<and> px < x + w) \<and> y + thick \<le> py \<and> py < y + h - thick)
       then color AND 0xFFFFFF else buffer_pixel vs px py)"
proof -
  note keep = draws_screen_ok draws_on_screen
  let ?a = "draw_row x (y + thick sdiv 2) thick w color vs"
  let ?d = "draw_row x (y + h - thick + thick sdiv 2) thick w color ?a"
  let ?b = "draw_column (x + thick sdiv 2) (y + thick) thick (h - thick * 2) color ?d"
  have a: "screen_ok ?a" "on_screen ?a px py" using assms keep [OF draws_row] by simp_all
  have d: "screen_ok ?d" "on_screen ?d px py" using a keep [OF draws_row [OF a(1)]] by simp_all
  have b: "screen_ok ?b" "on_screen ?b px py" using d keep [OF draws_column [OF d(1)]] by simp_all
  show ?thesis
    unfolding draw_border_def Let_def column_pixel [OF b assms(3)] column_pixel [OF d assms(3)]
      row_pixel [OF a assms(4)] row_pixel [OF assms(1,2,4)]
    by (auto simp: algebra_simps)
qed

section \<open>Clearing and showing the buffer\<close>

lemma init_video_buffer_spec:
  assumes "screen_ok vs"
  shows "draws vs (init_video_buffer vs)"
    and "on_screen vs px py \<Longrightarrow> buffer_pixel (init_video_buffer vs) px py = 0"
proof -
  have size: "unat (of_nat VBUF_SIZE :: u32) = VBUF_SIZE" by (simp add: VBUF_SIZE_def)
  show "draws vs (init_video_buffer vs)"
    unfolding init_video_buffer_def by (rule draws_set_mem) (simp add: memset_apply size)
  assume on: "on_screen vs px py"
  from pixel_in_buffer [OF assms on, of 0] pixel_in_buffer [OF assms on, of 1] pixel_in_buffer [OF assms on, of 2]
  have "in_reg (vmem_buffer vs) VBUF_SIZE (pixel_addr vs px py)" "in_reg (vmem_buffer vs) VBUF_SIZE (pixel_addr vs px py + 1)"
    "in_reg (vmem_buffer vs) VBUF_SIZE (pixel_addr vs px py + 2)" by simp_all
  then have "color_at (memset (vmemory vs) (vmem_buffer vs) 0 (of_nat VBUF_SIZE)) (pixel_addr vs px py) = 0"
    by (simp add: color_at_def memset_apply size)
  then show "buffer_pixel (init_video_buffer vs) px py = 0"
    by (simp add: init_video_buffer_def buffer_pixel_def pixel_addr_def)
qed

text \<open>The pixel that the monitor shows: the one in video memory.\<close>

definition shown_pixel :: "vstate \<Rightarrow> int \<Rightarrow> int \<Rightarrow> u32" where
  "shown_pixel vs x y = color_at (vmemory vs) (vmem vs + of_nat (pixel_off (mode_info vs) x y))"

definition vmem_ok :: "vstate \<Rightarrow> bool" where
  "vmem_ok vs \<longleftrightarrow> unat (vmem vs) + VBUF_SIZE \<le> 4294967296 \<and> unat (vmem_buffer vs) + VBUF_SIZE < 4294967296"

lemma update_screen_mem:
  assumes "vmem_ok vs"
  shows "vmemory (update_screen vs) a
    = (if in_reg (vmem vs) VBUF_SIZE a then vmemory vs (vmem_buffer vs + (a - vmem vs)) else vmemory vs a)"
proof -
  have size: "unat (of_nat VBUF_SIZE :: u32) = VBUF_SIZE" by (simp add: VBUF_SIZE_def)
  show ?thesis
    using assms by (simp add: update_screen_def memcpy_def memmove_apply size vmem_ok_def)
qed

lemma update_screen_pixel:
  assumes "vmem_ok vs" and "screen_ok vs" and "on_screen vs x y"
  shows "shown_pixel (update_screen vs) x y = buffer_pixel vs x y"
proof -
  let ?k = "pixel_off (mode_info vs) x y"
  have k: "?k + 3 \<le> VBUF_SIZE" using assms(2,3) by (intro pixel_off_bound) (simp_all add: screen_ok_def)
  have byte: "vmemory (update_screen vs) (vmem vs + of_nat (?k + i)) = vmemory vs (vmem_buffer vs + of_nat (?k + i))"
    if "i < 3" for i
  proof -
    have "in_reg (vmem vs) VBUF_SIZE (vmem vs + of_nat (?k + i))"
      using k that by (intro in_reg_index) (simp_all add: VBUF_SIZE_def)
    then show ?thesis by (simp add: update_screen_mem [OF assms(1)])
  qed
  have "vmem (update_screen vs) = vmem vs" "mode_info (update_screen vs) = mode_info vs"
    by (simp_all add: update_screen_def)
  then show ?thesis
    using byte [of 0] byte [of 1] byte [of 2] by (simp add: shown_pixel_def buffer_pixel_def color_at_def ac_simps)
qed

section \<open>What a frame may change\<close>

text \<open>Drawing and showing together: only the back buffer and the frame buffer are written.\<close>

definition paints :: "vstate \<Rightarrow> vstate \<Rightarrow> bool" where
  "paints vs vs' \<longleftrightarrow> mode_info vs' = mode_info vs \<and> vmem vs' = vmem vs \<and> vmem_buffer vs' = vmem_buffer vs
     \<and> kpages (kern vs') = kpages (kern vs) \<and> kpgdir (kern vs') = kpgdir (kern vs)
     \<and> cr0 (kern vs') = cr0 (kern vs) \<and> cr3 (kern vs') = cr3 (kern vs) \<and> klog (kern vs') = klog (kern vs)
     \<and> (\<forall>a. in_reg (vmem_buffer vs) VBUF_SIZE a \<or> in_reg (vmem vs) VBUF_SIZE a \<or> vmemory vs' a = vmemory vs a)"

lemma draws_paints: "draws vs vs' \<Longrightarrow> paints vs vs'"
  by (auto simp: draws_def paints_def)

lemma paints_refl: "paints vs vs"
  by (simp add: paints_def)

lemma paints_trans: "paints vs vs1 \<Longrightarrow> paints vs1 vs2 \<Longrightarrow> paints vs vs2"
  unfolding paints_def by auto metis

lemma paints_ok: "paints vs vs' \<Longrightarrow> screen_ok vs' = screen_ok vs" "paints vs vs' \<Longrightarrow> vmem_ok vs' = vmem_ok vs"
  by (simp_all add: paints_def screen_ok_def vmem_ok_def)

lemma paints_update_screen: "vmem_ok vs \<Longrightarrow> paints vs (update_screen vs)"
proof -
  assume "vmem_ok vs"
  from update_screen_mem [OF this] show ?thesis by (auto simp: paints_def update_screen_def set_mem_def)
qed

lemma paints_shown:
  assumes "draws vs vs1" and "vmem_ok vs"
  shows "paints vs (update_screen vs1)"
  using paints_trans [OF draws_paints [OF assms(1)]] paints_update_screen [of vs1] paints_ok(2) [OF draws_paints [OF assms(1)]]
    assms(2) by blast

section \<open>Properties\<close>

text \<open>C28: a pixel drawn on the screen reads back with its 24-bit colour and no other pixel
  changes; off the screen nothing changes; in both cases no byte outside the back buffer
  is written, when the mode's rows fit the buffer.\<close>

theorem draw_pixel_exact:
  assumes "screen_ok vs"
  shows "(\<forall>px py. \<not> on_screen vs px py \<or> buffer_pixel (draw_pixel x y c vs) px py
        = (if px = x \<and> py = y then c AND 0xFFFFFF else buffer_pixel vs px py))
    \<and> (on_screen vs x y \<or> draw_pixel x y c vs = vs) \<and> draws vs (draw_pixel x y c vs)"
proof (intro conjI)
  show "on_screen vs x y \<or> draw_pixel x y c vs = vs"
    by (cases "on_screen vs x y") (simp_all add: draw_pixel_def draw_pixel_bgr_off)
qed (use screen.get_put [OF assms] draws_draw_pixel [OF assms] in blast)+

definition vga :: vstate where
  "vga = \<lparr>kern = \<lparr>kpages = \<lparr>free_page_list = None, page_pool = \<lambda>_. empty_page\<rparr>, kmem = (\<lambda>_. 7), kpgdir = 0,
       cr0 = 0, cr3 = 0, klog = []\<rparr>,
     mode_info = (ModeInfoBlock_at (\<lambda>_. 0) 0)\<lparr>pitch := 2400, Xres := 800, Yres := 600\<rparr>,
     vmem = 0xFD000000, vmem_buffer = 0x300000\<rparr>"

lemma vga_ok: "screen_ok vga" "vmem_ok vga" "on_screen vga x y \<longleftrightarrow> 0 \<le> x \<and> x < 800 \<and> 0 \<le> y \<and> y < 600"
  by (simp_all add: vga_def screen_ok_def fits_def vmem_ok_def on_screen_def VBUF_SIZE_def)

theorem draw_pixel_exact_witness:
  "buffer_pixel (draw_pixel 799 599 0xAB123456 vga) 799 599 = 0x123456 \<and> draws vga (draw_pixel 799 599 0xAB123456 vga)"
  using draw_pixel_exact [OF vga_ok(1), of 799 599 "0xAB123456"] vga_ok(3) by simp

text \<open>\<open>draw_border\<close> paints exactly the frame of the given thickness inside the rectangle
  (clipped to the screen), and nothing else; it writes to the back buffer only.\<close>

lemma draw_border_frame:
  assumes "screen_ok vs" and "on_screen vs px py" and "0 \<le> thick" and "2 * thick \<le> w" and "2 * thick \<le> h"
  shows "buffer_pixel (draw_border x y w h thick color vs) px py
    = (if (x \<le> px \<and> px < x + w \<and> y \<le> py \<and> py < y + h)
        \<and> \<not> (x + thick \<le> px \<and> px < x + w - thick \<and> y + thick \<le> py \<and> py < y + h - thick)
       then color AND 0xFFFFFF else buffer_pixel vs px py)
    \<and> draws vs (draw_border x y w h thick color vs)"
proof -
  have "0 \<le> w" using assms(3,4) by simp
  from border_pixel [OF assms(1-3) this] show ?thesis
    using assms(3-5) draws_border [OF assms(1)] by auto
qed

lemma draw_border_frame_witness:
  "buffer_pixel (draw_border 100 200 100 100 3 0xFF vga) 102 250 = 0xFF
    \<and> buffer_pixel (draw_border 100 200 100 100 3 0xFF vga) 103 250 = buffer_pixel vga 103 250"
  using draw_border_frame [OF vga_ok(1), of 102 250 3 100 100 100 200 "0xFF"]
    draw_border_frame [OF vga_ok(1), of 103 250 3 100 100 100 200 "0xFF"] by (simp add: vga_ok(3))

text \<open>After \<open>update_screen\<close> every pixel of the screen shows the back buffer's pixel, the
  video memory holds all of the buffer, and no other byte has changed.\<close>

lemma update_screen_shows:
  assumes "vmem_ok vs" and "screen_ok vs"
  shows "(\<forall>x y. \<not> on_screen vs x y \<or> shown_pixel (update_screen vs) x y = buffer_pixel vs x y)
    \<and> (\<forall>a. vmemory (update_screen vs) a
        = (if in_reg (vmem vs) VBUF_SIZE a then vmemory vs (vmem_buffer vs + (a - vmem vs)) else vmemory vs a))"
  using update_screen_pixel [OF assms] update_screen_mem [OF assms(1)] by blast

lemma update_screen_shows_witness:
  "shown_pixel (update_screen (draw_pixel 5 6 0x123456 vga)) 5 6 = buffer_pixel (draw_pixel 5 6 0x123456 vga) 5 6"
proof -
  have "draws vga (draw_pixel 5 6 0x123456 vga)" by (rule draws_draw_pixel [OF vga_ok(1)])
  then have "screen_ok (draw_pixel 5 6 0x123456 vga)" "vmem_ok (draw_pixel 5 6 0x123456 vga)"
    "on_screen (draw_pixel 5 6 0x123456 vga) = on_screen vga"
    using vga_ok(1,2) by (simp_all add: draws_screen_ok draws_on_screen) (simp add: draws_def vmem_ok_def)
  then show ?thesis using update_screen_shows [of "draw_pixel 5 6 0x123456 vga"] vga_ok(3) by auto
qed

definition init_video_log :: "ModeInfoBlock \<Rightarrow> u32 \<Rightarrow> log_call list" where
  "init_video_log mi sz = LogExpr ''kernel/video.c'' ''init_video'' 55 ''mode_info.pitch'' (ucast (pitch mi))
     # map_log (physbase mi) (rounddown (physbase mi + sz))"

lemma init_video_spec:
  fixes vs :: vstate
  assumes mi: "mi = ModeInfoBlock_at (vmemory vs) 0xf000"
    and inv: "pages_inv (kpages (kern vs)) (xs @ ys)" and ok: "tables_ok (vmemory vs) (kpgdir (kern vs)) (xs @ ys)"
    and aligned: "unat (physbase mi) mod 4194304 = 0" and high: "4194304 \<le> unat (physbase mi)"
    and top: "unat (physbase mi) + unat (Yres mi) * unat (pitch mi) < 4294967296"
    and size: "sz = of_nat (unat (Yres mi) * unat (pitch mi))"
    and len: "length xs = Suc (unat (PDX (physbase mi + sz))) - unat (PDX (physbase mi))"
  shows "\<exists>vs'. init_video vs = Inr vs' \<and> mode_info vs' = mi \<and> vmem vs' = physbase mi
    \<and> vmem_buffer vs' = vmem_buffer vs \<and> kpgdir (kern vs') = kpgdir (kern vs) \<and> pages_inv (kpages (kern vs')) ys
    \<and> (\<forall>la. translate (vmemory vs') (kpgdir (kern vs)) la =
        (if PDX (physbase mi) \<le> PDX la \<and> PDX la \<le> PDX (physbase mi + sz) then Some la
         else translate (vmemory vs) (kpgdir (kern vs)) la))
    \<and> cr0 (kern vs') = cr0 (kern vs) \<and> cr3 (kern vs') = cr3 (kern vs)
    \<and> klog (kern vs') = klog (kern vs) @ init_video_log mi sz \<and> tables_ok (vmemory vs') (kpgdir (kern vs)) ys
    \<and> (\<forall>a. unat a div 4096 \<in> insert (unat (kpgdir (kern vs)) div 4096) (set xs) \<or> vmemory vs' a = vmemory vs a)"
proof -
  let ?p = "physbase mi"
  let ?ks = "log_expr ''kernel/video.c'' ''init_video'' 55 ''mode_info.pitch'' (ucast (pitch mi)) (kern vs)"
  have ks: "kpages ?ks = kpages (kern vs)" "kmem ?ks = vmemory vs" "kpgdir ?ks = kpgdir (kern vs)"
    "cr0 ?ks = cr0 (kern vs)" "cr3 ?ks = cr3 (kern vs)"
    by (simp_all add: log_expr_def)
  have "unat (Yres mi) * unat (pitch mi) < 4294967296" using top by linarith
  then have sz: "unat sz = unat (Yres mi) * unat (pitch mi)" by (simp only: size unat_of_nat32)
  have prod: "ucast (Yres mi) * ucast (pitch mi) = sz" by (simp add: size)
  have al4: "unat ?p mod 4096 = 0"
    using aligned mod_mod_cancel [of 4096 4194304 "unat ?p"] by simp
  obtain ks' where run: "mm_continous_map (kpgdir (kern vs)) ?p ?p sz ?ks = Inr ks'"
    and dir: "kpgdir ks' = kpgdir (kern vs)" and inv': "pages_inv (kpages ks') ys"
    and cr: "cr0 ks' = cr0 (kern vs)" "cr3 ks' = cr3 (kern vs)"
    and lg: "klog ks' = klog ?ks @ map_log ?p (rounddown (?p + sz))" and tok: "tables_ok (kmem ks') (kpgdir (kern vs)) ys"
    and out: "\<forall>a. unat a div 4096 \<in> insert (unat (kpgdir (kern vs)) div 4096) (set xs) \<or> kmem ks' a = vmemory vs a"
    and tr: "\<And>la. translate (kmem ks') (kpgdir (kern vs)) la =
        (if PDX ?p \<le> PDX la \<and> PDX la \<le> PDX (?p + sz)
         then Some (?p + (la - ?p) + of_nat (unat ?p mod 4194304))
         else translate (vmemory vs) (kpgdir (kern vs)) la)"
    using mm_map_above_4m [where ks = ?ks and xs = xs and ys = ys and pgdir = "kpgdir (kern vs)" and p = ?p and v = ?p
      and sz = sz, unfolded ks, OF inv ok al4 al4 _ _ len] top high sz by auto
  have "init_video vs = Inr (vs\<lparr>mode_info := mi, vmem := ?p, kern := ks'\<rparr>)"
    using run by (simp add: init_video_def Let_def mi [symmetric] prod get_kpgdir_def log_expr_def)
  moreover have "klog ks' = klog (kern vs) @ init_video_log mi sz"
    unfolding lg by (simp add: log_expr_def init_video_log_def)
  ultimately show ?thesis using dir inv' cr out tok by (simp add: tr aligned)
qed

text \<open>Without a page for every table \<open>init_video\<close> panics, with its lines logged and only the
  directory and free pages written.\<close>

lemma init_video_panics:
  fixes vs :: vstate
  assumes mi: "mi = ModeInfoBlock_at (vmemory vs) 0xf000"
    and inv: "pages_inv (kpages (kern vs)) xs" and ok: "tables_ok (vmemory vs) (kpgdir (kern vs)) xs"
    and aligned: "unat (physbase mi) mod 4194304 = 0"
    and size: "sz = of_nat (unat (Yres mi) * unat (pitch mi))"
    and len: "length xs < Suc (unat (PDX (physbase mi + sz))) - unat (PDX (physbase mi))"
  shows "\<exists>vs'. init_video vs = Inl (Panic no_free_page, vs') \<and> vmem_buffer vs' = vmem_buffer vs
    \<and> klog (kern vs') = klog (kern vs) @ init_video_log mi sz
    \<and> (\<forall>a. unat a div 4096 \<in> insert (unat (kpgdir (kern vs)) div 4096) (set xs) \<or> vmemory vs' a = vmemory vs a)"
proof -
  let ?p = "physbase mi"
  let ?ks = "log_expr ''kernel/video.c'' ''init_video'' 55 ''mode_info.pitch'' (ucast (pitch mi)) (kern vs)"
  have ks: "kpages ?ks = kpages (kern vs)" "kmem ?ks = vmemory vs" "kpgdir ?ks = kpgdir (kern vs)"
    by (simp_all add: log_expr_def)
  have prod: "ucast (Yres mi) * ucast (pitch mi) = sz" by (simp add: size)
  have "unat ?p mod 4096 = 0"
    using aligned mod_mod_cancel [of 4096 4194304 "unat ?p"] by simp
  then have al: "?p = roundup ?p" by (rule roundup_aligned [symmetric])
  have e: "PDX (rounddown (?p + sz)) = PDX (?p + sz)"
    by (simp add: word_unat_eq_iff unat_PDX unat_rounddown_div)
  obtain ks' where run: "mm_continous_map (kpgdir (kern vs)) ?p ?p sz ?ks = Inl (Panic no_free_page, ks')"
    and lg: "klog ks' = klog ?ks @ map_log ?p (rounddown (?p + sz))"
    and out: "\<forall>a. unat a div 4096 \<in> insert (unat (kpgdir (kern vs)) div 4096) (set xs) \<or> kmem ks' a = vmemory vs a"
    using mm_continous_map_panics [OF inv [folded ks(1)] ok [folded ks(2)] al refl, of sz ?p, folded al, unfolded e, OF len]
    unfolding ks by blast
  have "init_video vs = Inl (Panic no_free_page, vs\<lparr>mode_info := mi, vmem := ?p, kern := ks'\<rparr>)"
    using run by (simp add: init_video_def Let_def mi [symmetric] prod get_kpgdir_def log_expr_def)
  moreover have "klog ks' = klog (kern vs) @ init_video_log mi sz"
    unfolding lg by (simp add: log_expr_def init_video_log_def)
  ultimately show ?thesis using out by simp
qed

text \<open>\<open>init_video\<close> copies the mode information, takes its frame buffer address, and makes
  the frame buffer accessible at its physical address, when that is aligned to 4 MB and
  the pool can supply the tables: all of it, and nothing else, is added to the mapping,
  each address mapped to itself.\<close>

lemma init_video_maps:
  fixes vs :: vstate
  assumes mi: "mi = ModeInfoBlock_at (vmemory vs) 0xf000"
    and inv: "pages_inv (kpages (kern vs)) (xs @ ys)" and ok: "tables_ok (vmemory vs) (kpgdir (kern vs)) (xs @ ys)"
    and aligned: "unat (physbase mi) mod 4194304 = 0" and high: "4194304 \<le> unat (physbase mi)"
    and top: "unat (physbase mi) + unat (Yres mi) * unat (pitch mi) < 4294967296"
    and size: "sz = of_nat (unat (Yres mi) * unat (pitch mi))"
    and len: "length xs = Suc (unat (PDX (physbase mi + sz))) - unat (PDX (physbase mi))"
  shows "\<exists>vs'. init_video vs = Inr vs' \<and> mode_info vs' = mi \<and> vmem vs' = physbase mi
    \<and> vmem_buffer vs' = vmem_buffer vs \<and> kpgdir (kern vs') = kpgdir (kern vs) \<and> pages_inv (kpages (kern vs')) ys
    \<and> (\<forall>la. translate (vmemory vs') (kpgdir (kern vs)) la =
        (if PDX (physbase mi) \<le> PDX la \<and> PDX la \<le> PDX (physbase mi + sz) then Some la
         else translate (vmemory vs) (kpgdir (kern vs)) la))"
  using init_video_spec [OF assms] by blast

text \<open>A machine with the mode information of 800 by 600 pixels and an empty directory.\<close>

definition vbe_mem :: mem where
  "vbe_mem = (\<lambda>_. 0)(0xF010 := 0x60, 0xF011 := 0x09, 0xF012 := 0x20, 0xF013 := 0x03,
      0xF014 := 0x58, 0xF015 := 0x02, 0xF02B := 0xFD)"

definition vbe_state :: vstate where
  "vbe_state = \<lparr>kern = \<lparr>kpages = \<lparr>free_page_list = Some 1000, page_pool = linked_pool 1000 1003\<rparr>,
      kmem = vbe_mem, kpgdir = 0x2000, cr0 = 0, cr3 = 0, klog = []\<rparr>,
    mode_info = mode_info vga, vmem = 0, vmem_buffer = 0x300000\<rparr>"

lemma vbe_mode:
  "Yres (ModeInfoBlock_at (vmemory vbe_state) 0xf000) = 600" "pitch (ModeInfoBlock_at (vmemory vbe_state) 0xf000) = 2400"
  "physbase (ModeInfoBlock_at (vmemory vbe_state) 0xf000) = 0xFD000000"
  by (simp_all add: ModeInfoBlock_at_def load16_def load32_def vbe_state_def vbe_mem_def)

lemma vbe_directory: "t < 1024 \<Longrightarrow> load32 vbe_mem (slot 0x2000 t) = 0"
proof (rule load_slot_zero)
  fix a assume "in_reg 0x2000 4096 a"
  then show "vbe_mem a = 0" by (auto simp: in_reg_nat vbe_mem_def)
qed

lemma vbe_ok:
  "pages_inv (kpages (kern vbe_state)) ([1000] @ [1001, 1002])"
  "tables_ok (vmemory vbe_state) (kpgdir (kern vbe_state)) ([1000] @ [1001, 1002])"
  "length [1000 :: nat] = Suc (unat (PDX (0xFD000000 + 1440000))) - unat (PDX 0xFD000000)"
  "unat (0xFD000000 :: u32) mod 4194304 = 0" "4194304 \<le> unat (0xFD000000 :: u32)"
  "unat (0xFD000000 :: u32) + unat (600 :: u16) * unat (2400 :: u16) < 4294967296"
  "(1440000 :: u32) = of_nat (unat (600 :: u16) * unat (2400 :: u16))"
proof -
  show "pages_inv (kpages (kern vbe_state)) ([1000] @ [1001, 1002])"
    by (simp add: vbe_state_def pages_inv_def page_ok_def linked_pool_def NR_PAGES_def)
  show "tables_ok (vmemory vbe_state) (kpgdir (kern vbe_state)) ([1000] @ [1001, 1002])"
    using vbe_directory by (simp add: vbe_state_def tables_ok_def)
  show "length [1000 :: nat] = Suc (unat (PDX (0xFD000000 + 1440000))) - unat (PDX 0xFD000000)"
    by (simp add: PDX_def PDXSHIFT_def)
qed simp_all

lemma init_video_maps_witness:
  "\<exists>vs'. init_video vbe_state = Inr vs' \<and> vmem vs' = 0xFD000000 \<and> uint (Yres (mode_info vs')) = 600
    \<and> translate (vmemory vs') (kpgdir (kern vbe_state)) 0xFD000000 = Some 0xFD000000"
proof -
  obtain vs' where vs': "init_video vbe_state = Inr vs'" "mode_info vs' = ModeInfoBlock_at (vmemory vbe_state) 0xf000"
    "vmem vs' = 0xFD000000"
    and tr: "\<forall>la. translate (vmemory vs') (kpgdir (kern vbe_state)) la =
        (if PDX 0xFD000000 \<le> PDX la \<and> PDX la \<le> PDX (0xFD000000 + 1440000) then Some la
         else translate (vmemory vbe_state) (kpgdir (kern vbe_state)) la)"
    using init_video_maps [OF refl vbe_ok(1,2), unfolded vbe_mode, OF vbe_ok(4-7,3)] by blast
  have "PDX 0xFD000000 \<le> PDX (0xFD000000 + 1440000)" by (simp add: PDX_def PDXSHIFT_def)
  then have "translate (vmemory vs') (kpgdir (kern vbe_state)) 0xFD000000 = Some 0xFD000000"
    using tr [rule_format, of "0xFD000000"] by simp
  moreover have "uint (Yres (mode_info vs')) = 600" unfolding vs'(2) vbe_mode by simp
  ultimately show ?thesis using vs'(1,3) by blast
qed

end
