(* ===== verification/Game.thy ===== *)
theory Game
  imports Video Keyboard "HOL-Library.Multiset"
begin

text \<open>
  The sliding-block picture puzzle \<open>kernel/game.c\<close>: the game state, drawing a frame,
  reacting to a key, the test for a solved puzzle, and the main loop.

  The array \<open>block\<close> is a list; an access outside of it is a fault. The picture (a generated
  file: its bytes, width and height) is a parameter, and so is the keyboard. Screen
  coordinates and sizes are the C integers.
\<close>

section \<open>kernel/game.c\<close>

datatype SelState = GAME_SEL_NONE | GAME_SEL_SELECTED

record GameState =
  image :: u32
  image_w :: int
  image_h :: int
  block :: "int list"
  block_x :: int
  block_y :: int
  select_block_x :: int
  select_block_y :: int
  nr_block_h :: int
  nr_block_v :: int
  block_w :: int
  block_h :: int
  select :: SelState

text \<open>The inner loops of \<open>update_frame\<close>: copying one block of the picture to the screen.\<close>

definition draw_block :: "GameState \<Rightarrow> int \<Rightarrow> vstate \<Rightarrow> vstate" where
  "draw_block game i vs =
     (let block_index = block game ! nat i;
          scr_x = (i smod nr_block_h game) * block_w game;
          scr_y = (i sdiv nr_block_h game) * block_h game;
          pic_x = (block_index smod nr_block_h game) * block_w game;
          pic_y = (block_index sdiv nr_block_h game) * block_h game
      in for_loop 0 (block_h game) (\<lambda>off_y. for_loop 0 (block_w game) (\<lambda>off_x vs.
           draw_pixel (scr_x + off_x) (scr_y + off_y)
             (get_color (vmemory vs) (image game) (pic_x + off_x) (pic_y + off_y) (image_w game) (image_h game)) vs)) vs)"

definition update_frame :: "GameState \<Rightarrow> vstate \<Rightarrow> vstate" where
  "update_frame game vs =
     (let vs = init_video_buffer vs;
          nr_block = nr_block_h game * nr_block_v game;
          vs = for_loop 0 nr_block (draw_block game) vs;
          vs = for_loop 0 (nr_block_h game + 1) (\<lambda>i vs.
                 (let scr_x = i * block_w game in draw_column scr_x 0 6 (uint (get_scr_h vs)) 0 vs)) vs;
          vs = for_loop 0 (nr_block_v game + 1) (\<lambda>i vs.
                 (let scr_y = i * block_h game in draw_row 0 scr_y 6 (uint (get_scr_w vs)) 0 vs)) vs;
          vs = draw_border (block_x game * block_w game) (block_y game * block_h game)
                 (block_w game) (block_h game) 3 0x000000ff vs;
          vs = (if select game = GAME_SEL_SELECTED
                then draw_border (select_block_x game * block_w game) (select_block_y game * block_h game)
                       (block_w game) (block_h game) 3 0x00ff0000 vs
                else vs)
      in update_screen vs)"

definition swap_blocks :: "int \<Rightarrow> int \<Rightarrow> int list \<Rightarrow> int list result" where
  "swap_blocks i j xs =
     (if 0 \<le> i \<and> i < int (length xs) \<and> 0 \<le> j \<and> j < int (length xs)
      then (let z = xs ! nat i;
                xs = xs[nat i := xs ! nat j];
                xs = xs[nat j := z]
            in Inr xs)
      else Inl OutOfBounds)"

text \<open>The reaction of \<open>update_game_state\<close> to a key.\<close>

definition press_space :: "GameState \<Rightarrow> GameState result" where
  "press_space game =
     (if select game = GAME_SEL_NONE
      then Inr (game\<lparr>select := GAME_SEL_SELECTED, select_block_x := block_x game, select_block_y := block_y game\<rparr>)
      else
        (let game = game\<lparr>select := GAME_SEL_NONE\<rparr>;
             block_first = block_y game * nr_block_h game + block_x game;
             block_second = select_block_y game * nr_block_h game + select_block_x game
         in case swap_blocks block_first block_second (block game) of
              Inl e \<Rightarrow> Inl e
            | Inr xs \<Rightarrow> Inr (game\<lparr>block := xs\<rparr>)))"

definition move_cursor :: "u32 \<Rightarrow> GameState \<Rightarrow> GameState" where
  "move_cursor scancode game =
     (if scancode = KEY_DOWN then game\<lparr>block_y := block_y game + 1\<rparr>
      else if scancode = KEY_UP then game\<lparr>block_y := block_y game - 1\<rparr>
      else if scancode = KEY_LEFT then game\<lparr>block_x := block_x game - 1\<rparr>
      else if scancode = KEY_RIGHT then game\<lparr>block_x := block_x game + 1\<rparr>
      else game)"

definition wrap_cursor :: "GameState \<Rightarrow> GameState" where
  "wrap_cursor game =
     (let game = (if block_y game \<ge> nr_block_v game then game\<lparr>block_y := 0\<rparr>
                  else if block_y game < 0 then game\<lparr>block_y := nr_block_v game - 1\<rparr> else game);
          game = (if block_x game \<ge> nr_block_h game then game\<lparr>block_x := 0\<rparr>
                  else if block_x game < 0 then game\<lparr>block_x := nr_block_h game - 1\<rparr> else game)
      in game)"

definition react :: "u32 \<Rightarrow> GameState \<Rightarrow> GameState result" where
  "react scancode game =
     (case (if scancode = KEY_SPACE then press_space game else Inr game) of
        Inl e \<Rightarrow> Inl e
      | Inr game \<Rightarrow> Inr (wrap_cursor (move_cursor scancode game)))"

definition update_game_state :: "'d device \<Rightarrow> GameState \<Rightarrow> 'd \<Rightarrow> (GameState result \<times> 'd) option" where
  "update_game_state dv game d =
     (case get_key dv d of
        None \<Rightarrow> None
      | Some (scancode, d) \<Rightarrow> Some (react scancode game, d))"

definition check_valid :: "GameState \<Rightarrow> bool" where
  "check_valid game =
     (let nr_block = nr_block_h game * nr_block_v game
      in list_all (\<lambda>i. \<not> block game ! nat i > block game ! nat (i + 1)) [0..nr_block - 2])"

text \<open>The loop of \<open>game_mainloop\<close>; it ends only when the puzzle is solved.\<close>

partial_function (option) game_loop ::
    "'d device \<Rightarrow> GameState \<Rightarrow> vstate \<Rightarrow> 'd \<Rightarrow> (GameState \<times> vstate \<times> 'd) result option" where
  "game_loop dv game vs d =
     (let vs = update_frame game vs
      in if check_valid game then Some (Inr (game, vs, d))
         else (case update_game_state dv game d of
                 None \<Rightarrow> None
               | Some (r, d) \<Rightarrow>
                   (case r of
                      Inl e \<Rightarrow> Some (Inl e)
                    | Inr game \<Rightarrow> game_loop dv game vs d)))"

definition game_start :: "u32 \<Rightarrow> int \<Rightarrow> int \<Rightarrow> GameState" where
  "game_start pic_bgr pic_w pic_h =
     (let game = \<lparr>image = pic_bgr, image_w = pic_w, image_h = pic_h, block = [], block_x = 0, block_y = 0,
            select_block_x = 0, select_block_y = 0, nr_block_h = 0, nr_block_v = 0,
            block_w = 100, block_h = 100, select = GAME_SEL_NONE\<rparr>;
          game = game\<lparr>nr_block_h := image_w game sdiv block_w game\<rparr>;
          game = game\<lparr>nr_block_v := image_h game sdiv block_h game\<rparr>;
          nr_block = nr_block_h game * nr_block_v game
      in game\<lparr>block := map (\<lambda>i. nr_block - 1 - i) [0..nr_block - 1]\<rparr>)"

definition draw_picture :: "u32 \<Rightarrow> int \<Rightarrow> int \<Rightarrow> vstate \<Rightarrow> vstate" where
  "draw_picture pic_bgr pic_w pic_h vs =
     (let vs = init_video_buffer vs;
          vs = for_loop 0 pic_h (\<lambda>y. for_loop 0 pic_w (\<lambda>x vs.
                 draw_pixel x y (get_color (vmemory vs) pic_bgr x y pic_w pic_h) vs)) vs
      in update_screen vs)"

definition game_mainloop :: "'d device \<Rightarrow> u32 \<Rightarrow> int \<Rightarrow> int \<Rightarrow> vstate \<Rightarrow> 'd \<Rightarrow> (GameState \<times> vstate \<times> 'd) result option" where
  "game_mainloop dv pic_bgr pic_w pic_h vs d =
     (case game_loop dv (game_start pic_bgr pic_w pic_h) vs d of
        None \<Rightarrow> None
      | Some (Inl e) \<Rightarrow> Some (Inl e)
      | Some (Inr (game, vs, d)) \<Rightarrow>
          (let vs = vs\<lparr>kern := log_line ''kernel/game.c'' ''game_mainloop'' 155 ''Success'' (kern vs)\<rparr>
           in Some (Inr (game, draw_picture pic_bgr pic_w pic_h vs, d))))"

section \<open>The invariant of the game\<close>

definition nr_blocks :: "GameState \<Rightarrow> int" where
  "nr_blocks g = nr_block_h g * nr_block_v g"

definition game_inv :: "GameState \<Rightarrow> bool" where
  "game_inv g \<longleftrightarrow> 0 < nr_block_h g \<and> 0 < nr_block_v g
     \<and> 0 \<le> block_x g \<and> block_x g < nr_block_h g \<and> 0 \<le> block_y g \<and> block_y g < nr_block_v g
     \<and> (select g = GAME_SEL_SELECTED \<longrightarrow> 0 \<le> select_block_x g \<and> select_block_x g < nr_block_h g
          \<and> 0 \<le> select_block_y g \<and> select_block_y g < nr_block_v g)
     \<and> mset (block g) = mset [0..nr_blocks g - 1]"

lemma game_inv_length:
  assumes "game_inv g"
  shows "length (block g) = nat (nr_blocks g)"
proof -
  have "mset (block g) = mset [0..nr_blocks g - 1]" using assms by (simp add: game_inv_def)
  from mset_eq_length [OF this] show ?thesis by simp
qed

lemma cell_bound:
  fixes x y :: int
  assumes "0 \<le> x" "x < h" "0 \<le> y" "y < v"
  shows "0 \<le> y * h + x \<and> y * h + x < h * v"
proof -
  have "(y + 1) * h \<le> v * h" using assms by (intro mult_right_mono) simp_all
  moreover have "0 \<le> y * h" using assms by simp
  ultimately show ?thesis using assms(1,2) by (simp add: algebra_simps)
qed

lemma swap_blocks_mset:
  assumes "0 \<le> i" "i < int (length xs)" "0 \<le> j" "j < int (length xs)"
  shows "swap_blocks i j xs = Inr (xs[nat i := xs ! nat j, nat j := xs ! nat i])
    \<and> mset (xs[nat i := xs ! nat j, nat j := xs ! nat i]) = mset xs"
  using assms mset_swap [of "nat j" xs "nat i"] by (simp add: swap_blocks_def Let_def nat_less_iff)

text \<open>The swap that pressing space makes when a block is selected.\<close>

definition cursor_cell :: "GameState \<Rightarrow> nat" where
  "cursor_cell g = nat (block_y g * nr_block_h g + block_x g)"

definition selected_cell :: "GameState \<Rightarrow> nat" where
  "selected_cell g = nat (select_block_y g * nr_block_h g + select_block_x g)"

definition swapped :: "GameState \<Rightarrow> int list" where
  "swapped g = (block g)[cursor_cell g := block g ! selected_cell g, selected_cell g := block g ! cursor_cell g]"

lemma cells_bound:
  assumes "game_inv g"
  shows "cursor_cell g < length (block g)" and "select g = GAME_SEL_SELECTED \<Longrightarrow> selected_cell g < length (block g)"
  using assms cell_bound [of "block_x g" "nr_block_h g" "block_y g" "nr_block_v g"]
    cell_bound [of "select_block_x g" "nr_block_h g" "select_block_y g" "nr_block_v g"]
  by (auto simp: game_inv_length cursor_cell_def selected_cell_def game_inv_def nr_blocks_def nat_less_iff)

lemma press_space_spec:
  assumes "game_inv g"
  shows "press_space g = Inr (if select g = GAME_SEL_NONE
     then g\<lparr>select := GAME_SEL_SELECTED, select_block_x := block_x g, select_block_y := block_y g\<rparr>
     else g\<lparr>select := GAME_SEL_NONE, block := swapped g\<rparr>)"
proof (cases "select g")
  case GAME_SEL_NONE
  then show ?thesis by (simp add: press_space_def)
next
  case GAME_SEL_SELECTED
  let ?i = "block_y g * nr_block_h g + block_x g" and ?j = "select_block_y g * nr_block_h g + select_block_x g"
  have "0 \<le> ?i" "?i < int (length (block g))" "0 \<le> ?j" "?j < int (length (block g))"
    using assms GAME_SEL_SELECTED cell_bound [of "block_x g" "nr_block_h g" "block_y g" "nr_block_v g"]
      cell_bound [of "select_block_x g" "nr_block_h g" "select_block_y g" "nr_block_v g"]
    by (auto simp: game_inv_length) (auto simp: game_inv_def nr_blocks_def)
  from swap_blocks_mset [OF this] show ?thesis
    using GAME_SEL_SELECTED by (simp add: press_space_def swapped_def cursor_cell_def selected_cell_def Let_def)
qed

lemma swapped_mset: "game_inv g \<Longrightarrow> select g = GAME_SEL_SELECTED \<Longrightarrow> mset (swapped g) = mset (block g)"
  unfolding swapped_def by (intro mset_swap cells_bound)

lemma press_space_inv: "game_inv g \<Longrightarrow> \<exists>g'. press_space g = Inr g' \<and> game_inv g'"
  by (cases "select g") (auto simp: press_space_spec game_inv_def [of "_\<lparr>select := _\<rparr>"] swapped_mset nr_blocks_def game_inv_def)

section \<open>Reacting to keys\<close>

lemmas key_defs = KEY_UP_def KEY_DOWN_def KEY_LEFT_def KEY_RIGHT_def KEY_SPACE_def

lemma mod_step_up: "0 \<le> x \<Longrightarrow> x < h \<Longrightarrow> (if h \<le> x + 1 then 0 else x + 1) = (x + 1) mod h" for x h :: int
  by (cases "x + 1 = h") auto

lemma mod_step_down: "0 \<le> x \<Longrightarrow> x < h \<Longrightarrow> (if x - 1 < 0 then h - 1 else x - 1) = (x - 1) mod h" for x h :: int
  by (cases "x = 0") (auto simp: zmod_minus1)

text \<open>The arrow keys move the cursor by one on the torus of blocks.\<close>

lemma react_move:
  assumes "game_inv g"
  shows "react KEY_DOWN g = Inr (g\<lparr>block_y := (block_y g + 1) mod nr_block_v g\<rparr>)"
    and "react KEY_UP g = Inr (g\<lparr>block_y := (block_y g - 1) mod nr_block_v g\<rparr>)"
    and "react KEY_RIGHT g = Inr (g\<lparr>block_x := (block_x g + 1) mod nr_block_h g\<rparr>)"
    and "react KEY_LEFT g = Inr (g\<lparr>block_x := (block_x g - 1) mod nr_block_h g\<rparr>)"
proof -
  have x: "0 \<le> block_x g" "block_x g < nr_block_h g" and y: "0 \<le> block_y g" "block_y g < nr_block_v g"
    using assms by (simp_all add: game_inv_def)
  note unf = react_def move_cursor_def wrap_cursor_def key_defs Let_def
  show "react KEY_DOWN g = Inr (g\<lparr>block_y := (block_y g + 1) mod nr_block_v g\<rparr>)"
    unfolding mod_step_up [OF y, symmetric] using x y by (simp add: unf)
  show "react KEY_UP g = Inr (g\<lparr>block_y := (block_y g - 1) mod nr_block_v g\<rparr>)"
    unfolding mod_step_down [OF y, symmetric] using x y by (simp add: unf)
  show "react KEY_RIGHT g = Inr (g\<lparr>block_x := (block_x g + 1) mod nr_block_h g\<rparr>)"
    unfolding mod_step_up [OF x, symmetric] using x y by (simp add: unf)
  show "react KEY_LEFT g = Inr (g\<lparr>block_x := (block_x g - 1) mod nr_block_h g\<rparr>)"
    unfolding mod_step_down [OF x, symmetric] using x y by (simp add: unf)
qed

lemma wrap_cursor_id: "game_inv g \<Longrightarrow> wrap_cursor g = g"
  by (simp add: wrap_cursor_def game_inv_def Let_def)

lemma react_space: "game_inv g \<Longrightarrow> react KEY_SPACE g = press_space g"
  using press_space_inv [of g] by (auto simp: react_def move_cursor_def key_defs wrap_cursor_id)

lemma react_other:
  "game_inv g \<Longrightarrow> c \<notin> {KEY_DOWN, KEY_UP, KEY_RIGHT, KEY_LEFT, KEY_SPACE} \<Longrightarrow> react c g = Inr g"
  by (simp add: react_def move_cursor_def wrap_cursor_id)

lemma game_inv_move:
  "game_inv g \<Longrightarrow> game_inv (g\<lparr>block_y := y mod nr_block_v g\<rparr>)"
  "game_inv g \<Longrightarrow> game_inv (g\<lparr>block_x := x mod nr_block_h g\<rparr>)"
  by (simp_all add: game_inv_def nr_blocks_def)

text \<open>No key makes the game fault, and every key keeps the cursor in range and the blocks a
  permutation.\<close>

lemma react_inv:
  assumes "game_inv g"
  shows "\<exists>g'. react c g = Inr g' \<and> game_inv g'"
proof -
  consider "c = KEY_DOWN" | "c = KEY_UP" | "c = KEY_RIGHT" | "c = KEY_LEFT" | "c = KEY_SPACE"
    | "c \<notin> {KEY_DOWN, KEY_UP, KEY_RIGHT, KEY_LEFT, KEY_SPACE}" by blast
  then show ?thesis
    by cases (use assms react_move [OF assms] react_space [OF assms] press_space_inv [OF assms] react_other [OF assms]
      game_inv_move in auto)
qed

lemma react_shape:
  assumes "game_inv g" and "react c g = Inr g'"
  shows "nr_block_h g' = nr_block_h g \<and> nr_block_v g' = nr_block_v g"
proof -
  consider "c = KEY_DOWN" | "c = KEY_UP" | "c = KEY_RIGHT" | "c = KEY_LEFT" | "c = KEY_SPACE"
    | "c \<notin> {KEY_DOWN, KEY_UP, KEY_RIGHT, KEY_LEFT, KEY_SPACE}" by blast
  then show ?thesis
    by cases (use assms react_move [OF assms(1)] react_space [OF assms(1)] press_space_spec [OF assms(1)]
      react_other [OF assms(1)] in \<open>auto split: if_splits\<close>)
qed

section \<open>The solved puzzle\<close>

lemma check_valid_sorted:
  assumes "game_inv g"
  shows "check_valid g \<longleftrightarrow> sorted (block g)"
proof -
  let ?n = "nr_blocks g"
  have n: "int (length (block g)) = ?n" using assms game_inv_length [OF assms] by (simp add: game_inv_def nr_blocks_def)
  have "(\<forall>i \<in> set [0..?n - 2]. \<not> block g ! nat i > block g ! nat (i + 1))
      \<longleftrightarrow> (\<forall>i. Suc i < length (block g) \<longrightarrow> block g ! i \<le> block g ! Suc i)"
  proof (intro iffI allI impI ballI)
    fix i assume *: "\<forall>i \<in> set [0..?n - 2]. \<not> block g ! nat i > block g ! nat (i + 1)" and i: "Suc i < length (block g)"
    have "int i \<in> set [0..?n - 2]" using i n by auto
    with * have "\<not> block g ! nat (int i) > block g ! nat (int i + 1)" by blast
    moreover have "nat (int i + 1) = Suc i" by simp
    ultimately show "block g ! i \<le> block g ! Suc i" by simp
  next
    fix i assume *: "\<forall>i. Suc i < length (block g) \<longrightarrow> block g ! i \<le> block g ! Suc i" and i: "i \<in> set [0..?n - 2]"
    have "Suc (nat i) < length (block g)" using i n by auto
    moreover have "nat (i + 1) = Suc (nat i)" using i by auto
    ultimately show "\<not> block g ! nat i > block g ! nat (i + 1)" using * by (simp add: not_less)
  qed
  then show ?thesis by (simp add: check_valid_def Let_def list_all_iff sorted_iff_nth_Suc nr_blocks_def)
qed

lemma check_valid_identity:
  assumes "game_inv g"
  shows "check_valid g \<longleftrightarrow> block g = [0..nr_blocks g - 1]"
proof -
  have "mset (block g) = mset [0..nr_blocks g - 1]" using assms by (simp add: game_inv_def)
  then have "sorted (block g) \<longleftrightarrow> block g = [0..nr_blocks g - 1]"
    using properties_for_sort [of "block g" "[0..nr_blocks g - 1]"]
      properties_for_sort [of "[0..nr_blocks g - 1]" "block g"] sorted_upto [of 0 "nr_blocks g - 1"]
    by (metis sorted_sort_id)
  then show ?thesis using check_valid_sorted [OF assms] by simp
qed

section \<open>Every arrangement can be solved\<close>

fun plays :: "u32 list \<Rightarrow> GameState \<Rightarrow> GameState result" where
  "plays [] g = Inr g"
| "plays (c # cs) g = (case react c g of Inl e \<Rightarrow> Inl e | Inr g \<Rightarrow> plays cs g)"

definition game_keys :: "u32 set" where
  "game_keys = {KEY_DOWN, KEY_RIGHT, KEY_SPACE}"

lemma plays_append: "plays (cs @ ds) g = (case plays cs g of Inl e \<Rightarrow> Inl e | Inr g \<Rightarrow> plays ds g)"
  by (induction cs arbitrary: g) (auto split: sum.splits)

lemma plays_right:
  "game_inv g \<Longrightarrow> plays (replicate n KEY_RIGHT) g = Inr (g\<lparr>block_x := (block_x g + int n) mod nr_block_h g\<rparr>)"
proof (induction n arbitrary: g)
  case 0
  then show ?case by (simp add: game_inv_def)
next
  case (Suc n)
  from Suc.IH [OF game_inv_move(2) [OF Suc.prems]] show ?case
    by (simp add: react_move [OF Suc.prems] mod_add_right_eq ac_simps)
qed

lemma plays_down:
  "game_inv g \<Longrightarrow> plays (replicate n KEY_DOWN) g = Inr (g\<lparr>block_y := (block_y g + int n) mod nr_block_v g\<rparr>)"
proof (induction n arbitrary: g)
  case 0
  then show ?case by (simp add: game_inv_def)
next
  case (Suc n)
  from Suc.IH [OF game_inv_move(1) [OF Suc.prems]] show ?case
    by (simp add: react_move [OF Suc.prems] mod_add_right_eq ac_simps)
qed

lemma int_div_less: "0 < h \<Longrightarrow> i < v * h \<Longrightarrow> i div h < (v :: int)"
proof -
  assume h: "0 < h" "i < v * h"
  have "i div h * h \<le> i" using div_mult_mod_eq [of i h] pos_mod_sign [OF h(1), of i] by linarith
  then have "i div h * h < v * h" using h(2) by (rule le_less_trans)
  then show "i div h < v" using h(1) by simp
qed

lemma reach_mod: "0 \<le> (x :: int) \<Longrightarrow> x < h \<Longrightarrow> (a + int (nat ((x - a) mod h))) mod h = x"
  by (simp add: mod_add_right_eq)

lemma plays_move_to:
  assumes "game_inv g" "i < length (block g)"
  shows "\<exists>cs. set cs \<subseteq> game_keys
    \<and> plays cs g = Inr (g\<lparr>block_x := int i mod nr_block_h g, block_y := int i div nr_block_h g\<rparr>)
    \<and> game_inv (g\<lparr>block_x := int i mod nr_block_h g, block_y := int i div nr_block_h g\<rparr>)"
proof -
  let ?x = "int i mod nr_block_h g" and ?y = "int i div nr_block_h g"
  have h: "0 < nr_block_h g" "0 < nr_block_v g" using assms(1) by (simp_all add: game_inv_def)
  have "int i < nr_block_v g * nr_block_h g"
    using assms h by (simp add: game_inv_length nr_blocks_def mult.commute zless_nat_eq_int_zless)
  then have y: "0 \<le> ?y" "?y < nr_block_v g" using h by (simp_all add: pos_imp_zdiv_nonneg_iff int_div_less)
  have x: "0 \<le> ?x" "?x < nr_block_h g" using h by simp_all
  let ?r = "replicate (nat ((?x - block_x g) mod nr_block_h g)) KEY_RIGHT"
  let ?d = "replicate (nat ((?y - block_y g) mod nr_block_v g)) KEY_DOWN"
  let ?g = "g\<lparr>block_x := ?x\<rparr>"
  have "plays ?r g = Inr ?g" unfolding plays_right [OF assms(1)] by (simp only: reach_mod [OF x])
  moreover have inv: "game_inv ?g" using game_inv_move(2) [OF assms(1), of "int i"] by simp
  have "plays ?d ?g = Inr (?g\<lparr>block_y := ?y\<rparr>)" using plays_down [OF inv] reach_mod [OF y] by simp
  moreover have "game_inv (?g\<lparr>block_y := ?y\<rparr>)" using inv y by (simp add: game_inv_def nr_blocks_def)
  ultimately show ?thesis
    by (intro exI [of _ "?r @ ?d"]) (auto simp: plays_append game_keys_def)
qed

text \<open>Any two blocks can be swapped.\<close>

definition idle_game :: "GameState \<Rightarrow> bool" where
  "idle_game g \<longleftrightarrow> game_inv g \<and> select g = GAME_SEL_NONE"

definition same_shape :: "GameState \<Rightarrow> GameState \<Rightarrow> bool" where
  "same_shape g g' \<longleftrightarrow> nr_block_h g' = nr_block_h g \<and> nr_block_v g' = nr_block_v g"

lemma same_shape_trans: "same_shape a b \<Longrightarrow> same_shape b c \<Longrightarrow> same_shape a c"
  by (simp add: same_shape_def)

lemma plays_swap:
  assumes g: "idle_game g" and i: "i < length (block g)" and j: "j < length (block g)"
  shows "\<exists>cs g'. set cs \<subseteq> game_keys \<and> plays cs g = Inr g' \<and> idle_game g' \<and> same_shape g g'
    \<and> block g' = (block g)[i := block g ! j, j := block g ! i]"
proof -
  have inv: "game_inv g" "select g = GAME_SEL_NONE" using g by (simp_all add: idle_game_def)
  let ?h = "nr_block_h g"
  let ?g1 = "g\<lparr>block_x := int j mod ?h, block_y := int j div ?h\<rparr>"
  obtain cs1 where cs1: "set cs1 \<subseteq> game_keys" "plays cs1 g = Inr ?g1" "game_inv ?g1"
    using plays_move_to [OF inv(1) j] by blast
  let ?g2 = "?g1\<lparr>select := GAME_SEL_SELECTED, select_block_x := int j mod ?h, select_block_y := int j div ?h\<rparr>"
  have s1: "react KEY_SPACE ?g1 = Inr ?g2"
    using inv(2) by (simp add: react_space [OF cs1(3)] press_space_spec [OF cs1(3)])
  have inv2: "game_inv ?g2" using react_inv [OF cs1(3), of KEY_SPACE] s1 by simp
  let ?g3 = "?g2\<lparr>block_x := int i mod ?h, block_y := int i div ?h\<rparr>"
  obtain cs2 where cs2: "set cs2 \<subseteq> game_keys" "plays cs2 ?g2 = Inr ?g3" "game_inv ?g3"
    using plays_move_to [OF inv2, of i] i by auto
  have sw: "swapped ?g3 = (block g)[i := block g ! j, j := block g ! i]"
    by (simp add: swapped_def cursor_cell_def selected_cell_def)
  let ?g4 = "?g3\<lparr>select := GAME_SEL_NONE, block := (block g)[i := block g ! j, j := block g ! i]\<rparr>"
  have s2: "react KEY_SPACE ?g3 = Inr ?g4"
    unfolding react_space [OF cs2(3)] press_space_spec [OF cs2(3)] sw by simp
  have "game_inv ?g4" using react_inv [OF cs2(3), of KEY_SPACE] s2 by simp
  moreover have "plays (cs1 @ KEY_SPACE # cs2 @ [KEY_SPACE]) g = Inr ?g4"
    by (simp only: plays_append plays.simps cs1(2) s1 cs2(2) s2 sum.case)
  ultimately show ?thesis
    using cs1(1) cs2(1)
    by (intro exI [of _ "cs1 @ KEY_SPACE # cs2 @ [KEY_SPACE]"] exI [of _ ?g4])
      (simp add: idle_game_def same_shape_def game_keys_def)
qed

lemma block_member:
  assumes "game_inv g" and "k < length (block g)"
  shows "\<exists>j < length (block g). block g ! j = int k"
proof -
  have m: "mset (block g) = mset [0..nr_blocks g - 1]" using assms(1) by (simp add: game_inv_def)
  have "int k \<in> set [0..nr_blocks g - 1]" using assms(2) game_inv_length [OF assms(1)] by simp
  then have "int k \<in> set (block g)" using mset_eq_setD [OF m] by simp
  then show ?thesis by (simp add: in_set_conv_nth)
qed

lemma plays_sort_prefix:
  assumes "idle_game g" and "k \<le> length (block g)"
  shows "\<exists>cs g'. set cs \<subseteq> game_keys \<and> plays cs g = Inr g' \<and> idle_game g' \<and> same_shape g g'
    \<and> length (block g') = length (block g) \<and> (\<forall>i < k. block g' ! i = int i)"
  using assms(2)
proof (induction k)
  case 0
  show ?case using assms(1) by (intro exI [of _ "[]"] exI [of _ g]) (simp add: same_shape_def)
next
  case (Suc k)
  then obtain cs g1 where cs: "set cs \<subseteq> game_keys" "plays cs g = Inr g1" "idle_game g1" "same_shape g g1"
    "length (block g1) = length (block g)" "\<forall>i < k. block g1 ! i = int i" by auto
  have k: "k < length (block g1)" using Suc.prems cs(5) by simp
  obtain j where j: "j < length (block g1)" "block g1 ! j = int k"
    using block_member [of g1 k] cs(3) k by (auto simp: idle_game_def)
  then have "\<not> j < k" using cs(6) by auto
  then have "k \<le> j" by simp
  obtain ds g2 where ds: "set ds \<subseteq> game_keys" "plays ds g1 = Inr g2" "idle_game g2" "same_shape g1 g2"
    "block g2 = (block g1)[k := block g1 ! j, j := block g1 ! k]"
    using plays_swap [OF cs(3) k j(1)] by blast
  have "\<forall>i < Suc k. block g2 ! i = int i"
    using cs(6) j k \<open>k \<le> j\<close> by (auto simp: ds(5) nth_list_update less_Suc_eq)
  then show ?case
    using cs ds same_shape_trans [OF cs(4) ds(4)]
    by (intro exI [of _ "cs @ ds"] exI [of _ g2]) (simp add: plays_append)
qed

lemma plays_solve:
  assumes "idle_game g"
  shows "\<exists>cs g'. set cs \<subseteq> game_keys \<and> plays cs g = Inr g' \<and> game_inv g' \<and> check_valid g'"
proof -
  obtain cs g' where cs: "set cs \<subseteq> game_keys" "plays cs g = Inr g'" "idle_game g'" "same_shape g g'"
    "length (block g') = length (block g)" "\<forall>i < length (block g). block g' ! i = int i"
    using plays_sort_prefix [OF assms order.refl] by blast
  have inv: "game_inv g'" using cs(3) by (simp add: idle_game_def)
  have "block g' = [0..nr_blocks g' - 1]"
    using cs(5,6) game_inv_length [OF inv] by (intro nth_equalityI) simp_all
  then have "check_valid g'" using check_valid_identity [OF inv] by simp
  then show ?thesis using cs(1,2) inv by blast
qed

section \<open>The main loop\<close>

lemma get_key_pressed:
  assumes "answers dv 0x60 (code_bytes k @ code_bytes (k OR 0x80) @ xs) d d'"
    and "is_code k" "k AND 0x80 = 0" "is_code (k OR 0x80)"
  shows "\<exists>d1. get_key dv d = Some (k, d1) \<and> answers dv 0x60 xs d1 d'"
proof -
  obtain d1 where d1: "answers dv 0x60 (code_bytes k @ code_bytes (k OR 0x80)) d d1" "answers dv 0x60 xs d1 d'"
    using assms(1) by (auto simp: answers_append)
  obtain d2 where d2: "wait_press dv d = Some (k, d2)" "answers dv 0x60 (code_bytes (k OR 0x80)) d2 d1"
    using wait_press_codes [of dv "[]" k "code_bytes (k OR 0x80)" d d1] assms(2,3) d1(1) by auto
  have "wait_release dv k d2 = Some d1"
    using wait_release_codes [of dv "[]" k d2 d1] assms(4) d2(2) by simp
  then show ?thesis using d2(1) d1(2) by (simp add: get_key_def)
qed

text \<open>The bytes of pressing and releasing keys one after the other.\<close>

definition typed :: "u32 list \<Rightarrow> byte list" where
  "typed cs = concat (map (\<lambda>c. code_bytes c @ code_bytes (c OR 0x80)) cs)"

lemma game_key_codes:
  "c \<in> game_keys \<Longrightarrow> is_code c \<and> c AND 0x80 = 0 \<and> is_code (c OR 0x80)"
  by (auto simp: game_keys_def key_defs is_code_def)

lemma game_loop_plays:
  "set cs \<subseteq> game_keys \<Longrightarrow> game_inv g \<Longrightarrow> plays cs g = Inr g' \<Longrightarrow> check_valid g' \<Longrightarrow>
   answers dv 0x60 (typed cs) d d' \<Longrightarrow> \<exists>r. game_loop dv g vs d = Some (Inr r)"
proof (induction cs arbitrary: g vs d)
  case Nil
  then show ?case by (subst game_loop.simps) (simp add: Let_def)
next
  case (Cons c cs)
  obtain d1 where key: "get_key dv d = Some (c, d1)" and rest: "answers dv 0x60 (typed cs) d1 d'"
    using get_key_pressed [of dv c "typed cs" d d'] Cons.prems(1,5) game_key_codes [of c] by (auto simp: typed_def)
  obtain g1 where g1: "react c g = Inr g1" "game_inv g1" using react_inv [OF Cons.prems(2)] by blast
  have "plays cs g1 = Inr g'" using Cons.prems(3) g1(1) by simp
  then have "\<exists>r. game_loop dv g1 (update_frame g vs) d1 = Some (Inr r)"
    using Cons.IH [of g1 d1] Cons.prems(1,4) g1(2) rest by simp
  then show ?case
    using key g1(1) by (subst game_loop.simps) (simp add: Let_def update_game_state_def)
qed

text \<open>Whenever the loop ends, the puzzle is solved.\<close>

lemma game_loop_solved:
  assumes "game_loop dv g vs d = Some r" and "game_inv g"
  shows "\<exists>g' vs' d'. r = Inr (g', vs', d') \<and> game_inv g' \<and> check_valid g' \<and> same_shape g g'"
proof -
  have "game_inv g \<longrightarrow> (\<exists>g' vs' d'. r = Inr (g', vs', d') \<and> game_inv g' \<and> check_valid g' \<and> same_shape g g')"
  proof (induction rule: game_loop.raw_induct [OF _ assms(1)])
    case (1 f dv g vs d r)
    show ?case
    proof (intro impI)
      assume inv: "game_inv g"
      show "\<exists>g' vs' d'. r = Inr (g', vs', d') \<and> game_inv g' \<and> check_valid g' \<and> same_shape g g'"
      proof (cases "check_valid g")
        case True
        then show ?thesis using 1(2) inv by (auto simp: Let_def same_shape_def)
      next
        case False
        then obtain c d1 where key: "get_key dv d = Some (c, d1)"
          using 1(2) by (auto simp: Let_def update_game_state_def split: option.splits)
        obtain g1 where g1: "react c g = Inr g1" "game_inv g1" using react_inv [OF inv] by blast
        have "f dv g1 (update_frame g vs) d1 = Some r"
          using 1(2) False key g1(1) by (simp add: Let_def update_game_state_def)
        from 1(1) [OF this] g1(2) show ?thesis
          using same_shape_trans [of g g1] react_shape [OF inv g1(1)] by (auto simp: same_shape_def)
      qed
    qed
  qed
  then show ?thesis using assms(2) by blast
qed

lemma game_start_idle:
  assumes "100 \<le> pic_w" "100 \<le> pic_h"
  shows "idle_game (game_start pic pic_w pic_h)"
    and "nr_block_h (game_start pic pic_w pic_h) = pic_w div 100"
    and "nr_block_v (game_start pic pic_w pic_h) = pic_h div 100"
proof -
  have sd: "pic_w sdiv 100 = pic_w div 100" "pic_h sdiv 100 = pic_h div 100"
    using assms by (simp_all add: signed_divide_int_def sgn_if)
  let ?n = "pic_w div 100 * (pic_h div 100)"
  have "map (\<lambda>i. ?n - 1 - i) [0..?n - 1] = rev [0..?n - 1]"
    by (rule nth_equalityI) (auto simp: rev_nth)
  then have "mset (map (\<lambda>i. ?n - 1 - i) [0..?n - 1]) = mset [0..?n - 1]" by simp
  then show "idle_game (game_start pic pic_w pic_h)"
    "nr_block_h (game_start pic pic_w pic_h) = pic_w div 100" "nr_block_v (game_start pic pic_w pic_h) = pic_h div 100"
    using assms by (simp_all add: idle_game_def game_inv_def game_start_def Let_def sd nr_blocks_def
      pos_imp_zdiv_pos_iff)
qed

section \<open>What a frame shows\<close>

text \<open>The picture is big enough for its blocks and does not lie in the back buffer.\<close>

definition image_ok :: "GameState \<Rightarrow> vstate \<Rightarrow> bool" where
  "image_ok g vs \<longleftrightarrow> 0 < block_w g \<and> 0 < block_h g \<and> 0 \<le> image_w g
     \<and> nr_block_h g * block_w g \<le> image_w g \<and> nr_block_v g * block_h g \<le> image_h g
     \<and> nat (image_w g * image_h g * 3) \<le> 4294967296
     \<and> (\<forall>a. in_reg (image g) (nat (image_w g * image_h g * 3)) a \<longrightarrow> \<not> in_reg (vmem_buffer vs) VBUF_SIZE a)"

lemma image_ok_draws: "draws vs vs' \<Longrightarrow> image_ok g vs' = image_ok g vs"
  by (simp add: image_ok_def draws_def)

text \<open>The picture survives drawing.\<close>

lemma get_color_same:
  assumes x: "0 \<le> x" "x < w" and y: "0 \<le> y" "y < h" and small: "nat (w * h * 3) \<le> 4294967296"
    and same: "\<And>a. in_reg p (nat (w * h * 3)) a \<Longrightarrow> m' a = m a"
  shows "get_color m' p x y w h = get_color m p x y w h"
proof -
  let ?k = "nat ((y * w + x) * 3)"
  have c: "0 \<le> y * w + x" "y * w + x < w * h" using cell_bound [OF x y] by (simp_all add: mult.commute)
  have "a < b \<Longrightarrow> a * 3 + 3 \<le> b * 3" for a b :: int by linarith
  from this [OF c(2)] have "nat ((y * w + x) * 3 + 3) \<le> nat (w * h * 3)" by (rule nat_mono)
  then have k: "?k + 3 \<le> nat (w * h * 3)" using c(1) by (simp add: nat_add_distrib)
  have byte: "m' (p + of_nat (?k + i)) = m (p + of_nat (?k + i))" if "i < 3" for i
    using k that small by (intro same in_reg_index) simp_all
  have w: "0 \<le> w" using x by simp
  show ?thesis
    unfolding get_color_eq [OF x(1) y(1) w] color_at_def
    using byte [of 0] byte [of 1] byte [of 2] by (simp add: ac_simps)
qed

lemma get_color_draws:
  assumes "draws vs vs'" and "0 \<le> x" "x < w" and "0 \<le> y" "y < h" and "nat (w * h * 3) \<le> 4294967296"
    and "\<forall>a. in_reg p (nat (w * h * 3)) a \<longrightarrow> \<not> in_reg (vmem_buffer vs) VBUF_SIZE a"
  shows "get_color (vmemory vs') p x y w h = get_color (vmemory vs) p x y w h"
  by (rule get_color_same [OF assms(2-6)]) (use assms(1,7) in \<open>auto simp: draws_def\<close>)

lemma sdiv_smod_nonneg: "0 \<le> (a :: int) \<Longrightarrow> 0 < b \<Longrightarrow> a sdiv b = a div b \<and> a smod b = a mod b"
  by (simp add: signed_divide_int_def signed_modulo_int_def sgn_if)

definition block_color :: "GameState \<Rightarrow> mem \<Rightarrow> int \<Rightarrow> int \<Rightarrow> int \<Rightarrow> u32" where
  "block_color g m i ox oy =
     (let b = block g ! nat i in
      get_color m (image g) (b mod nr_block_h g * block_w g + ox) (b div nr_block_h g * block_h g + oy)
        (image_w g) (image_h g))"

lemma block_range:
  assumes "game_inv g" "0 \<le> i" "i < nr_blocks g"
  shows "0 \<le> block g ! nat i \<and> block g ! nat i < nr_blocks g"
proof -
  have m: "mset (block g) = mset [0..nr_blocks g - 1]" using assms(1) by (simp add: game_inv_def)
  have "nat i < length (block g)" using assms game_inv_length [OF assms(1)] by simp
  then have "block g ! nat i \<in> set [0..nr_blocks g - 1]" using mset_eq_setD [OF m] nth_mem by blast
  then show ?thesis by simp
qed

lemma block_pixel_bounds:
  assumes inv: "game_inv g" and img: "image_ok g vs" and b: "0 \<le> b" "b < nr_blocks g"
    and o: "0 \<le> ox" "ox < block_w g" "0 \<le> oy" "oy < block_h g"
  shows "0 \<le> b mod nr_block_h g * block_w g + ox \<and> b mod nr_block_h g * block_w g + ox < image_w g
    \<and> 0 \<le> b div nr_block_h g * block_h g + oy \<and> b div nr_block_h g * block_h g + oy < image_h g"
proof -
  have h: "0 < nr_block_h g" "0 < nr_block_v g" using inv by (simp_all add: game_inv_def)
  have q: "0 \<le> b mod nr_block_h g" "b mod nr_block_h g < nr_block_h g" using h by simp_all
  have r: "0 \<le> b div nr_block_h g" using h b(1) by (simp add: pos_imp_zdiv_nonneg_iff)
  have s: "b div nr_block_h g < nr_block_v g"
    using int_div_less [OF h(1), of b "nr_block_v g"] b(2) by (simp add: nr_blocks_def mult.commute)
  from cell_bound [OF o(1,2) q] cell_bound [OF o(3,4) r s] show ?thesis
    using img by (auto simp: image_ok_def mult.commute)
qed

lemma draw_block_canvas:
  assumes ok: "screen_ok vs" and inv: "game_inv g" and img: "image_ok g vs" and i: "0 \<le> i" "i < nr_blocks g"
  shows "draw_block g i vs = for_loop 0 (block_h g) (\<lambda>oy. for_loop 0 (block_w g) (\<lambda>ox.
     draw_pixel (i mod nr_block_h g * block_w g + ox) (i div nr_block_h g * block_h g + oy)
       (block_color g (vmemory vs) i ox oy))) vs"
proof -
  have h: "0 < nr_block_h g" using inv by (simp add: game_inv_def)
  note b = block_range [OF inv i]
  note div = sdiv_smod_nonneg [OF i(1) h] sdiv_smod_nonneg [OF conjunct1 [OF b] h]
  let ?I = "\<lambda>s. draws vs s \<and> screen_ok s"
  let ?put = "\<lambda>oy ox. draw_pixel (i mod nr_block_h g * block_w g + ox) (i div nr_block_h g * block_h g + oy)
       (block_color g (vmemory vs) i ox oy)"
  have step: "?I (?put oy ox s)" if "?I s" for s ox oy
    using that draws_draw_pixel [of s] draws_trans screen.ok_put by blast
  have color: "get_color (vmemory s) (image g) (block g ! nat i mod nr_block_h g * block_w g + ox)
      (block g ! nat i div nr_block_h g * block_h g + oy) (image_w g) (image_h g) = block_color g (vmemory vs) i ox oy"
    if "?I s" "0 \<le> ox" "ox < block_w g" "0 \<le> oy" "oy < block_h g" for s ox oy
    unfolding block_color_def Let_def
    using that img b block_pixel_bounds [OF inv img _ _ that(2-5)]
    by (intro get_color_draws) (auto simp: image_ok_def)
  show ?thesis
    unfolding draw_block_def Let_def conjunct1 [OF div(1)] conjunct2 [OF div(1)] conjunct1 [OF div(2)] conjunct2 [OF div(2)]
  proof (rule for_loop_cong [where I = ?I], intro conjI)
    fix oy s assume oy: "0 \<le> oy" "oy < block_h g" and s: "?I s"
    show "for_loop 0 (block_w g) (\<lambda>ox vs. draw_pixel (i mod nr_block_h g * block_w g + ox)
        (i div nr_block_h g * block_h g + oy)
        (get_color (vmemory vs) (image g) (block g ! nat i mod nr_block_h g * block_w g + ox)
          (block g ! nat i div nr_block_h g * block_h g + oy) (image_w g) (image_h g)) vs) s
      = for_loop 0 (block_w g) (?put oy) s"
      by (rule for_loop_cong [where I = ?I]) (use oy s step color in auto)
    show "draws vs (for_loop 0 (block_w g) (?put oy) s)" "screen_ok (for_loop 0 (block_w g) (?put oy) s)"
      using for_loop_inv_const [where I = ?I and body = "?put oy" and lo = 0 and hi = "block_w g" and s = s] s step by blast+
  qed (use ok draws_refl in auto)
qed

text \<open>A pixel belongs to exactly one cell of the grid.\<close>

lemma in_cell: "0 < w \<Longrightarrow> (c * w \<le> p \<and> p < c * w + w) \<longleftrightarrow> p div w = (c :: int)"
proof
  assume "0 < w" "c * w \<le> p \<and> p < c * w + w"
  then show "p div w = c" by (intro int_div_pos_eq [of _ w c "p - c * w"]) (simp_all add: mult.commute)
next
  assume w: "0 < w" and "p div w = c"
  then show "c * w \<le> p \<and> p < c * w + w"
    using div_mult_mod_eq [of p w] pos_mod_sign [OF w, of p] pos_mod_bound [OF w, of p] by auto
qed

lemma draw_block_pixel:
  assumes ok: "screen_ok vs" and inv: "game_inv g" and img: "image_ok g vs" and i: "0 \<le> i" "i < nr_blocks g"
    and on: "on_screen vs px py"
  shows "draws vs (draw_block g i vs)"
    and "buffer_pixel (draw_block g i vs) px py
      = (if px div block_w g = i mod nr_block_h g \<and> py div block_h g = i div nr_block_h g
         then block_color g (vmemory vs) i (px mod block_w g) (py mod block_h g) AND 0xFFFFFF
         else buffer_pixel vs px py)"
proof -
  have w: "0 < block_w g" "0 < block_h g" using img by (simp_all add: image_ok_def)
  show "draws vs (draw_block g i vs)"
    unfolding draw_block_canvas [OF ok inv img i] by (intro draws_for_loop draws_draw_pixel ok)
  have off: "px - px div block_w g * block_w g = px mod block_w g" "py - py div block_h g * block_h g = py mod block_h g"
    by (simp_all add: minus_div_mult_eq_mod)
  show "buffer_pixel (draw_block g i vs) px py
      = (if px div block_w g = i mod nr_block_h g \<and> py div block_h g = i div nr_block_h g
         then block_color g (vmemory vs) i (px mod block_w g) (py mod block_h g) AND 0xFFFFFF
         else buffer_pixel vs px py)"
    unfolding draw_block_canvas [OF ok inv img i]
    using screen.blit [OF ok on, of "block_w g" "block_h g" "i mod nr_block_h g * block_w g"
        "i div nr_block_h g * block_h g" "block_color g (vmemory vs) i"] w
      in_cell [OF w(1), of "i mod nr_block_h g" px] in_cell [OF w(2), of "i div nr_block_h g" py] off
    by (auto simp: Let_def)
qed

text \<open>A pixel away from the edges of its cell is not on a line of the grid or of a border.\<close>

lemma off_line:
  fixes w :: int
  assumes "3 \<le> p mod w" "p mod w < w - 3"
  shows "\<not> (i * w - 3 \<le> p \<and> p < i * w + 3)"
proof
  assume *: "i * w - 3 \<le> p \<and> p < i * w + 3"
  have w: "0 \<le> w" using assms by linarith
  have p: "p = p div w * w + p mod w" by simp
  show False
  proof (cases "i \<le> p div w")
    case True
    then have "i * w \<le> p div w * w" using w by (rule mult_right_mono)
    then show False using * p assms(1) by linarith
  next
    case False
    then have "(p div w + 1) * w \<le> i * w" using w by (intro mult_right_mono) simp_all
    then have "p div w * w + w \<le> i * w" by (simp add: algebra_simps)
    then show False using * p assms(2) by linarith
  qed
qed

definition inner :: "GameState \<Rightarrow> int \<Rightarrow> int \<Rightarrow> bool" where
  "inner g px py \<longleftrightarrow> 3 \<le> px mod block_w g \<and> px mod block_w g < block_w g - 3
     \<and> 3 \<le> py mod block_h g \<and> py mod block_h g < block_h g - 3"

lemma inner_column:
  assumes "inner g px py" "screen_ok vs" "on_screen vs px py"
  shows "buffer_pixel (draw_column (i * block_w g) y 6 len c vs) px py = buffer_pixel vs px py"
  using assms(1) off_line [of px "block_w g" i] column_pixel [OF assms(2,3), of 6 "i * block_w g" y len c]
  by (auto simp: inner_def)

lemma inner_row:
  assumes "inner g px py" "screen_ok vs" "on_screen vs px py" "0 \<le> len"
  shows "buffer_pixel (draw_row x (i * block_h g) 6 len c vs) px py = buffer_pixel vs px py"
  using assms(1) off_line [of py "block_h g" i] row_pixel [OF assms(2-4), of x "i * block_h g" 6 c]
  by (auto simp: inner_def)

lemma inner_border:
  assumes "inner g px py" "screen_ok vs" "on_screen vs px py"
  shows "buffer_pixel (draw_border (i * block_w g) (j * block_h g) (block_w g) (block_h g) 3 c vs) px py
    = buffer_pixel vs px py"
proof -
  have "0 \<le> block_w g" using assms(1) by (auto simp: inner_def)
  from border_pixel [OF assms(2,3) _ this, of 3 "i * block_w g" "j * block_h g" "block_h g" c]
  show ?thesis
    using assms(1) off_line [of px "block_w g" i] off_line [of px "block_w g" "i + 1"]
      off_line [of py "block_h g" j] off_line [of py "block_h g" "j + 1"]
    by (auto simp: inner_def distrib_right)
qed

text \<open>The loop that draws the blocks.\<close>

lemma draw_blocks_pixel:
  assumes ok: "screen_ok vs" and inv: "game_inv g" and img: "image_ok g vs" and on: "on_screen vs px py"
    and cell: "px div block_w g = k mod nr_block_h g" "py div block_h g = k div nr_block_h g"
    and k: "0 \<le> k" "k < nr_blocks g"
  shows "draws vs (for_loop 0 (nr_blocks g) (draw_block g) vs)
    \<and> buffer_pixel (for_loop 0 (nr_blocks g) (draw_block g) vs) px py
      = block_color g (vmemory vs) k (px mod block_w g) (py mod block_h g) AND 0xFFFFFF"
proof -
  have w: "0 < block_w g" "0 < block_h g" and h: "0 < nr_block_h g" using img inv by (simp_all add: image_ok_def game_inv_def)
  let ?c = "block_color g (vmemory vs) k (px mod block_w g) (py mod block_h g)"
  let ?I = "\<lambda>i s. draws vs s \<and> (k < i \<longrightarrow> buffer_pixel s px py = ?c AND 0xFFFFFF)"
  have "?I (nr_blocks g) (for_loop 0 (nr_blocks g) (draw_block g) vs)"
  proof (rule for_loop_inv [where I = ?I])
    fix i s assume i: "0 \<le> i" "i < nr_blocks g" and s: "?I i s"
    have d: "draws vs s" using s by simp
    have pre: "screen_ok s" "image_ok g s" "on_screen s px py"
      using ok img on draws_screen_ok [OF d] image_ok_draws [OF d] draws_on_screen [OF d] by simp_all
    have same: "block_color g (vmemory s) k (px mod block_w g) (py mod block_h g) = ?c"
    proof -
      note b = block_range [OF inv k]
      have "0 \<le> px mod block_w g" "px mod block_w g < block_w g" "0 \<le> py mod block_h g" "py mod block_h g < block_h g"
        using w by simp_all
      from block_pixel_bounds [OF inv img conjunct1 [OF b] conjunct2 [OF b] this] show ?thesis
        unfolding block_color_def Let_def using img by (intro get_color_draws [OF d]) (simp_all add: image_ok_def)
    qed
    have uniq: "i = k" if "k mod nr_block_h g = i mod nr_block_h g" "k div nr_block_h g = i div nr_block_h g"
      using that by (metis div_mult_mod_eq)
    show "?I (i + 1) (draw_block g i s)"
      using draw_block_pixel [OF pre(1) inv pre(2) i pre(3)] draws_trans [OF d] s cell same uniq
      by (auto simp: less_le)
  qed (use draws_refl k in auto)
  then show ?thesis using k by simp
qed

text \<open>The whole frame.\<close>

lemma get_color_24: "get_color m p x y w h AND 0xFFFFFF = get_color m p x y w h"
proof -
  have m: "(0xFFFFFF :: u32) = mask 24" by (simp add: mask_eq_exp_minus_1)
  show ?thesis unfolding m get_color_def Let_def
    by (rule bit_word_eqI) (auto simp: bit_simps dest: bit_imp_le_length)
qed

lemma update_frame_buffer:
  assumes ok: "screen_ok vs" and inv: "game_inv g" and img: "image_ok g vs" and on: "on_screen vs px py"
    and inner: "inner g px py"
    and cell: "px div block_w g = k mod nr_block_h g" "py div block_h g = k div nr_block_h g"
    and k: "0 \<le> k" "k < nr_blocks g"
  shows "\<exists>vs1. update_frame g vs = update_screen vs1 \<and> draws vs vs1
    \<and> buffer_pixel vs1 px py = block_color g (vmemory vs) k (px mod block_w g) (py mod block_h g)"
proof -
  let ?c = "block_color g (vmemory vs) k (px mod block_w g) (py mod block_h g)"
  let ?I = "\<lambda>s. draws vs s \<and> buffer_pixel s px py = ?c"
  have pre: "screen_ok s" "on_screen s px py" if "?I s" for s
    using that ok on draws_screen_ok draws_on_screen by metis+
  have step: "?I t" if "?I s" "draws s t" "buffer_pixel t px py = buffer_pixel s px py" for s t
    using that draws_trans [of vs s t] by simp
  let ?v0 = "init_video_buffer vs"
  have v0: "draws vs ?v0" by (rule init_video_buffer_spec(1) [OF ok])
  have mem0: "block_color g (vmemory ?v0) k (px mod block_w g) (py mod block_h g) = ?c"
  proof -
    have w: "0 < block_w g" "0 < block_h g" using img by (simp_all add: image_ok_def)
    note b = block_range [OF inv k]
    have "0 \<le> px mod block_w g" "px mod block_w g < block_w g" "0 \<le> py mod block_h g" "py mod block_h g < block_h g"
      using w by simp_all
    from block_pixel_bounds [OF inv img conjunct1 [OF b] conjunct2 [OF b] this] show ?thesis
      unfolding block_color_def Let_def using img by (intro get_color_draws [OF v0]) (simp_all add: image_ok_def)
  qed
  let ?v1 = "for_loop 0 (nr_blocks g) (draw_block g) ?v0"
  have "screen_ok ?v0" "image_ok g ?v0" "on_screen ?v0 px py"
    using ok img on draws_screen_ok [OF v0] image_ok_draws [OF v0] draws_on_screen [OF v0] by simp_all
  from draw_blocks_pixel [OF this(1) inv this(2,3) cell k] have v1: "?I ?v1"
    using draws_trans [OF v0] by (simp add: mem0) (simp add: block_color_def Let_def get_color_24)
  let ?v2 = "for_loop 0 (nr_block_h g + 1) (\<lambda>i vs. draw_column (i * block_w g) 0 6 (uint (get_scr_h vs)) 0 vs) ?v1"
  have v2: "?I ?v2"
  proof (rule for_loop_inv_const [where I = ?I, OF _ v1])
    fix i s assume s: "?I s"
    show "?I (draw_column (i * block_w g) 0 6 (uint (get_scr_h s)) 0 s)"
      by (rule step [OF s draws_column [OF pre(1) [OF s]] inner_column [OF inner pre [OF s]]])
  qed
  let ?v3 = "for_loop 0 (nr_block_v g + 1) (\<lambda>i vs. draw_row 0 (i * block_h g) 6 (uint (get_scr_w vs)) 0 vs) ?v2"
  have v3: "?I ?v3"
  proof (rule for_loop_inv_const [where I = ?I, OF _ v2])
    fix i s assume s: "?I s"
    have "0 \<le> uint (get_scr_w s)" by simp
    show "?I (draw_row 0 (i * block_h g) 6 (uint (get_scr_w s)) 0 s)"
      by (rule step [OF s draws_row [OF pre(1) [OF s]] inner_row [OF inner pre [OF s] \<open>0 \<le> uint (get_scr_w s)\<close>]])
  qed
  let ?v4 = "draw_border (block_x g * block_w g) (block_y g * block_h g) (block_w g) (block_h g) 3 0xff ?v3"
  have v4: "?I ?v4" by (rule step [OF v3 draws_border [OF pre(1) [OF v3]] inner_border [OF inner pre [OF v3]]])
  let ?v5 = "if select g = GAME_SEL_SELECTED
    then draw_border (select_block_x g * block_w g) (select_block_y g * block_h g) (block_w g) (block_h g) 3 0xff0000 ?v4
    else ?v4"
  have v5: "?I ?v5"
    using v4 step [OF v4 draws_border [OF pre(1) [OF v4]] inner_border [OF inner pre [OF v4]]] by simp
  have "update_frame g vs = update_screen ?v5"
    unfolding update_frame_def Let_def nr_blocks_def by (rule refl)
  then show ?thesis using v5 by blast
qed

section \<open>What the game may change\<close>

lemma draws_draw_block: "screen_ok vs \<Longrightarrow> draws vs (draw_block g i vs)"
  unfolding draw_block_def Let_def by (intro draws_for_loop draws_draw_pixel)

lemma draws_then:
  assumes "draws vs vs1" and "screen_ok vs" and "\<And>vs. screen_ok vs \<Longrightarrow> draws vs (f vs)"
  shows "draws vs (f vs1)"
  using draws_trans [OF assms(1) assms(3)] draws_screen_ok [OF assms(1)] assms(2) by blast

lemma paints_update_frame:
  assumes "screen_ok vs" and "vmem_ok vs"
  shows "paints vs (update_frame g vs)"
proof -
  note then_draws = draws_then [OF _ assms(1)]
  have "draws vs (for_loop 0 (nr_block_h g * nr_block_v g) (draw_block g) (init_video_buffer vs))" (is "draws vs ?v1")
    by (rule then_draws [OF init_video_buffer_spec(1) [OF assms(1)]]) (intro draws_for_loop draws_draw_block)
  then have "draws vs (for_loop 0 (nr_block_h g + 1) (\<lambda>i vs. draw_column (i * block_w g) 0 6 (uint (get_scr_h vs)) 0 vs) ?v1)"
      (is "draws vs ?v2")
    by (rule then_draws) (intro draws_for_loop draws_column)
  then have "draws vs (for_loop 0 (nr_block_v g + 1) (\<lambda>i vs. draw_row 0 (i * block_h g) 6 (uint (get_scr_w vs)) 0 vs) ?v2)"
      (is "draws vs ?v3")
    by (rule then_draws) (intro draws_for_loop draws_row)
  then have "draws vs (draw_border (block_x g * block_w g) (block_y g * block_h g) (block_w g) (block_h g) 3 0xff ?v3)"
      (is "draws vs ?v4")
    by (rule then_draws) (rule draws_border)
  then have "draws vs (if select g = GAME_SEL_SELECTED
      then draw_border (select_block_x g * block_w g) (select_block_y g * block_h g) (block_w g) (block_h g) 3 0xff0000 ?v4
      else ?v4)"
    by (rule then_draws) (simp add: draws_border draws_refl)
  then show ?thesis
    unfolding update_frame_def Let_def using assms(2) by (rule paints_shown)
qed

lemma paints_draw_picture:
  assumes "screen_ok vs" and "vmem_ok vs"
  shows "paints vs (draw_picture pic w h vs)"
  unfolding draw_picture_def Let_def
  by (rule paints_shown [OF draws_then [OF init_video_buffer_spec(1) [OF assms(1)] assms(1)] assms(2)])
    (intro draws_for_loop draws_draw_pixel)

lemma game_loop_paints:
  assumes "game_loop dv g vs d = Some r" and "screen_ok vs" and "vmem_ok vs"
    and "\<And>d. obs (snd (inb dv 0x60 d)) = obs d"
  shows "case r of Inl e \<Rightarrow> True | Inr (g', vs', d') \<Rightarrow> paints vs vs' \<and> obs d' = obs d"
proof -
  have "screen_ok vs \<and> vmem_ok vs \<and> (\<forall>d. obs (snd (inb dv 0x60 d)) = obs d) \<longrightarrow>
      (case r of Inl e \<Rightarrow> True | Inr (g', vs', d') \<Rightarrow> paints vs vs' \<and> obs d' = obs d)"
  proof (induction rule: game_loop.raw_induct [OF _ assms(1)])
    case (1 f dv g vs d r)
    show ?case
    proof (intro impI, elim conjE)
      assume ok: "screen_ok vs" "vmem_ok vs" and quiet: "\<forall>d. obs (snd (inb dv 0x60 d)) = obs d"
      have frame: "paints vs (update_frame g vs)" by (rule paints_update_frame [OF ok])
      show "case r of Inl e \<Rightarrow> True | Inr (g', vs', d') \<Rightarrow> paints vs vs' \<and> obs d' = obs d"
      proof (cases "check_valid g")
        case True
        then show ?thesis using 1(2) frame by (auto simp: Let_def)
      next
        case False
        then obtain c d1 where key: "get_key dv d = Some (c, d1)"
          using 1(2) by (auto simp: Let_def update_game_state_def split: option.splits)
        have d1: "obs d1 = obs d" using get_key_keeps [OF key] quiet by blast
        show ?thesis
        proof (cases "react c g")
          case (Inl e)
          then show ?thesis using 1(2) False key by (auto simp: Let_def update_game_state_def)
        next
          case (Inr g1)
          have "f dv g1 (update_frame g vs) d1 = Some r"
            using 1(2) False key Inr by (simp add: Let_def update_game_state_def)
          from 1(1) [OF this] show ?thesis
            using paints_ok [OF frame] ok quiet d1 paints_trans [OF frame] by (auto split: sum.split)
        qed
      qed
    qed
  qed
  then show ?thesis using assms(2-4) by blast
qed

lemma game_mainloop_paints:
  assumes "screen_ok vs" and "vmem_ok vs" and "\<And>d. obs (snd (inb dv 0x60 d)) = obs d"
    and "game_mainloop dv pic pic_w pic_h vs d = Some (Inr (g, vs', d'))"
  shows "paints (vs\<lparr>kern := log_line ''kernel/game.c'' ''game_mainloop'' 155 ''Success'' (kern vs)\<rparr>) vs' \<and> obs d' = obs d"
proof -
  let ?log = "\<lambda>vs. vs\<lparr>kern := log_line ''kernel/game.c'' ''game_mainloop'' 155 ''Success'' (kern vs)\<rparr>"
  obtain g1 vs1 d1 where run: "game_loop dv (game_start pic pic_w pic_h) vs d = Some (Inr (g1, vs1, d1))"
    and res: "vs' = draw_picture pic pic_w pic_h (?log vs1)" "d' = d1"
    using assms(4) by (auto simp: game_mainloop_def Let_def split: option.splits sum.splits)
  have p: "paints vs vs1" and o: "obs d1 = obs d"
    using game_loop_paints [OF run assms(1,2), of obs] assms(3) by simp_all
  have log: "paints (?log vs) (?log vs1)" "screen_ok (?log vs1) = screen_ok vs1" "vmem_ok (?log vs1) = vmem_ok vs1"
    using p by (simp_all add: paints_def log_line_def screen_ok_def vmem_ok_def)
  have "paints (?log vs1) vs'"
    unfolding res(1) using log(2,3) paints_ok [OF p] assms(1,2) by (intro paints_draw_picture) simp_all
  from paints_trans [OF log(1) this] o res(2) show ?thesis by simp
qed

section \<open>The picture at the end\<close>

text \<open>The picture lies outside of the two buffers.\<close>

definition picture_ok :: "u32 \<Rightarrow> int \<Rightarrow> int \<Rightarrow> vstate \<Rightarrow> bool" where
  "picture_ok pic w h vs \<longleftrightarrow> nat (w * h * 3) \<le> 4294967296
     \<and> (\<forall>a. in_reg pic (nat (w * h * 3)) a \<longrightarrow>
          \<not> in_reg (vmem_buffer vs) VBUF_SIZE a \<and> \<not> in_reg (vmem vs) VBUF_SIZE a)"

lemma picture_paints:
  assumes "paints vs vs'" and "picture_ok pic w h vs" and "0 \<le> x" "x < w" "0 \<le> y" "y < h"
  shows "get_color (vmemory vs') pic x y w h = get_color (vmemory vs) pic x y w h"
  by (rule get_color_same [OF assms(3-6)]) (use assms(1,2) in \<open>auto simp: paints_def picture_ok_def\<close>)

lemma draw_picture_pixel:
  assumes ok: "screen_ok vs" "vmem_ok vs" and pic: "picture_ok pic w h vs" and w: "0 \<le> w" and on: "on_screen vs px py"
  shows "shown_pixel (draw_picture pic w h vs) px py
    = (if px < w \<and> py < h then get_color (vmemory vs) pic px py w h else 0)"
proof -
  let ?v0 = "init_video_buffer vs"
  let ?I = "\<lambda>s. draws vs s \<and> screen_ok s"
  let ?put = "\<lambda>y x. draw_pixel (0 + x) (0 + y) (get_color (vmemory vs) pic x y w h)"
  have v0: "?I ?v0" using init_video_buffer_spec(1) [OF ok(1)] draws_screen_ok ok(1) by blast
  have step: "?I (?put y x s)" if "?I s" for s x y
    using that draws_draw_pixel [of s] draws_trans screen.ok_put by blast
  have row: "?I (for_loop 0 w (?put y) s)" if "?I s" for s y
    by (rule for_loop_inv_const [where I = ?I]) (use that step in auto)
  have same: "for_loop 0 h (\<lambda>y. for_loop 0 w (\<lambda>x vs. draw_pixel x y (get_color (vmemory vs) pic x y w h) vs)) ?v0
      = for_loop 0 h (\<lambda>y. for_loop 0 w (?put y)) ?v0" (is "_ = ?v1")
  proof (rule for_loop_cong [where I = ?I], intro conjI)
    fix y s assume y: "0 \<le> y" "y < h" and s: "?I s"
    show "for_loop 0 w (\<lambda>x vs. draw_pixel x y (get_color (vmemory vs) pic x y w h) vs) s = for_loop 0 w (?put y) s"
      by (rule for_loop_cong [where I = ?I])
        (use y s step picture_paints [OF draws_paints pic] in auto)
  qed (use v0 row in auto)
  have v1: "draws vs ?v1" "screen_ok ?v1"
    using for_loop_inv_const [where I = ?I and lo = 0 and hi = h and body = "\<lambda>y. for_loop 0 w (?put y)"] v0 row by blast+
  have on0: "on_screen ?v0 px py" "on_screen ?v1 px py" "vmem_ok ?v1"
    using on ok(2) draws_on_screen [OF conjunct1 [OF v0]] draws_on_screen [OF v1(1)] paints_ok(2) [OF draws_paints [OF v1(1)]]
    by simp_all
  have xy: "0 \<le> px" "0 \<le> py" using on by (simp_all add: on_screen_def)
  have "buffer_pixel ?v1 px py = (if px < w \<and> py < h then get_color (vmemory vs) pic px py w h else 0)"
    using screen.blit [OF conjunct2 [OF v0] on0(1) w, where x = 0 and y = 0 and h = h
        and f = "\<lambda>x y. get_color (vmemory vs) pic x y w h"]
      init_video_buffer_spec(2) [OF ok(1) on] xy by (simp add: Let_def get_color_24)
  then show ?thesis
    unfolding draw_picture_def Let_def same using update_screen_pixel [OF on0(3) v1(2) on0(2)] by simp
qed

lemma game_mainloop_shows:
  assumes ok: "screen_ok vs" "vmem_ok vs" and pic: "picture_ok pic pic_w pic_h vs" and w: "0 \<le> pic_w"
    and on: "on_screen vs px py" and run: "game_mainloop dv pic pic_w pic_h vs d = Some (Inr (g, vs', d'))"
  shows "shown_pixel vs' px py = (if px < pic_w \<and> py < pic_h then get_color (vmemory vs) pic px py pic_w pic_h else 0)"
proof -
  let ?log = "\<lambda>vs. vs\<lparr>kern := log_line ''kernel/game.c'' ''game_mainloop'' 155 ''Success'' (kern vs)\<rparr>"
  obtain g1 vs1 d1 where loop: "game_loop dv (game_start pic pic_w pic_h) vs d = Some (Inr (g1, vs1, d1))"
    and res: "vs' = draw_picture pic pic_w pic_h (?log vs1)"
    using run by (auto simp: game_mainloop_def Let_def split: option.splits sum.splits)
  have p: "paints vs vs1" using game_loop_paints [OF loop ok, of "\<lambda>_. ()"] by simp
  have same: "vmemory (?log vs1) = vmemory vs1" "mode_info (?log vs1) = mode_info vs1" "vmem (?log vs1) = vmem vs1"
    "vmem_buffer (?log vs1) = vmem_buffer vs1" by (simp_all add: log_line_def)
  have pre: "screen_ok (?log vs1)" "vmem_ok (?log vs1)" "picture_ok pic pic_w pic_h (?log vs1)" "on_screen (?log vs1) px py"
    using ok pic on p unfolding screen_ok_def vmem_ok_def picture_ok_def on_screen_def same by (simp_all add: paints_def)
  have "0 \<le> px" "0 \<le> py" using on by (simp_all add: on_screen_def)
  with picture_paints [OF p pic] show ?thesis
    unfolding res draw_picture_pixel [OF pre(1-3) w pre(4)] same by simp
qed

section \<open>Properties\<close>

text \<open>C13: whatever key is pressed, the game does not fault, the cursor and the selection stay
  on the board, the board keeps its size, and the blocks stay a permutation of the
  picture's blocks.\<close>

theorem react_keeps_game:
  assumes "game_inv g"
  shows "\<exists>g'. react c g = Inr g' \<and> game_inv g' \<and> nr_block_h g' = nr_block_h g \<and> nr_block_v g' = nr_block_v g
    \<and> mset (block g') = mset (block g)"
proof -
  obtain g' where g': "react c g = Inr g'" "game_inv g'" using react_inv [OF assms] by blast
  moreover from react_shape [OF assms g'(1)] have "nr_blocks g' = nr_blocks g" by (simp add: nr_blocks_def)
  ultimately show ?thesis using assms react_shape [OF assms g'(1)] by (simp add: game_inv_def)
qed

definition small_game :: GameState where
  "small_game = (game_start 0x200000 300 200)\<lparr>block_x := 2\<rparr>"

lemma small_game_inv: "game_inv small_game" "nr_block_h small_game = 3" "nr_block_v small_game = 2" "block_x small_game = 2"
  "block_y small_game = 0" "select small_game = GAME_SEL_NONE"
proof -
  have "idle_game (game_start 0x200000 300 200)" by (rule game_start_idle) simp_all
  then have g: "game_inv (game_start 0x200000 300 200)" "select (game_start 0x200000 300 200) = GAME_SEL_NONE"
    by (simp_all add: idle_game_def)
  have s: "nr_block_h (game_start 0x200000 300 200) = 3" "nr_block_v (game_start 0x200000 300 200) = 2"
    using game_start_idle(2,3) [of 300 200 "0x200000"] by simp_all
  show "nr_block_h small_game = 3" "nr_block_v small_game = 2" using s by (simp_all add: small_game_def)
  show "block_x small_game = 2" "block_y small_game = 0" "select small_game = GAME_SEL_NONE"
    using g(2) by (simp_all add: small_game_def game_start_def Let_def)
  show "game_inv small_game" using g(1) s by (simp add: small_game_def game_inv_def nr_blocks_def)
qed

theorem react_keeps_game_witness:
  "\<exists>g'. react KEY_RIGHT small_game = Inr g' \<and> game_inv g' \<and> mset (block g') = mset (block small_game)"
  using react_keeps_game [OF small_game_inv(1), of KEY_RIGHT] by blast

text \<open>The arrow keys move the cursor by one block around the board, modulo its width and
  height; space first selects the block under the cursor and, the second time, exchanges
  it with the block under the cursor; every other key is ignored.\<close>

lemma react_moves:
  assumes "game_inv g"
  shows "react KEY_DOWN g = Inr (g\<lparr>block_y := (block_y g + 1) mod nr_block_v g\<rparr>)
    \<and> react KEY_UP g = Inr (g\<lparr>block_y := (block_y g - 1) mod nr_block_v g\<rparr>)
    \<and> react KEY_RIGHT g = Inr (g\<lparr>block_x := (block_x g + 1) mod nr_block_h g\<rparr>)
    \<and> react KEY_LEFT g = Inr (g\<lparr>block_x := (block_x g - 1) mod nr_block_h g\<rparr>)
    \<and> react KEY_SPACE g = Inr (if select g = GAME_SEL_NONE
       then g\<lparr>select := GAME_SEL_SELECTED, select_block_x := block_x g, select_block_y := block_y g\<rparr>
       else g\<lparr>select := GAME_SEL_NONE, block := swapped g\<rparr>)
    \<and> (\<forall>c. c = KEY_DOWN \<or> c = KEY_UP \<or> c = KEY_RIGHT \<or> c = KEY_LEFT \<or> c = KEY_SPACE \<or> react c g = Inr g)"
  using react_move [OF assms] react_space [OF assms] press_space_spec [OF assms] react_other [OF assms] by auto

lemma react_moves_witness:
  "react KEY_RIGHT small_game = Inr (small_game\<lparr>block_x := 0\<rparr>)
    \<and> react KEY_UP small_game = Inr (small_game\<lparr>block_y := 1\<rparr>) \<and> react 0x1C small_game = Inr small_game"
proof -
  note m = react_moves [OF small_game_inv(1)]
  have "\<forall>c. c = KEY_DOWN \<or> c = KEY_UP \<or> c = KEY_RIGHT \<or> c = KEY_LEFT \<or> c = KEY_SPACE
      \<or> react c small_game = Inr small_game" using m by (elim conjE)
  from spec [OF this, of "0x1C"] have "react 0x1C small_game = Inr small_game" by (simp add: key_defs)
  then show ?thesis using m by (simp add: small_game_inv(2-5))
qed

text \<open>The puzzle counts as solved exactly when every block is in its place.\<close>

lemma check_valid_solved:
  assumes "game_inv g"
  shows "check_valid g \<longleftrightarrow> block g = [0..nr_blocks g - 1]"
  by (rule check_valid_identity [OF assms])

lemma check_valid_solved_witness:
  "check_valid small_game \<longleftrightarrow> block small_game = [0..5]"
  using check_valid_solved [OF small_game_inv(1)] by (simp add: nr_blocks_def small_game_inv)

lemma game_mainloop_returns:
  assumes "100 \<le> pic_w" and "100 \<le> pic_h" and "game_mainloop dv pic pic_w pic_h vs d = Some r"
  shows "\<exists>g vs' d'. r = Inr (g, vs', d') \<and> block g = [0..pic_w div 100 * (pic_h div 100) - 1]"
proof -
  let ?g = "game_start pic pic_w pic_h"
  have inv: "game_inv ?g" using game_start_idle(1) [OF assms(1,2)] by (simp add: idle_game_def)
  obtain r0 where r0: "game_loop dv ?g vs d = Some r0"
    using assms(3) by (auto simp: game_mainloop_def Let_def split: option.splits)
  from game_loop_solved [OF this inv] obtain g vs' d' where g: "r0 = Inr (g, vs', d')" "game_inv g" "check_valid g"
    "same_shape ?g g" by blast
  then have "block g = [0..nr_blocks g - 1]" using check_valid_identity by simp
  moreover have "nr_blocks g = pic_w div 100 * (pic_h div 100)"
    using g(4) game_start_idle(2,3) [OF assms(1,2)] by (simp add: nr_blocks_def same_shape_def)
  ultimately show ?thesis using assms(3) r0 g(1) by (auto simp: game_mainloop_def Let_def)
qed

text \<open>When the game loop returns, whatever the player did, it has not faulted and the
  puzzle is solved.\<close>

lemma game_mainloop_solved:
  assumes "100 \<le> pic_w" and "100 \<le> pic_h" and "game_mainloop dv pic pic_w pic_h vs d = Some r"
  shows "\<exists>g vs' d'. r = Inr (g, vs', d') \<and> block g = [0..pic_w div 100 * (pic_h div 100) - 1]"
  by (rule game_mainloop_returns [OF assms])

lemma game_winning_keys:
  assumes "100 \<le> pic_w" and "100 \<le> pic_h"
  shows "\<exists>cs. set cs \<subseteq> game_keys \<and> (\<forall>(dv :: 'a device) vs d d'. \<not> answers dv 0x60 (typed cs) d d'
    \<or> (\<exists>r. game_mainloop dv pic pic_w pic_h vs d = Some (Inr r)))"
proof -
  let ?g = "game_start pic pic_w pic_h"
  have idle: "idle_game ?g" by (rule game_start_idle(1) [OF assms])
  obtain cs g' where cs: "set cs \<subseteq> game_keys" "plays cs ?g = Inr g'" "check_valid g'"
    using plays_solve [OF idle] by blast
  have inv: "game_inv ?g" using idle by (simp add: idle_game_def)
  have "\<not> answers dv 0x60 (typed cs) d d' \<or> (\<exists>r. game_mainloop dv pic pic_w pic_h vs d = Some (Inr r))"
    for dv :: "'a device" and vs d d'
    using game_loop_plays [OF cs(1) inv cs(2,3), of dv d d' vs] by (auto simp: game_mainloop_def Let_def)
  then show ?thesis by (intro exI [of _ cs] conjI cs(1) allI)
qed

text \<open>C26: every game can be won: there is a sequence of keys such that, when they are pressed
  and released one after the other, the game ends without a fault.\<close>

theorem game_solvable:
  assumes "100 \<le> pic_w" and "100 \<le> pic_h"
  shows "\<exists>cs. set cs \<subseteq> game_keys \<and> (\<forall>(dv :: 'a device) vs d d'. \<not> answers dv 0x60 (typed cs) d d'
    \<or> (\<exists>r. game_mainloop dv pic pic_w pic_h vs d = Some (Inr r)))"
  by (rule game_winning_keys [OF assms])

theorem game_solvable_witness:
  "\<exists>bs r. game_mainloop byte_source 0x200000 300 200 vga bs = Some (Inr r)"
proof -
  obtain cs where cs: "\<forall>(dv :: byte list device) vs d d'. \<not> answers dv 0x60 (typed cs) d d'
    \<or> (\<exists>r. game_mainloop dv 0x200000 300 200 vs d = Some (Inr r))"
    using game_solvable [of 300 200 "0x200000"] by auto
  have "answers byte_source 0x60 (typed cs) (typed cs @ []) []" by (rule byte_source_answers)
  with cs show ?thesis by blast
qed

lemma game_mainloop_solved_witness:
  "\<exists>bs g vs' d'. game_mainloop byte_source 0x200000 300 200 vga bs = Some (Inr (g, vs', d')) \<and> block g = [0..5]"
proof -
  obtain cs g' where cs: "set cs \<subseteq> game_keys" "plays cs (game_start 0x200000 300 200) = Inr g'" "check_valid g'"
    using plays_solve [OF game_start_idle(1), of 300 200 "0x200000"] by auto
  have inv: "game_inv (game_start 0x200000 300 200)"
    using game_start_idle(1) [of 300 200 "0x200000"] by (simp add: idle_game_def)
  have "answers byte_source 0x60 (typed cs) (typed cs @ []) []" by (rule byte_source_answers)
  from game_loop_plays [OF cs(1) inv cs(2,3) this, of vga]
  obtain r where run: "game_mainloop byte_source 0x200000 300 200 vga (typed cs @ []) = Some r"
    by (auto simp: game_mainloop_def Let_def)
  from game_mainloop_solved [OF _ _ this] show ?thesis using run by auto
qed

text \<open>C35: after a frame, the screen shows the puzzle: a pixel of a cell, three or more pixels
  away from its edges, is the corresponding pixel of the picture block that lies there.\<close>

theorem update_frame_shows:
  assumes "screen_ok vs" and "vmem_ok vs" and "game_inv g" and "image_ok g vs" and "on_screen vs px py" and "inner g px py"
    and "px div block_w g = k mod nr_block_h g" and "py div block_h g = k div nr_block_h g"
    and "0 \<le> k" and "k < nr_blocks g"
  shows "shown_pixel (update_frame g vs) px py
    = get_color (vmemory vs) (image g) (block g ! nat k mod nr_block_h g * block_w g + px mod block_w g)
        (block g ! nat k div nr_block_h g * block_h g + py mod block_h g) (image_w g) (image_h g)"
proof -
  obtain vs1 where "update_frame g vs = update_screen vs1" "draws vs vs1"
    and c: "buffer_pixel vs1 px py = block_color g (vmemory vs) k (px mod block_w g) (py mod block_h g)"
    using update_frame_buffer [OF assms(1,3,4,5,6,7,8,9,10)] by blast
  moreover from this have "screen_ok vs1" "on_screen vs1 px py" "vmem_ok vs1"
    using assms(1,2,5) draws_screen_ok [of vs vs1] draws_on_screen [of vs vs1] by (simp_all add: draws_def vmem_ok_def)
  ultimately show ?thesis
    using update_screen_pixel [of vs1 px py] by (simp add: block_color_def Let_def)
qed

theorem update_frame_shows_witness:
  "shown_pixel (update_frame small_game vga) 150 50
     = get_color (vmemory vga) 0x200000 (block small_game ! 1 mod 3 * 100 + 50) (block small_game ! 1 div 3 * 100 + 50) 300 200"
proof -
  have g: "block_w small_game = 100" "block_h small_game = 100" "image_w small_game = 300" "image_h small_game = 200"
    "image small_game = 0x200000"
    by (simp_all add: small_game_def game_start_def Let_def)
  have "image_ok small_game vga"
    unfolding image_ok_def g small_game_inv by (auto simp: vga_def in_reg_nat VBUF_SIZE_def)
  then show ?thesis
    using update_frame_shows [OF vga_ok(1,2) small_game_inv(1), of 150 50 1]
    by (simp add: g small_game_inv vga_ok(3) inner_def nr_blocks_def)
qed

text \<open>C14: the whole game is memory safe. From start to end, whatever is typed, it writes only to
  the back buffer and to the frame buffer; the page pool, the registers, the page directory
  and the video state are what they were; what reading port \<open>0x60\<close> keeps of the devices
  is kept; and one line has been logged.\<close>

theorem game_memory_safe:
  assumes "screen_ok vs" and "vmem_ok vs" and "\<And>d. obs (snd (inb dv 0x60 d)) = obs d"
    and "game_mainloop dv pic pic_w pic_h vs d = Some (Inr (g, vs', d'))"
  shows "(\<forall>a. in_reg (vmem_buffer vs) VBUF_SIZE a \<or> in_reg (vmem vs) VBUF_SIZE a \<or> vmemory vs' a = vmemory vs a)
    \<and> mode_info vs' = mode_info vs \<and> vmem vs' = vmem vs \<and> vmem_buffer vs' = vmem_buffer vs
    \<and> kpages (kern vs') = kpages (kern vs) \<and> kpgdir (kern vs') = kpgdir (kern vs)
    \<and> cr0 (kern vs') = cr0 (kern vs) \<and> cr3 (kern vs') = cr3 (kern vs)
    \<and> klog (kern vs') = klog (kern vs) @ [LogLine ''kernel/game.c'' ''game_mainloop'' 155 ''Success'']
    \<and> obs d' = obs d"
  using game_mainloop_paints [where obs = obs, OF assms] by (simp add: paints_def log_line_def)

text \<open>C15: when the game is over the screen shows the picture: every pixel of the screen is the
  picture's pixel, or black outside of the picture, when the picture lies in neither of
  the buffers.\<close>

theorem game_ends_with_picture:
  assumes "screen_ok vs" and "vmem_ok vs" and "picture_ok pic pic_w pic_h vs" and "0 \<le> pic_w" and "on_screen vs px py"
    and "game_mainloop dv pic pic_w pic_h vs d = Some (Inr (g, vs', d'))"
  shows "shown_pixel vs' px py = (if px < pic_w \<and> py < pic_h then get_color (vmemory vs) pic px py pic_w pic_h else 0)"
  by (rule game_mainloop_shows [OF assms])

text \<open>A game that is played to its end.\<close>

lemma game_example: "\<exists>bs g vs' d'. game_mainloop byte_source 0x200000 300 200 vga bs = Some (Inr (g, vs', d'))"
proof -
  obtain cs where cs: "\<forall>(dv :: byte list device) vs d d'. \<not> answers dv 0x60 (typed cs) d d'
    \<or> (\<exists>r. game_mainloop dv 0x200000 300 200 vs d = Some (Inr r))"
    using game_winning_keys [of 300 200 "0x200000"] by auto
  have "answers byte_source 0x60 (typed cs) (typed cs @ []) []" by (rule byte_source_answers)
  with cs obtain r where "game_mainloop byte_source 0x200000 300 200 vga (typed cs @ []) = Some (Inr r)" by blast
  then show ?thesis by (cases r) blast
qed

theorem game_memory_safe_witness:
  "\<exists>bs g vs' d'. game_mainloop byte_source 0x200000 300 200 vga bs = Some (Inr (g, vs', d'))
    \<and> vmemory vs' 0x2FFFFF = 7 \<and> kpgdir (kern vs') = 0 \<and> vmem vs' = 0xFD000000
    \<and> klog (kern vs') = [LogLine ''kernel/game.c'' ''game_mainloop'' 155 ''Success'']"
proof -
  obtain bs g vs' d' where run: "game_mainloop byte_source 0x200000 300 200 vga bs = Some (Inr (g, vs', d'))"
    using game_example by blast
  have "\<not> in_reg (vmem_buffer vga) VBUF_SIZE 0x2FFFFF" "\<not> in_reg (vmem vga) VBUF_SIZE 0x2FFFFF"
    by (simp_all add: vga_def in_reg_nat VBUF_SIZE_def)
  then have "vmemory vs' 0x2FFFFF = 7 \<and> kpgdir (kern vs') = 0 \<and> vmem vs' = 0xFD000000
    \<and> klog (kern vs') = [LogLine ''kernel/game.c'' ''game_mainloop'' 155 ''Success'']"
    using game_memory_safe [OF vga_ok(1,2) _ run, of "\<lambda>_. ()"] by (auto simp: vga_def)
  with run show ?thesis by blast
qed

theorem game_ends_with_picture_witness:
  "\<exists>bs g vs' d'. game_mainloop byte_source 0x200000 300 200 vga bs = Some (Inr (g, vs', d'))
    \<and> shown_pixel vs' 299 199 = 0x070707 \<and> shown_pixel vs' 300 199 = 0"
proof -
  obtain bs g vs' d' where run: "game_mainloop byte_source 0x200000 300 200 vga bs = Some (Inr (g, vs', d'))"
    using game_example by blast
  have pic: "picture_ok 0x200000 300 200 vga"
    by (auto simp: picture_ok_def vga_def in_reg_nat VBUF_SIZE_def)
  have c: "get_color (vmemory vga) 0x200000 299 199 300 200 = 0x070707"
    by (simp add: get_color_def vga_def)
  note pixel = game_ends_with_picture [OF vga_ok(1,2) pic _ _ run]
  show ?thesis using run pixel [of 299 199] pixel [of 300 199] c vga_ok(3) by auto
qed

end
