(* ===== verification/Printfmt.thy ===== *)
theory Printfmt
  imports CString
begin

text \<open>
  Formatted printing, \<open>lib/printfmt.c\<close> with the error numbers of \<open>inc/error.h\<close>.

  The output routine \<open>putch\<close> is a parameter: it takes a character and steps a state, and
  \<open>None\<close> is that it never returns. The state holds the memory that the format and the strings
  lie in; \<open>rd\<close> is its view, so that an output routine that writes memory is seen by the
  formatter. \<open>lit\<close> is where the linker put a string literal of the file. The variable arguments
  are the 32-bit words that the caller passed, a \<open>long long\<close> being two of them; taking more than
  there are is a fault. Signed arithmetic wraps around, as unoptimised code does.

  A result is \<open>None\<close> when the code does not return, and a fault or a value otherwise.
\<close>

section \<open>Error numbers\<close>

definition E_UNSPECIFIED :: int where "E_UNSPECIFIED = 1"
definition E_BAD_ENV :: int where "E_BAD_ENV = 2"
definition E_INVAL :: int where "E_INVAL = 3"
definition E_NO_MEM :: int where "E_NO_MEM = 4"
definition E_NO_FREE_ENV :: int where "E_NO_FREE_ENV = 5"
definition E_FAULT :: int where "E_FAULT = 6"
definition E_NO_SYS :: int where "E_NO_SYS = 7"
definition MAXERROR :: int where "MAXERROR = E_NO_SYS + 1"

text \<open>The entries of the table that have no initialiser are null.\<close>

definition error_string :: "int \<Rightarrow> string option result" where
  "error_string err =
     (if err < 0 \<or> MAXERROR \<le> err then Inl OutOfBounds
      else Inr (if err = E_UNSPECIFIED then Some ''unspecified error''
        else if err = E_BAD_ENV then Some ''bad environment''
        else if err = E_INVAL then Some ''invalid parameter''
        else if err = E_NO_MEM then Some ''out of memory''
        else if err = E_NO_FREE_ENV then Some ''out of environments''
        else if err = E_FAULT then Some ''segmentation fault''
        else None))"

section \<open>Characters and integers\<close>

text \<open>A character constant is an \<open>int\<close>; signed arithmetic wraps.\<close>

abbreviation ic :: "char \<Rightarrow> int" where "ic c \<equiv> of_char c"

definition wrap :: "int \<Rightarrow> int" where
  "wrap x = sint (word_of_int x :: u32)"

definition va_word :: "u32 list \<Rightarrow> (u32 \<times> u32 list) result" where
  "va_word ap = (case ap of [] \<Rightarrow> Inl OutOfBounds | x # ap \<Rightarrow> Inr (x, ap))"

definition va_llong :: "u32 list \<Rightarrow> (u64 \<times> u32 list) result" where
  "va_llong ap = (case ap of lo # hi # ap \<Rightarrow> Inr (ucast lo OR push_bit 32 (ucast hi), ap) | _ \<Rightarrow> Inl OutOfBounds)"

definition getuint :: "u32 list \<Rightarrow> int \<Rightarrow> (u64 \<times> u32 list) result" where
  "getuint ap lflag =
     (if lflag \<ge> 2 then va_llong ap
      else if lflag \<noteq> 0 then map_sum id (map_prod ucast id) (va_word ap)
      else map_sum id (map_prod ucast id) (va_word ap))"

definition getint :: "u32 list \<Rightarrow> int \<Rightarrow> (u64 \<times> u32 list) result" where
  "getint ap lflag =
     (if lflag \<ge> 2 then va_llong ap
      else if lflag \<noteq> 0 then map_sum id (map_prod scast id) (va_word ap)
      else map_sum id (map_prod scast id) (va_word ap))"

section \<open>Numbers\<close>

text \<open>The literal's terminator is the entry number 16.\<close>

definition digit_char :: "u64 \<Rightarrow> int result" where
  "digit_char d =
     (if d < 16 then Inr (ic (''0123456789abcdef'' ! unat d)) else if d = 16 then Inr 0 else Inl OutOfBounds)"

partial_function (option) pad_num :: "(int \<Rightarrow> 's \<Rightarrow> 's option) \<Rightarrow> int \<Rightarrow> int \<Rightarrow> 's \<Rightarrow> 's option" where
  "pad_num putch padc wid s =
     (let wid = wrap (wid - 1)
      in if wid > 0
         then (case putch padc s of None \<Rightarrow> None | Some s \<Rightarrow> pad_num putch padc wid s)
         else Some s)"

partial_function (option) printnum ::
    "(int \<Rightarrow> 's \<Rightarrow> 's option) \<Rightarrow> u64 \<Rightarrow> u32 \<Rightarrow> int \<Rightarrow> int \<Rightarrow> 's \<Rightarrow> 's result option" where
  "printnum putch num base wid padc s =
     Option.bind
       (if num \<ge> ucast base
        then printnum putch (num div ucast base) base (wrap (wid - 1)) padc s
        else (case pad_num putch padc wid s of None \<Rightarrow> None | Some s \<Rightarrow> Some (Inr s)))
       (\<lambda>r. case r of
          Inl e \<Rightarrow> Some (Inl e)
        | Inr s \<Rightarrow>
            (case digit_char (num mod ucast base) of
               Inl e \<Rightarrow> Some (Inl e)
             | Inr c \<Rightarrow> (case putch c s of None \<Rightarrow> None | Some s \<Rightarrow> Some (Inr s))))"

section \<open>The formatter\<close>

text \<open>The local variables set before \<open>reswitch\<close>.\<close>

record locals =
  padc :: int
  wid :: int
  precision :: int
  lflag :: int
  altflag :: int

definition init_locals :: locals where
  "init_locals = \<lparr>padc = ic CHR '' '', wid = - 1, precision = - 1, lflag = 0, altflag = 0\<rparr>"

text \<open>The position in \<open>vprintfmt\<close>: at the loop that copies plain text, or at the label
  \<open>reswitch\<close>. A round ends the function, goes on, or calls \<open>printfmt\<close> and goes on.\<close>

datatype pmode = Scan | Reswitch locals

datatype 's outcome =
    Return 's
  | Continue pmode u32 "u32 list" 's
  | Call u32 "u32 list" u32 "u32 list" 's

text \<open>The loop at the digits of a width; it leaves \<open>fmt\<close> at the first other character.\<close>

partial_function (option) width_digits :: "mem \<Rightarrow> u32 \<Rightarrow> int \<Rightarrow> int \<Rightarrow> (u32 \<times> int) option" where
  "width_digits m fmt ch prec =
     (let prec = wrap (prec * 10 + ch - ic CHR ''0'');
          ch = sint (m fmt)
      in if ch < ic CHR ''0'' \<or> ch > ic CHR ''9'' then Some (fmt, prec) else width_digits m (fmt + 1) ch prec)"

definition process_precision :: "locals \<Rightarrow> locals" where
  "process_precision l = (if wid l < 0 then l\<lparr>wid := precision l, precision := - 1\<rparr> else l)"

text \<open>The loops of \<open>%s\<close>.\<close>

partial_function (option) pad_str :: "(int \<Rightarrow> 's \<Rightarrow> 's option) \<Rightarrow> int \<Rightarrow> int \<Rightarrow> 's \<Rightarrow> (int \<times> 's) option" where
  "pad_str putch c w s =
     (if w > 0
      then (case putch c s of None \<Rightarrow> None | Some s \<Rightarrow> pad_str putch c (wrap (w - 1)) s)
      else Some (w, s))"

partial_function (option) put_str ::
    "(int \<Rightarrow> 's \<Rightarrow> 's option) \<Rightarrow> ('s \<Rightarrow> mem) \<Rightarrow> int \<Rightarrow> u32 \<Rightarrow> int \<Rightarrow> int \<Rightarrow> 's \<Rightarrow> (int \<times> 's) option" where
  "put_str putch rd alt p prec w s =
     (let ch = sint (rd s p)
      in if ch \<noteq> 0 \<and> (prec < 0 \<or> wrap (prec - 1) \<ge> 0)
         then (case putch (if alt \<noteq> 0 \<and> (ch < ic CHR '' '' \<or> ch > ic CHR ''~'') then ic CHR ''?'' else ch) s of
                 None \<Rightarrow> None
               | Some s \<Rightarrow> put_str putch rd alt (p + 1) (if prec < 0 then prec else wrap (prec - 1)) (wrap (w - 1)) s)
         else Some (w, s))"

definition fmt_string :: "(int \<Rightarrow> 's \<Rightarrow> 's option) \<Rightarrow> ('s \<Rightarrow> mem) \<Rightarrow> locals \<Rightarrow> u32 \<Rightarrow> 's \<Rightarrow> 's option" where
  "fmt_string putch rd l p s =
     (case (if wid l > 0 \<and> padc l \<noteq> ic CHR ''-''
            then pad_str putch (padc l) (wrap (wid l - sint (strnlen (rd s) p (word_of_int (precision l))))) s
            else Some (wid l, s)) of
        None \<Rightarrow> None
      | Some (w, s) \<Rightarrow>
          (case put_str putch rd (altflag l) p (precision l) w s of
             None \<Rightarrow> None
           | Some (w, s) \<Rightarrow>
               (case pad_str putch (ic CHR '' '') w s of None \<Rightarrow> None | Some (w, s) \<Rightarrow> Some s)))"

text \<open>The default case: back to the character behind the last percent sign.\<close>

partial_function (option) rewind :: "mem \<Rightarrow> u32 \<Rightarrow> u32 option" where
  "rewind m fmt = (if m (fmt - 1) \<noteq> chr CHR ''%'' then rewind m (fmt - 1) else Some fmt)"

text \<open>The rounds. \<open>brk\<close> is the \<open>break\<close> that leaves the \<open>switch\<close> for the outer loop.\<close>

definition brk :: "u32 \<Rightarrow> u32 list \<Rightarrow> 's option \<Rightarrow> 's outcome result option" where
  "brk fmt ap r = (case r of None \<Rightarrow> None | Some s \<Rightarrow> Some (Inr (Continue Scan fmt ap s)))"

definition scan_step :: "(int \<Rightarrow> 's \<Rightarrow> 's option) \<Rightarrow> ('s \<Rightarrow> mem) \<Rightarrow> u32 \<Rightarrow> u32 list \<Rightarrow> 's \<Rightarrow> 's outcome result option" where
  "scan_step putch rd fmt ap s =
     (let ch = uint (rd s fmt); fmt = fmt + 1
      in if ch = ic CHR ''%'' then Some (Inr (Continue (Reswitch init_locals) fmt ap s))
         else if ch = 0 then Some (Inr (Return s))
         else brk fmt ap (putch ch s))"

text \<open>The label \<open>number\<close>.\<close>

definition number :: "(int \<Rightarrow> 's \<Rightarrow> 's option) \<Rightarrow> locals \<Rightarrow> u64 \<Rightarrow> u32 \<Rightarrow> u32 \<Rightarrow> u32 list \<Rightarrow> 's \<Rightarrow> 's outcome result option" where
  "number putch l num base fmt ap s =
     (case printnum putch num base (wid l) (padc l) s of
        None \<Rightarrow> None
      | Some (Inl e) \<Rightarrow> Some (Inl e)
      | Some (Inr s) \<Rightarrow> Some (Inr (Continue Scan fmt ap s)))"

text \<open>The case \<open>%e\<close>; the literals are those of this file.\<close>

definition fmt_error :: "(string \<Rightarrow> u32) \<Rightarrow> u32 \<Rightarrow> u32 list \<Rightarrow> 's \<Rightarrow> 's outcome result option" where
  "fmt_error lit fmt ap s =
     (case va_word ap of
        Inl e \<Rightarrow> Some (Inl e)
      | Inr (x, ap) \<Rightarrow>
          (let err = sint x;
               err = (if err < 0 then wrap (- err) else err)
           in if err \<ge> MAXERROR
              then Some (Inr (Call (lit ''error %d'') [word_of_int err] fmt ap s))
              else (case error_string err of
                      Inl e \<Rightarrow> Some (Inl e)
                    | Inr None \<Rightarrow> Some (Inr (Call (lit ''error %d'') [word_of_int err] fmt ap s))
                    | Inr (Some p) \<Rightarrow> Some (Inr (Call (lit ''%s'') [lit p] fmt ap s)))))"

definition switch_step ::
    "(int \<Rightarrow> 's \<Rightarrow> 's option) \<Rightarrow> ('s \<Rightarrow> mem) \<Rightarrow> (string \<Rightarrow> u32) \<Rightarrow> locals \<Rightarrow> u32 \<Rightarrow> u32 list \<Rightarrow> 's \<Rightarrow> 's outcome result option" where
  "switch_step putch rd lit l fmt ap s =
     (let ch = uint (rd s fmt); fmt = fmt + 1;
          again = (\<lambda>l fmt ap. Some (Inr (Continue (Reswitch l) fmt ap s)))
      in if ch = ic CHR ''-'' then again (l\<lparr>padc := ic CHR ''-''\<rparr>) fmt ap
         else if ch = ic CHR ''0'' then again (l\<lparr>padc := ic CHR ''0''\<rparr>) fmt ap
         else if ic CHR ''1'' \<le> ch \<and> ch \<le> ic CHR ''9''
         then (case width_digits (rd s) fmt ch 0 of
                 None \<Rightarrow> None
               | Some (fmt, prec) \<Rightarrow> again (process_precision (l\<lparr>precision := prec\<rparr>)) fmt ap)
         else if ch = ic CHR ''*''
         then (case va_word ap of
                 Inl e \<Rightarrow> Some (Inl e)
               | Inr (x, ap) \<Rightarrow> again (process_precision (l\<lparr>precision := sint x\<rparr>)) fmt ap)
         else if ch = ic CHR ''.'' then again (if wid l < 0 then l\<lparr>wid := 0\<rparr> else l) fmt ap
         else if ch = ic CHR ''#'' then again (l\<lparr>altflag := 1\<rparr>) fmt ap
         else if ch = ic CHR ''l'' then again (l\<lparr>lflag := wrap (lflag l + 1)\<rparr>) fmt ap
         else if ch = ic CHR ''c''
         then (case va_word ap of
                 Inl e \<Rightarrow> Some (Inl e)
               | Inr (x, ap) \<Rightarrow> brk fmt ap (putch (sint x) s))
         else if ch = ic CHR ''e'' then fmt_error lit fmt ap s
         else if ch = ic CHR ''s''
         then (case va_word ap of
                 Inl e \<Rightarrow> Some (Inl e)
               | Inr (p, ap) \<Rightarrow> brk fmt ap (fmt_string putch rd l (if p = 0 then lit ''(null)'' else p) s))
         else if ch = ic CHR ''d''
         then (case getint ap (lflag l) of
                 Inl e \<Rightarrow> Some (Inl e)
               | Inr (num, ap) \<Rightarrow>
                   (if sint num < 0
                    then (case putch (ic CHR ''-'') s of
                            None \<Rightarrow> None
                          | Some s \<Rightarrow> number putch l (- num) 10 fmt ap s)
                    else number putch l num 10 fmt ap s))
         else if ch = ic CHR ''u''
         then (case getuint ap (lflag l) of
                 Inl e \<Rightarrow> Some (Inl e)
               | Inr (num, ap) \<Rightarrow> number putch l num 10 fmt ap s)
         else if ch = ic CHR ''o''
         then brk fmt ap
                (Option.bind (putch (ic CHR ''X'') s) (\<lambda>s.
                 Option.bind (putch (ic CHR ''X'') s) (\<lambda>s.
                 putch (ic CHR ''X'') s)))
         else if ch = ic CHR ''p''
         then (case Option.bind (putch (ic CHR ''0'') s) (putch (ic CHR ''x'')) of
                 None \<Rightarrow> None
               | Some s \<Rightarrow>
                   (case va_word ap of
                      Inl e \<Rightarrow> Some (Inl e)
                    | Inr (x, ap) \<Rightarrow> number putch l (ucast x) 16 fmt ap s))
         else if ch = ic CHR ''x''
         then (case getuint ap (lflag l) of
                 Inl e \<Rightarrow> Some (Inl e)
               | Inr (num, ap) \<Rightarrow> number putch l num 16 fmt ap s)
         else if ch = ic CHR ''%'' then brk fmt ap (putch ch s)
         else (case putch (ic CHR ''%'') s of
                 None \<Rightarrow> None
               | Some s \<Rightarrow>
                   (case rewind (rd s) (fmt - 1) of
                      None \<Rightarrow> None
                    | Some fmt \<Rightarrow> Some (Inr (Continue Scan fmt ap s)))))"

partial_function (option) vprintfmt_loop ::
    "(int \<Rightarrow> 's \<Rightarrow> 's option) \<Rightarrow> ('s \<Rightarrow> mem) \<Rightarrow> (string \<Rightarrow> u32) \<Rightarrow> pmode \<Rightarrow> u32 \<Rightarrow> u32 list \<Rightarrow> 's \<Rightarrow> 's result option" where
  "vprintfmt_loop putch rd lit md fmt ap s =
     (case (case md of Scan \<Rightarrow> scan_step putch rd fmt ap s | Reswitch l \<Rightarrow> switch_step putch rd lit l fmt ap s) of
        None \<Rightarrow> None
      | Some (Inl e) \<Rightarrow> Some (Inl e)
      | Some (Inr (Return s)) \<Rightarrow> Some (Inr s)
      | Some (Inr (Continue md fmt ap s)) \<Rightarrow> vprintfmt_loop putch rd lit md fmt ap s
      | Some (Inr (Call fmt' ap' fmt ap s)) \<Rightarrow>
          Option.bind (vprintfmt_loop putch rd lit Scan fmt' ap' s)
            (\<lambda>r. case r of
               Inl e \<Rightarrow> Some (Inl e)
             | Inr s \<Rightarrow> vprintfmt_loop putch rd lit Scan fmt ap s))"

definition vprintfmt ::
    "(int \<Rightarrow> 's \<Rightarrow> 's option) \<Rightarrow> ('s \<Rightarrow> mem) \<Rightarrow> (string \<Rightarrow> u32) \<Rightarrow> u32 \<Rightarrow> u32 list \<Rightarrow> 's \<Rightarrow> 's result option" where
  "vprintfmt putch rd lit fmt ap s = vprintfmt_loop putch rd lit Scan fmt ap s"

definition printfmt ::
    "(int \<Rightarrow> 's \<Rightarrow> 's option) \<Rightarrow> ('s \<Rightarrow> mem) \<Rightarrow> (string \<Rightarrow> u32) \<Rightarrow> u32 \<Rightarrow> u32 list \<Rightarrow> 's \<Rightarrow> 's result option" where
  "printfmt putch rd lit fmt args s = vprintfmt putch rd lit fmt args s"

section \<open>Printing to a buffer\<close>

record sprintbuf =
  buf :: u32
  ebuf :: u32
  cnt :: int
  bmem :: mem

definition sprintputch :: "int \<Rightarrow> sprintbuf \<Rightarrow> sprintbuf option" where
  "sprintputch ch b =
     (let b = b\<lparr>cnt := wrap (cnt b + 1)\<rparr>
      in Some (if buf b < ebuf b
               then b\<lparr>bmem := (bmem b)(buf b := word_of_int ch), buf := buf b + 1\<rparr>
               else b))"

definition vsnprintf :: "(string \<Rightarrow> u32) \<Rightarrow> u32 \<Rightarrow> int \<Rightarrow> u32 \<Rightarrow> u32 list \<Rightarrow> mem \<Rightarrow> (int \<times> mem) result option" where
  "vsnprintf lit bf n fmt ap m =
     (let b = \<lparr>buf = bf, ebuf = bf + word_of_int n - 1, cnt = 0, bmem = m\<rparr>
      in if bf = 0 \<or> n < 1 then Some (Inr (- E_INVAL, m))
         else (case vprintfmt sprintputch bmem lit fmt ap b of
                 None \<Rightarrow> None
               | Some (Inl e) \<Rightarrow> Some (Inl e)
               | Some (Inr b) \<Rightarrow> Some (Inr (cnt b, (bmem b)(buf b := 0)))))"

definition snprintf :: "(string \<Rightarrow> u32) \<Rightarrow> u32 \<Rightarrow> int \<Rightarrow> u32 \<Rightarrow> u32 list \<Rightarrow> mem \<Rightarrow> (int \<times> mem) result option" where
  "snprintf lit bf n fmt args m = vsnprintf lit bf n fmt args m"

section \<open>Wrapping arithmetic in range\<close>

lemma wrap_id [simp]: "- 2147483648 \<le> x \<Longrightarrow> x < 2147483648 \<Longrightarrow> wrap x = x"
proof -
  assume *: "- 2147483648 \<le> x" "x < 2147483648"
  have "signed_take_bit 31 x = x" by (rule signed_take_bit_int_eq_self) (use * in simp_all)
  then show "wrap x = x" by (simp add: wrap_def signed_of_int)
qed

section \<open>Putting characters\<close>

fun puts :: "(int \<Rightarrow> 's \<Rightarrow> 's option) \<Rightarrow> int list \<Rightarrow> 's \<Rightarrow> 's option" where
  "puts putch [] s = Some s"
| "puts putch (c # cs) s = (case putch c s of None \<Rightarrow> None | Some s \<Rightarrow> puts putch cs s)"

lemma puts_append: "puts putch (xs @ ys) s = (case puts putch xs s of None \<Rightarrow> None | Some s \<Rightarrow> puts putch ys s)"
  by (induction xs arbitrary: s) (auto split: option.splits)

lemma pad_num_puts:
  "- 2147483648 < w \<Longrightarrow> w < 2147483648 \<Longrightarrow> pad_num putch c w s = puts putch (replicate (nat (w - 1)) c) s"
proof (induction "nat (w - 1)" arbitrary: w s)
  case 0
  then show ?case by (subst pad_num.simps) simp
next
  case (Suc k)
  then have "nat (w - 1) = Suc k" "k = nat (w - 1 - 1)" by simp_all
  with Suc show ?case by (subst pad_num.simps) (auto split: option.splits)
qed

section \<open>Digits\<close>

text \<open>The digits of a number, most significant first.\<close>

function digits :: "nat \<Rightarrow> nat \<Rightarrow> nat list" where
  "digits b n = (if b < 2 \<or> n < b then [n] else digits b (n div b) @ [n mod b])"
  by pat_completeness auto
termination
  by (relation "measure snd") auto

declare digits.simps [simp del]

lemma digits_lt: "n < b \<Longrightarrow> digits b n = [n]"
  by (subst digits.simps) simp

lemma digits_ge: "2 \<le> b \<Longrightarrow> b \<le> n \<Longrightarrow> digits b n = digits b (n div b) @ [n mod b]"
  by (subst digits.simps) simp

text \<open>The value of a list of digits, and the facts that determine \<open>digits\<close>.\<close>

definition digits_nat :: "nat \<Rightarrow> nat list \<Rightarrow> nat" where
  "digits_nat b ds = foldl (\<lambda>v d. v * b + d) 0 ds"

lemma digits_value: "2 \<le> b \<Longrightarrow> digits_nat b (digits b n) = n"
proof (induction b n rule: digits.induct)
  case (1 b n)
  then show ?case by (cases "n < b") (simp_all add: digits_lt digits_ge digits_nat_def)
qed

lemma digits_range: "2 \<le> b \<Longrightarrow> \<forall>d \<in> set (digits b n). d < b"
proof (induction b n rule: digits.induct)
  case (1 b n)
  show ?case
  proof (cases "n < b")
    case False
    have "\<forall>d \<in> set (digits b (n div b)). d < b" by (rule 1(1)) (use 1(2) False in simp_all)
    moreover have "n mod b < b" using 1(2) by simp
    ultimately show ?thesis unfolding digits_ge [OF 1(2) leI [OF False]] set_append by auto
  qed (simp add: digits_lt)
qed

lemma digits_nonempty [simp]: "digits b n \<noteq> []"
  by (subst digits.simps) simp

lemma digits_hd: "2 \<le> b \<Longrightarrow> 0 < n \<Longrightarrow> hd (digits b n) \<noteq> 0"
proof (induction b n rule: digits.induct)
  case (1 b n)
  show ?case
  proof (cases "n < b")
    case False
    then have "0 < n div b" using 1 by (simp add: div_greater_zero_iff)
    with 1 False show ?thesis by (simp add: digits_ge)
  qed (use 1 in \<open>simp add: digits_lt\<close>)
qed

lemma digits_length: "2 \<le> b \<Longrightarrow> n < b ^ k \<Longrightarrow> 0 < k \<Longrightarrow> length (digits b n) \<le> k"
proof (induction b n arbitrary: k rule: digits.induct)
  case (1 b n)
  show ?case
  proof (cases "n < b")
    case False
    obtain j where k: "k = Suc j" using 1(4) by (cases k) auto
    have lt: "n div b < b ^ j" using 1(3) k by (simp add: less_mult_imp_div_less mult.commute)
    have "0 < n div b" using False 1(2) by (simp add: div_greater_zero_iff)
    then have "0 < j" using lt by (cases j) auto
    from 1(1) [OF _ 1(2) lt this] show ?thesis using False 1(2) k by (simp add: digits_ge)
  qed (use 1 in \<open>simp add: digits_lt\<close>)
qed

definition dchar :: "nat \<Rightarrow> char" where
  "dchar d = ''0123456789abcdef'' ! d"

text \<open>Numbers in decimal and in hexadecimal.\<close>

definition dec_text :: "nat \<Rightarrow> string" where
  "dec_text n = map dchar (digits 10 n)"

definition hex_text :: "nat \<Rightarrow> string" where
  "hex_text n = map dchar (digits 16 n)"

text \<open>The text of a number in a field.\<close>

definition num_text :: "nat \<Rightarrow> nat \<Rightarrow> int \<Rightarrow> int \<Rightarrow> int list" where
  "num_text b n w c = replicate (nat w - length (digits b n)) c @ map (\<lambda>d. ic (dchar d)) (digits b n)"

text \<open>The width counts down once for every digit.\<close>

lemma printnum_width:
  assumes "2 \<le> unat base" "unat base \<le> 16" and "int (length (digits (unat base) (unat num))) \<le> w + 2147483600" "w < 2147483648"
  shows "printnum putch num base w c s = map_option Inr (puts putch (num_text (unat base) (unat num) w c) s)"
  using assms(3,4)
proof (induction "unat num" arbitrary: num w rule: less_induct)
  case less
  have ub: "unat (ucast base :: u64) = unat base"
    unfolding unsigned_ucast_eq by (rule take_bit_nat_eq_self) (use assms(2) in simp)
  have le: "ucast base \<le> num \<longleftrightarrow> unat base \<le> unat num" using ub by (simp add: word_le_nat_alt)
  have dv: "unat (num div ucast base) = unat num div unat base" "unat (num mod ucast base) = unat num mod unat base"
    using ub by (simp_all add: unat_div unat_mod)
  have "unat (num mod ucast base) < 16" 
    unfolding dv using assms(1,2) by (intro less_le_trans [OF mod_less_divisor]) simp_all
  then have dc: "digit_char (num mod ucast base) = Inr (ic (dchar (unat num mod unat base)))"
    using dv(2) by (simp add: digit_char_def word_less_nat_alt dchar_def)
  show ?case
  proof (cases "unat num < unat base")
    case True
    have "pad_num putch c w s = puts putch (replicate (nat (w - 1)) c) s"
      using less.prems by (intro pad_num_puts) (simp_all add: digits_lt True)
    moreover have "nat (w - 1) = nat w - Suc 0" by simp
    ultimately show ?thesis using True le dc
      by (subst printnum.simps) (simp add: num_text_def digits_lt puts_append split: option.splits)
  next
    case False
    have lt: "unat (num div ucast base) < unat num" unfolding dv using False assms(1) by simp
    have dg: "digits (unat base) (unat num) = digits (unat base) (unat num div unat base) @ [unat num mod unat base]"
      using False assms(1) by (simp add: digits_ge)
    have len: "int (length (digits (unat base) (unat (num div ucast base)))) \<le> (w - 1) + 2147483600"
      using less.prems(1) dg dv by simp
    have w: "wrap (w - 1) = w - 1" using less.prems len by (intro wrap_id) linarith+
    have "nat (w - 1) - length (digits (unat base) (unat num div unat base)) = nat w - length (digits (unat base) (unat num))"
      unfolding dg by simp
    then have "num_text (unat base) (unat num) w c
        = num_text (unat base) (unat num div unat base) (w - 1) c @ [ic (dchar (unat num mod unat base))]"
      by (simp add: num_text_def dg)
    moreover have "printnum putch (num div ucast base) base (w - 1) c s
        = map_option Inr (puts putch (num_text (unat base) (unat num div unat base) (w - 1) c) s)"
      using less.hyps [OF lt len] less.prems(2) dv by simp
    ultimately show ?thesis using False le dc w
      by (subst printnum.simps) (simp add: puts_append split: option.splits)
  qed
qed

lemma printnum_puts:
  assumes "2 \<le> unat base" "unat base \<le> 16" "- 2147483500 \<le> w" "w < 2147483648"
  shows "printnum putch num base w c s = map_option Inr (puts putch (num_text (unat base) (unat num) w c) s)"
proof -
  have "unat num < unat base ^ 64"
  proof -
    have "unat num < 2 ^ LENGTH(64)" by (rule unsigned_less)
    also have "\<dots> \<le> unat base ^ 64" using power_mono [OF assms(1), of 64] by simp
    finally show ?thesis .
  qed
  then have "length (digits (unat base) (unat num)) \<le> 64"
    using assms(1) by (intro digits_length) simp_all
  then have "int (length (digits (unat base) (unat num))) \<le> w + 2147483600" using assms(3) by linarith
  then show ?thesis by (rule printnum_width [OF assms(1,2) _ assms(4)])
qed

section \<open>Flags and the field width\<close>

lemma less_10_cases: "(d :: nat) < 10 \<Longrightarrow> d = 0 \<or> d = 1 \<or> d = 2 \<or> d = 3 \<or> d = 4 \<or> d = 5 \<or> d = 6 \<or> d = 7 \<or> d = 8 \<or> d = 9"
  by presburger

lemma dchar_10:
  assumes "d < 10"
  shows "ic (dchar d) = 48 + int d" "sint (chr (dchar d)) = 48 + int d" "uint (chr (dchar d)) = 48 + int d"
    "chr (dchar d) \<noteq> 0"
  using less_10_cases [OF assms] by (auto simp: dchar_def chr_def)

lemma foldl_digits_ge: "v \<le> foldl (\<lambda>v d. v * 10 + d) v (ds :: nat list)"
proof (induction ds arbitrary: v)
  case (Cons d ds)
  have "v \<le> v * 10 + d" by simp
  also have "\<dots> \<le> foldl (\<lambda>v d. v * 10 + d) (v * 10 + d) ds" by (rule Cons)
  finally show ?case by simp
qed simp

definition not_digit :: "byte \<Rightarrow> bool" where
  "not_digit c \<longleftrightarrow> sint c < 48 \<or> 57 < sint c"

lemma width_digits_eq:
  assumes "cstr m fmt (map (\<lambda>d. chr (dchar d)) ds @ x # xs)" "\<forall>d \<in> set ds. d < 10" "d < 10" "not_digit x"
    "foldl (\<lambda>v d. v * 10 + d) (p * 10 + d) ds < 2147483648"
  shows "width_digits m fmt (ic (dchar d)) (int p)
    = Some (fmt + of_nat (length ds), int (foldl (\<lambda>v d. v * 10 + d) (p * 10 + d) ds))"
  using assms
proof (induction ds arbitrary: fmt d p)
  case Nil
  then have "wrap (int p * 10 + ic (dchar d) - 48) = int (p * 10 + d)" by (simp add: dchar_10)
  with Nil show ?case by (subst width_digits.simps) (auto simp: not_digit_def)
next
  case (Cons e ds)
  have le: "p * 10 + d < 2147483648"
    using foldl_digits_ge [of "p * 10 + d" "e # ds"] Cons.prems(5) by linarith
  then have "wrap (int p * 10 + ic (dchar d) - 48) = int (p * 10 + d)" using Cons.prems(3) by (simp add: dchar_10)
  moreover have "sint (m fmt) = 48 + int e" using Cons.prems(1,2) by (simp add: dchar_10)
  ultimately have "width_digits m fmt (ic (dchar d)) (int p) = width_digits m (fmt + 1) (48 + int e) (int (p * 10 + d))"
    using Cons.prems(2) by (subst width_digits.simps) simp
  also have "\<dots> = width_digits m (fmt + 1) (ic (dchar e)) (int (p * 10 + d))" using Cons.prems(2) by (simp add: dchar_10)
  also have "\<dots> = Some (fmt + 1 + of_nat (length ds), int (foldl (\<lambda>v d. v * 10 + d) ((p * 10 + d) * 10 + e) ds))"
    by (rule Cons.IH) (use Cons.prems in simp_all)
  finally show ?case by (simp add: add.assoc)
qed

text \<open>A field specification: the flag, the width (0 is no width) and the number of \<open>l\<close>s.\<close>

datatype pad = Blank | Zero | Minus

fun pad_bytes :: "pad \<Rightarrow> byte list" where
  "pad_bytes Blank = []"
| "pad_bytes Zero = [chr CHR ''0'']"
| "pad_bytes Minus = [chr CHR ''-'']"

fun pad_char :: "pad \<Rightarrow> int" where
  "pad_char Blank = ic CHR '' ''"
| "pad_char Zero = ic CHR ''0''"
| "pad_char Minus = ic CHR ''-''"

definition width_bytes :: "nat \<Rightarrow> byte list" where
  "width_bytes w = (if w = 0 then [] else map (\<lambda>d. chr (dchar d)) (digits 10 w))"

definition field_bytes :: "pad \<Rightarrow> nat \<Rightarrow> nat \<Rightarrow> byte list" where
  "field_bytes pd w k = pad_bytes pd @ width_bytes w @ replicate k (chr CHR ''l'')"

definition field_locals :: "pad \<Rightarrow> nat \<Rightarrow> nat \<Rightarrow> locals" where
  "field_locals pd w k = \<lparr>padc = pad_char pd, wid = (if w = 0 then - 1 else int w), precision = - 1,
     lflag = int k, altflag = 0\<rparr>"

lemma loop_continue:
  "switch_step putch rd lit l fmt ap s = Some (Inr (Continue md fmt' ap' s')) \<Longrightarrow>
   vprintfmt_loop putch rd lit (Reswitch l) fmt ap s = vprintfmt_loop putch rd lit md fmt' ap' s'"
  by (subst vprintfmt_loop.simps) simp

lemma loop_pad:
  assumes "cstr (rd s) fmt (pad_bytes pd @ xs)"
  shows "vprintfmt_loop putch rd lit (Reswitch init_locals) fmt ap s
    = vprintfmt_loop putch rd lit (Reswitch (init_locals\<lparr>padc := pad_char pd\<rparr>)) (fmt + of_nat (length (pad_bytes pd))) ap s"
proof (cases pd)
  case Blank
  then show ?thesis by (simp add: init_locals_def)
next
  case Zero
  with assms show ?thesis by (subst loop_continue) (auto simp: switch_step_def chr_def init_locals_def)
next
  case Minus
  with assms show ?thesis by (subst loop_continue) (auto simp: switch_step_def chr_def init_locals_def)
qed

lemma loop_width:
  assumes c: "cstr (rd s) fmt (width_bytes w @ x # xs)" and x: "not_digit x" and w: "w < 2147483648"
    and l: "wid l = - 1" "precision l = - 1"
  shows "vprintfmt_loop putch rd lit (Reswitch l) fmt ap s
    = vprintfmt_loop putch rd lit (Reswitch (l\<lparr>wid := (if w = 0 then - 1 else int w)\<rparr>)) (fmt + of_nat (length (width_bytes w))) ap s"
proof (cases "w = 0")
  case True
  have "l\<lparr>wid := - 1\<rparr> = l" using l by (cases l) simp
  with True show ?thesis by (simp add: width_bytes_def)
next
  case False
  obtain d ds where ds: "digits 10 w = d # ds" by (cases "digits 10 w") auto
  have r: "d < 10" "\<forall>d \<in> set ds. d < 10" using digits_range [of 10 w] ds by simp_all
  have d0: "d \<noteq> 0" using digits_hd [of 10 w] False ds by simp
  have val: "foldl (\<lambda>v d. v * 10 + d) (0 * 10 + d) ds = w" using digits_value [of 10 w] ds by (simp add: digits_nat_def)
  have c': "cstr (rd s) (fmt + 1) (map (\<lambda>d. chr (dchar d)) ds @ x # xs)" and ch: "rd s fmt = chr (dchar d)"
    using c ds False by (simp_all add: width_bytes_def)
  have wd: "width_digits (rd s) (fmt + 1) (ic (dchar d)) 0 = Some (fmt + 1 + of_nat (length ds), int w)"
    using width_digits_eq [OF c' r(2,1) x, of 0] w val by simp
  have "uint (rd s fmt) = 48 + int d" "ic (dchar d) = 48 + int d" using ch r(1) by (simp_all add: dchar_10)
  then have "switch_step putch rd lit l fmt ap s
      = Some (Inr (Continue (Reswitch (process_precision (l\<lparr>precision := int w\<rparr>))) (fmt + 1 + of_nat (length ds)) ap s))"
    using wd r(1) d0 unfolding switch_step_def Let_def by simp
  moreover have "process_precision (l\<lparr>precision := int w\<rparr>) = l\<lparr>wid := int w\<rparr>"
    using l by (simp add: process_precision_def)
  ultimately show ?thesis
    using False ds by (simp add: loop_continue width_bytes_def add.assoc)
qed

lemma loop_longs:
  assumes "cstr (rd s) fmt (replicate k (chr CHR ''l'') @ xs)" "lflag l = int i" "i + k < 2147483648"
  shows "vprintfmt_loop putch rd lit (Reswitch l) fmt ap s
    = vprintfmt_loop putch rd lit (Reswitch (l\<lparr>lflag := int (i + k)\<rparr>)) (fmt + of_nat k) ap s"
  using assms
proof (induction k arbitrary: fmt l i)
  case 0
  then have "l\<lparr>lflag := int i\<rparr> = l" by (cases l) simp
  then show ?case by simp
next
  case (Suc k)
  have "rd s fmt = chr CHR ''l''" using Suc.prems(1) by simp
  then have "switch_step putch rd lit l fmt ap s = Some (Inr (Continue (Reswitch (l\<lparr>lflag := wrap (lflag l + 1)\<rparr>)) (fmt + 1) ap s))"
    by (simp add: switch_step_def chr_def)
  moreover have "wrap (lflag l + 1) = int (Suc i)" using Suc.prems(2,3) by simp
  ultimately have "vprintfmt_loop putch rd lit (Reswitch l) fmt ap s
      = vprintfmt_loop putch rd lit (Reswitch (l\<lparr>lflag := int (Suc i)\<rparr>)) (fmt + 1) ap s"
    by (simp only: loop_continue)
  also have "\<dots> = vprintfmt_loop putch rd lit (Reswitch (l\<lparr>lflag := int (Suc i), lflag := int (Suc i + k)\<rparr>)) (fmt + 1 + of_nat k) ap s"
    by (rule Suc.IH) (use Suc.prems in simp_all)
  finally show ?case by (simp add: add.assoc)
qed

lemma loop_field:
  assumes c: "cstr (rd s) fmt (field_bytes pd w k @ x # xs)" and x: "not_digit x" and w: "w < 2147483648" "k < 2147483648"
  shows "vprintfmt_loop putch rd lit (Reswitch init_locals) fmt ap s
    = vprintfmt_loop putch rd lit (Reswitch (field_locals pd w k)) (fmt + of_nat (length (field_bytes pd w k))) ap s"
proof -
  let ?f1 = "fmt + of_nat (length (pad_bytes pd))"
  let ?f2 = "?f1 + of_nat (length (width_bytes w))"
  obtain y ys where y: "replicate k (chr CHR ''l'') @ x # xs = y # ys" "not_digit y"
  proof (cases k)
    case 0
    then show ?thesis using that x by simp
  next
    case (Suc j)
    have "not_digit (chr CHR ''l'')" by (simp add: not_digit_def chr_def)
    then show ?thesis using that Suc by simp
  qed
  have c1: "cstr (rd s) fmt (pad_bytes pd @ width_bytes w @ y # ys)" using c y(1) by (simp add: field_bytes_def)
  then have c2: "cstr (rd s) ?f1 (width_bytes w @ y # ys)" by (simp add: cstr_append)
  then have c3: "cstr (rd s) ?f2 (replicate k (chr CHR ''l'') @ x # xs)" unfolding y(1) by (simp add: cstr_append)
  let ?l1 = "init_locals\<lparr>padc := pad_char pd\<rparr>"
  let ?l2 = "?l1\<lparr>wid := (if w = 0 then - 1 else int w)\<rparr>"
  have "vprintfmt_loop putch rd lit (Reswitch init_locals) fmt ap s = vprintfmt_loop putch rd lit (Reswitch ?l1) ?f1 ap s"
    by (rule loop_pad [where rd = rd and s = s, OF c1])
  also have "\<dots> = vprintfmt_loop putch rd lit (Reswitch ?l2) ?f2 ap s"
    by (rule loop_width [where rd = rd and s = s, OF c2 y(2) w(1)]) (simp_all add: init_locals_def)
  also have "\<dots> = vprintfmt_loop putch rd lit (Reswitch (?l2\<lparr>lflag := int (0 + k)\<rparr>)) (?f2 + of_nat k) ap s"
    by (rule loop_longs [where rd = rd and s = s, OF c3]) (use w(2) in \<open>simp_all add: init_locals_def\<close>)
  also have "?l2\<lparr>lflag := int (0 + k)\<rparr> = field_locals pd w k" by (simp add: field_locals_def init_locals_def)
  finally show ?thesis by (simp add: field_bytes_def add.assoc)
qed

section \<open>Formats as lists of items\<close>

text \<open>What a format prints: plain characters and conversions, each with its argument.\<close>

datatype item =
    Plain byte
  | Percent
  | Octal
  | Character u32
  | Text pad nat u32 "byte list"
  | Signed pad nat nat u64
  | Unsigned pad nat nat u64
  | Hex pad nat nat u64
  | Pointer pad nat u32
  | ErrorNo u32

fun item_fmt :: "item \<Rightarrow> byte list" where
  "item_fmt (Plain c) = [c]"
| "item_fmt Percent = [chr CHR ''%'', chr CHR ''%'']"
| "item_fmt Octal = [chr CHR ''%'', chr CHR ''o'']"
| "item_fmt (Character x) = [chr CHR ''%'', chr CHR ''c'']"
| "item_fmt (Text pd w p xs) = chr CHR ''%'' # field_bytes pd w 0 @ [chr CHR ''s'']"
| "item_fmt (Signed pd w k x) = chr CHR ''%'' # field_bytes pd w k @ [chr CHR ''d'']"
| "item_fmt (Unsigned pd w k x) = chr CHR ''%'' # field_bytes pd w k @ [chr CHR ''u'']"
| "item_fmt (Hex pd w k x) = chr CHR ''%'' # field_bytes pd w k @ [chr CHR ''x'']"
| "item_fmt (Pointer pd w p) = chr CHR ''%'' # field_bytes pd w 0 @ [chr CHR ''p'']"
| "item_fmt (ErrorNo x) = [chr CHR ''%'', chr CHR ''e'']"

text \<open>A number is passed in two words with at least two \<open>l\<close>s, in one otherwise.\<close>

definition num_args :: "nat \<Rightarrow> u64 \<Rightarrow> u32 list" where
  "num_args k x = (if 2 \<le> k then [ucast x, ucast (drop_bit 32 x)] else [ucast x])"

definition num_unsigned :: "nat \<Rightarrow> u64 \<Rightarrow> u64" where
  "num_unsigned k x = (if 2 \<le> k then x else ucast (ucast x :: u32))"

definition num_signed :: "nat \<Rightarrow> u64 \<Rightarrow> u64" where
  "num_signed k x = (if 2 \<le> k then x else scast (ucast x :: u32))"

fun item_args :: "item \<Rightarrow> u32 list" where
  "item_args (Plain c) = []"
| "item_args Percent = []"
| "item_args Octal = []"
| "item_args (Character x) = [x]"
| "item_args (Text pd w p xs) = [p]"
| "item_args (Signed pd w k x) = num_args k x"
| "item_args (Unsigned pd w k x) = num_args k x"
| "item_args (Hex pd w k x) = num_args k x"
| "item_args (Pointer pd w p) = [p]"
| "item_args (ErrorNo x) = [x]"

text \<open>The text: a sign stands before the padding and is not counted in the width; the string
  conversion pads on the right with the flag \<open>-\<close>, where the numeric ones fill up with minus
  signs on the left.\<close>

definition str_text :: "pad \<Rightarrow> nat \<Rightarrow> byte list \<Rightarrow> int list" where
  "str_text pd w xs =
     (if pd = Minus then map sint xs @ replicate (w - length xs) (ic CHR '' '')
      else replicate (w - length xs) (pad_char pd) @ map sint xs)"

definition int_text :: "pad \<Rightarrow> nat \<Rightarrow> int \<Rightarrow> int list" where
  "int_text pd w v =
     (if v < 0 then ic CHR ''-'' # num_text 10 (nat (- v)) (int w) (pad_char pd)
      else num_text 10 (nat v) (int w) (pad_char pd))"

definition error_text :: "int \<Rightarrow> int list" where
  "error_text e =
     (case error_string e of
        Inr (Some t) \<Rightarrow> map ic t
      | _ \<Rightarrow> map ic ''error '' @ int_text Blank 0 e)"

fun item_text :: "item \<Rightarrow> int list" where
  "item_text (Plain c) = [uint c]"
| "item_text Percent = [ic CHR ''%'']"
| "item_text Octal = [ic CHR ''X'', ic CHR ''X'', ic CHR ''X'']"
| "item_text (Character x) = [sint x]"
| "item_text (Text pd w p xs) = str_text pd w xs"
| "item_text (Signed pd w k x) = int_text pd w (sint (num_signed k x))"
| "item_text (Unsigned pd w k x) = num_text 10 (unat (num_unsigned k x)) (int w) (pad_char pd)"
| "item_text (Hex pd w k x) = num_text 16 (unat (num_unsigned k x)) (int w) (pad_char pd)"
| "item_text (Pointer pd w p) = ic CHR ''0'' # ic CHR ''x'' # num_text 16 (unat p) (int w) (pad_char pd)"
| "item_text (ErrorNo x) = error_text \<bar>sint x\<bar>"

text \<open>A string that lies in protected memory.\<close>

definition str_at :: "u32 set \<Rightarrow> mem \<Rightarrow> u32 \<Rightarrow> byte list \<Rightarrow> bool" where
  "str_at ro m p xs \<longleftrightarrow> cstr m p xs \<and> (\<forall>i \<le> length xs. p + of_nat i \<in> ro)"

definition literals :: "string list" where
  "literals = [''(null)'', ''error %d'', ''%s'', ''unspecified error'', ''bad environment'', ''invalid parameter'',
     ''out of memory'', ''out of environments'', ''segmentation fault'']"

definition lits_ok :: "u32 set \<Rightarrow> mem \<Rightarrow> (string \<Rightarrow> u32) \<Rightarrow> bool" where
  "lits_ok ro m lit \<longleftrightarrow> (\<forall>t \<in> set literals. lit t \<noteq> 0 \<and> str_at ro m (lit t) (map chr t))"

fun item_ok :: "u32 set \<Rightarrow> mem \<Rightarrow> item \<Rightarrow> bool" where
  "item_ok ro m (Plain c) \<longleftrightarrow> c \<noteq> 0 \<and> c \<noteq> chr CHR ''%''"
| "item_ok ro m (Text pd w p xs) \<longleftrightarrow> w < 1073741824 \<and> length xs < 1073741824
     \<and> (if p = 0 then xs = map chr ''(null)'' else str_at ro m p xs)"
| "item_ok ro m (Signed pd w k x) \<longleftrightarrow> w < 1073741824 \<and> k < 1073741824"
| "item_ok ro m (Unsigned pd w k x) \<longleftrightarrow> w < 1073741824 \<and> k < 1073741824"
| "item_ok ro m (Hex pd w k x) \<longleftrightarrow> w < 1073741824 \<and> k < 1073741824"
| "item_ok ro m (Pointer pd w p) \<longleftrightarrow> w < 1073741824"
| "item_ok ro m (ErrorNo x) \<longleftrightarrow> sint x \<noteq> - 2147483648"
| "item_ok ro m _ \<longleftrightarrow> True"

section \<open>The conversions\<close>

lemma pad_str_puts:
  "- 2147483648 \<le> w \<Longrightarrow> w < 2147483648 \<Longrightarrow>
   pad_str putch c w s = map_option (\<lambda>s. (min w 0, s)) (puts putch (replicate (nat w) c) s)"
proof (induction "nat w" arbitrary: w s)
  case 0
  then show ?case by (subst pad_str.simps) simp
next
  case (Suc k)
  then have "nat w = Suc k" "k = nat (w - 1)" "0 < w" by simp_all
  moreover have "pad_str putch c (w - 1) s' = map_option (\<lambda>s. (min (w - 1) 0, s)) (puts putch (replicate (nat (w - 1)) c) s')" for s'
    by (rule Suc.hyps(1)) (use Suc calculation in simp_all)
  ultimately show ?case using Suc.prems by (subst pad_str.simps) (auto split: option.splits)
qed

lemma number_eq:
  assumes "2 \<le> unat base" "unat base \<le> 16" "w < 1073741824"
  shows "number putch (field_locals pd w k) num base fmt ap s
    = (case puts putch (num_text (unat base) (unat num) (int w) (pad_char pd)) s of
         None \<Rightarrow> None | Some s \<Rightarrow> Some (Inr (Continue Scan fmt ap s)))"
proof -
  have "num_text (unat base) n (- 1) c = num_text (unat base) n 0 c" for n c by (simp add: num_text_def)
  moreover have "printnum putch num base (if w = 0 then - 1 else int w) (pad_char pd) s
      = map_option Inr (puts putch (num_text (unat base) (unat num) (if w = 0 then - 1 else int w) (pad_char pd)) s)"
    by (rule printnum_puts) (use assms in simp_all)
  ultimately show ?thesis by (simp add: number_def field_locals_def split: option.splits)
qed

lemma getuint_args: "getuint (num_args k x @ ap) (int k) = Inr (num_unsigned k x, ap)"
proof (cases "2 \<le> k")
  case True
  have "ucast (ucast x :: u32) OR push_bit 32 (ucast (ucast (drop_bit 32 x) :: u32) :: u64) = x"
  proof (rule bit_word_eqI)
    fix n :: nat assume "n < LENGTH(64)"
    then show "bit (ucast (ucast x :: u32) OR push_bit 32 (ucast (ucast (drop_bit 32 x) :: u32) :: u64)) n = bit x n"
      by (cases "n < 32") (auto simp: bit_simps)
  qed
  with True show ?thesis by (simp add: getuint_def num_args_def num_unsigned_def va_llong_def)
next
  case False
  then show ?thesis by (simp add: getuint_def num_args_def num_unsigned_def va_word_def)
qed

lemma getint_args: "getint (num_args k x @ ap) (int k) = Inr (num_signed k x, ap)"
proof (cases "2 \<le> k")
  case True
  then show ?thesis using getuint_args [of k x ap] by (simp add: getint_def getuint_def num_signed_def num_unsigned_def)
next
  case False
  then show ?thesis by (simp add: getint_def num_args_def num_signed_def va_word_def)
qed

lemma abs_num:
  fixes num :: u64
  shows "sint num < 0 \<Longrightarrow> unat (- num) = nat (- sint num)" "0 \<le> sint num \<Longrightarrow> unat num = nat (sint num)"
proof -
  have r: "- (2 ^ 63) \<le> sint num" "sint num < 2 ^ 63" using sint_greater_eq [of num] sint_less [of num] by simp_all
  have u: "unat (word_of_int y :: u64) = nat y" if "0 \<le> y" "y < 2 ^ 64" for y
  proof -
    have "uint (word_of_int y :: u64) = y" using that by (simp add: uint_word_of_int)
    then show ?thesis by (metis nat_uint_eq)
  qed
  have n: "num = word_of_int (sint num)" by simp
  show "unat (- num) = nat (- sint num)" if "sint num < 0"
  proof -
    have "- num = word_of_int (- sint num)" by simp
    then show ?thesis using u [of "- sint num"] that r by simp
  qed
  show "unat num = nat (sint num)" if "0 \<le> sint num"
    using u [of "sint num"] that r n by simp
qed

lemma loop_scan_percent:
  "rd s fmt = chr CHR ''%'' \<Longrightarrow>
   vprintfmt_loop putch rd lit Scan fmt ap s = vprintfmt_loop putch rd lit (Reswitch init_locals) (fmt + 1) ap s"
  by (subst vprintfmt_loop.simps) (simp add: scan_step_def chr_def)

text \<open>The text is put and the loop goes on behind it.\<close>

definition text_then ::
    "(int \<Rightarrow> 's \<Rightarrow> 's option) \<Rightarrow> ('s \<Rightarrow> mem) \<Rightarrow> (string \<Rightarrow> u32) \<Rightarrow> int list \<Rightarrow> u32 \<Rightarrow> u32 list \<Rightarrow> 's \<Rightarrow> 's result option" where
  "text_then putch rd lit tx fmt ap s =
     (case puts putch tx s of None \<Rightarrow> None | Some s \<Rightarrow> vprintfmt_loop putch rd lit Scan fmt ap s)"

lemma loop_text:
  assumes "switch_step putch rd lit l fmt ap s
    = (case puts putch tx s of None \<Rightarrow> None | Some s \<Rightarrow> Some (Inr (Continue Scan fmt' ap' s)))"
  shows "vprintfmt_loop putch rd lit (Reswitch l) fmt ap s = text_then putch rd lit tx fmt' ap' s"
  using assms by (subst vprintfmt_loop.simps) (simp add: text_then_def split: option.splits)

lemma loop_directive:
  assumes c: "cstr (rd s) fmt (chr CHR ''%'' # field_bytes pd w k @ x # xs)"
    and x: "not_digit x" and w: "w < 1073741824" "k < 1073741824"
    and st: "\<And>f. rd s f = x \<Longrightarrow> switch_step putch rd lit (field_locals pd w k) f ap s
      = (case puts putch tx s of None \<Rightarrow> None | Some s \<Rightarrow> Some (Inr (Continue Scan (f + 1) ap' s)))"
  shows "vprintfmt_loop putch rd lit Scan fmt ap s
    = text_then putch rd lit tx (fmt + of_nat (length (chr CHR ''%'' # field_bytes pd w k @ [x]))) ap' s"
proof -
  let ?f = "fmt + 1 + of_nat (length (field_bytes pd w k))"
  have c1: "rd s fmt = chr CHR ''%''" "cstr (rd s) (fmt + 1) (field_bytes pd w k @ x # xs)" using c by simp_all
  then have cx: "rd s ?f = x" by (simp add: cstr_append)
  have "vprintfmt_loop putch rd lit Scan fmt ap s = vprintfmt_loop putch rd lit (Reswitch init_locals) (fmt + 1) ap s"
    by (rule loop_scan_percent [where rd = rd and s = s, OF c1(1)])
  also have "\<dots> = vprintfmt_loop putch rd lit (Reswitch (field_locals pd w k)) ?f ap s"
    by (rule loop_field [where rd = rd and s = s, OF c1(2) x]) (use w in simp_all)
  also have "\<dots> = text_then putch rd lit tx (?f + 1) ap' s"
    by (rule loop_text) (rule st [OF cx])
  finally show ?thesis by (simp add: add.assoc)
qed

lemma field_bytes_none: "field_bytes Blank 0 0 = []"
  by (simp add: field_bytes_def width_bytes_def)

lemma init_field_locals: "field_locals Blank 0 0 = init_locals"
  by (simp add: field_locals_def init_locals_def)

lemma loop_directive0:
  assumes c: "cstr (rd s) fmt (chr CHR ''%'' # x # xs)" and x: "not_digit x"
    and st: "\<And>f. rd s f = x \<Longrightarrow> switch_step putch rd lit init_locals f ap s
      = (case puts putch tx s of None \<Rightarrow> None | Some s \<Rightarrow> Some (Inr (Continue Scan (f + 1) ap' s)))"
  shows "vprintfmt_loop putch rd lit Scan fmt ap s = text_then putch rd lit tx (fmt + of_nat (length [chr CHR ''%'', x])) ap' s"
  using loop_directive [where rd = rd and s = s and fmt = fmt and pd = Blank and w = 0 and k = 0 and x = x and xs = xs
      and putch = putch and lit = lit and ap = ap and ap' = ap' and tx = tx] c x st
  unfolding field_bytes_none init_field_locals by simp

text \<open>The conversions that put numbers.\<close>

lemma conv_simple:
  "rd s f = chr CHR ''%'' \<Longrightarrow> switch_step putch rd lit l f ap s
    = (case puts putch (item_text Percent) s of None \<Rightarrow> None | Some s \<Rightarrow> Some (Inr (Continue Scan (f + 1) ap s)))"
  "rd s f = chr CHR ''o'' \<Longrightarrow> switch_step putch rd lit l f ap s
    = (case puts putch (item_text Octal) s of None \<Rightarrow> None | Some s \<Rightarrow> Some (Inr (Continue Scan (f + 1) ap s)))"
  "rd s f = chr CHR ''c'' \<Longrightarrow> switch_step putch rd lit l f (x # ap) s
    = (case puts putch (item_text (Character x)) s of None \<Rightarrow> None | Some s \<Rightarrow> Some (Inr (Continue Scan (f + 1) ap s)))"
  by (simp_all add: switch_step_def chr_def brk_def va_word_def Let_def Option.bind_def split: option.splits)

lemma conv_unsigned:
  assumes "w < 1073741824"
  shows "rd s f = chr CHR ''u'' \<Longrightarrow> switch_step putch rd lit (field_locals pd w k) f (num_args k x @ ap) s
    = (case puts putch (item_text (Unsigned pd w k x)) s of None \<Rightarrow> None | Some s \<Rightarrow> Some (Inr (Continue Scan (f + 1) ap s)))"
    and "rd s f = chr CHR ''x'' \<Longrightarrow> switch_step putch rd lit (field_locals pd w k) f (num_args k x @ ap) s
    = (case puts putch (item_text (Hex pd w k x)) s of None \<Rightarrow> None | Some s \<Rightarrow> Some (Inr (Continue Scan (f + 1) ap s)))"
proof -
  have l: "lflag (field_locals pd w k) = int k" by (simp add: field_locals_def)
  have n10: "number putch (field_locals pd w k) num 10 f' ap' s'
      = (case puts putch (num_text 10 (unat num) (int w) (pad_char pd)) s' of
         None \<Rightarrow> None | Some s \<Rightarrow> Some (Inr (Continue Scan f' ap' s)))" for num f' ap' s'
    using number_eq [of 10 w] assms by simp
  have n16: "number putch (field_locals pd w k) num 16 f' ap' s'
      = (case puts putch (num_text 16 (unat num) (int w) (pad_char pd)) s' of
         None \<Rightarrow> None | Some s \<Rightarrow> Some (Inr (Continue Scan f' ap' s)))" for num f' ap' s'
    using number_eq [of 16 w] assms by simp
  show "rd s f = chr CHR ''u'' \<Longrightarrow> switch_step putch rd lit (field_locals pd w k) f (num_args k x @ ap) s
    = (case puts putch (item_text (Unsigned pd w k x)) s of None \<Rightarrow> None | Some s \<Rightarrow> Some (Inr (Continue Scan (f + 1) ap s)))"
    by (simp add: switch_step_def chr_def Let_def l getuint_args n10)
  show "rd s f = chr CHR ''x'' \<Longrightarrow> switch_step putch rd lit (field_locals pd w k) f (num_args k x @ ap) s
    = (case puts putch (item_text (Hex pd w k x)) s of None \<Rightarrow> None | Some s \<Rightarrow> Some (Inr (Continue Scan (f + 1) ap s)))"
    by (simp add: switch_step_def chr_def Let_def l getuint_args n16)
qed

lemma conv_signed:
  assumes "w < 1073741824" "rd s f = chr CHR ''d''"
  shows "switch_step putch rd lit (field_locals pd w k) f (num_args k x @ ap) s
    = (case puts putch (item_text (Signed pd w k x)) s of None \<Rightarrow> None | Some s \<Rightarrow> Some (Inr (Continue Scan (f + 1) ap s)))"
proof -
  have l: "lflag (field_locals pd w k) = int k" by (simp add: field_locals_def)
  have n10: "number putch (field_locals pd w k) num 10 f' ap' s'
      = (case puts putch (num_text 10 (unat num) (int w) (pad_char pd)) s' of
         None \<Rightarrow> None | Some s \<Rightarrow> Some (Inr (Continue Scan f' ap' s)))" for num f' ap' s'
    using number_eq [of 10 w] assms(1) by simp
  have "uint (rd s f) = 100" using assms(2) by (simp add: chr_def)
  then have "switch_step putch rd lit (field_locals pd w k) f (num_args k x @ ap) s
    = (if sint (num_signed k x) < 0
       then (case putch (ic CHR ''-'') s of
               None \<Rightarrow> None
             | Some s \<Rightarrow> number putch (field_locals pd w k) (- num_signed k x) 10 (f + 1) ap s)
       else number putch (field_locals pd w k) (num_signed k x) 10 (f + 1) ap s)"
    unfolding switch_step_def Let_def l getint_args by simp
  then show ?thesis
    using abs_num [of "num_signed k x"] by (simp add: n10 int_text_def split: option.splits)
qed

lemma conv_pointer:
  assumes "w < 1073741824" "rd s f = chr CHR ''p''"
  shows "switch_step putch rd lit (field_locals pd w k) f (p # ap) s
    = (case puts putch (item_text (Pointer pd w p)) s of None \<Rightarrow> None | Some s \<Rightarrow> Some (Inr (Continue Scan (f + 1) ap s)))"
proof -
  have n16: "number putch (field_locals pd w k) num 16 f' ap' s'
      = (case puts putch (num_text 16 (unat num) (int w) (pad_char pd)) s' of
         None \<Rightarrow> None | Some s \<Rightarrow> Some (Inr (Continue Scan f' ap' s)))" for num f' ap' s'
    using number_eq [of 16 w] assms(1) by simp
  have "unat (ucast p :: u64) = unat p"
    unfolding unsigned_ucast_eq by (rule take_bit_nat_eq_self) (use unat_lt32 [of p] in \<open>simp del: unat_lt32\<close>)
  then show ?thesis using assms(2)
    by (simp add: switch_step_def chr_def Let_def va_word_def n16 Option.bind_def split: option.splits)
qed

lemma error_table:
  assumes "error_string e = Inr (Some t)"
  shows "t \<in> set literals" "0 \<le> e" "e < MAXERROR" "length t < 1073741824" "map sint (map chr t) = map ic t"
proof -
  have "t \<in> {''unspecified error'', ''bad environment'', ''invalid parameter'', ''out of memory'', ''out of environments'', ''segmentation fault''}"
    using assms unfolding error_string_def by (simp split: if_splits)
  then show "t \<in> set literals" "length t < 1073741824" "map sint (map chr t) = map ic t"
    by (auto simp: literals_def chr_def)
  show "0 \<le> e" "e < MAXERROR" using assms unfolding error_string_def by (simp_all split: if_splits)
qed

lemma null_text: "map chr ''(null)'' = [0x28, 0x6E, 0x75, 0x6C, 0x6C, 0x29]"
  by (simp add: chr_def)

lemma cstr_same:
  "cstr m p xs \<Longrightarrow> (\<forall>i \<le> length xs. m' (p + of_nat i) = m (p + of_nat i)) \<Longrightarrow> cstr m' p xs"
proof (induction xs arbitrary: p)
  case Nil
  then show ?case by simp
next
  case (Cons x xs)
  have "m' (p + 1 + of_nat i) = m (p + 1 + of_nat i)" if "i \<le> length xs" for i
    using spec [OF Cons.prems(2), of "Suc i"] that by (simp add: add.assoc)
  moreover have "m' p = m p" using spec [OF Cons.prems(2), of 0] by simp
  ultimately show ?case using Cons by simp
qed

lemma str_at_cong:
  assumes "str_at ro m p xs" "\<And>x. x \<in> ro \<Longrightarrow> x \<in> ro' \<and> m' x = m x"
  shows "str_at ro' m' p xs"
proof -
  have "\<forall>i \<le> length xs. m' (p + of_nat i) = m (p + of_nat i)"
    using assms unfolding str_at_def by blast
  then show ?thesis using assms cstr_same [of m p xs m'] unfolding str_at_def by blast
qed

section \<open>Output routines that leave the format alone\<close>

text \<open>The contract between the formatter and an output routine: putting a character does not
  change the protected memory, where the format, the strings and the literals lie. Under it,
  printing a format is putting the text of its items.\<close>

locale text_sink =
  fixes putch :: "int \<Rightarrow> 's \<Rightarrow> 's option"
    and rd :: "'s \<Rightarrow> mem"
    and ro :: "'s \<Rightarrow> u32 set"
  assumes frame: "putch c s = Some s' \<Longrightarrow> x \<in> ro s \<Longrightarrow> x \<in> ro s' \<and> rd s' x = rd s x"
begin

lemma puts_frame: "puts putch cs s = Some s' \<Longrightarrow> x \<in> ro s \<Longrightarrow> x \<in> ro s' \<and> rd s' x = rd s x"
proof (induction cs arbitrary: s)
  case (Cons c cs)
  then obtain s1 where s1: "putch c s = Some s1" "puts putch cs s1 = Some s'" by (auto split: option.splits)
  then show ?case using frame [OF s1(1) Cons.prems(2)] Cons.IH [OF s1(2)] by simp
qed simp

lemma str_at_puts: "str_at (ro s) (rd s) p xs \<Longrightarrow> puts putch cs s = Some s' \<Longrightarrow> str_at (ro s') (rd s') p xs"
  by (erule str_at_cong) (rule puts_frame)

lemma put_str_puts:
  assumes "str_at (ro s) (rd s) p xs" "- 2147483648 \<le> w - int (length xs)" "w < 2147483648"
  shows "put_str putch rd 0 p (- 1) w s = map_option (\<lambda>s. (w - int (length xs), s)) (puts putch (map sint xs) s)"
  using assms
proof (induction xs arbitrary: p w s)
  case Nil
  then show ?case by (subst put_str.simps) (simp add: str_at_def)
next
  case (Cons x xs)
  have x: "rd s p = x" "x \<noteq> 0" using Cons.prems(1) by (simp_all add: str_at_def)
  have nz: "sint x \<noteq> 0"
  proof
    assume "sint x = 0"
    then have "(word_of_int (sint x) :: byte) = 0" by simp
    with x(2) show False by simp
  qed
  have w: "wrap (w - 1) = w - 1" using Cons.prems(2,3) by simp
  have tl: "str_at (ro s) (rd s) (p + 1) xs"
  proof -
    have "p + 1 + of_nat i \<in> ro s" if "i \<le> length xs" for i
      using spec [OF conjunct2 [OF Cons.prems(1) [unfolded str_at_def]], of "Suc i"] that by (simp add: add.assoc)
    then show ?thesis using Cons.prems(1) by (simp add: str_at_def)
  qed
  have "put_str putch rd 0 (p + 1) (- 1) (w - 1) s'
      = map_option (\<lambda>s. (w - 1 - int (length xs), s)) (puts putch (map sint xs) s')" if "putch (sint x) s = Some s'" for s'
    by (rule Cons.IH) (use Cons.prems(2,3) str_at_puts [OF tl, of "[sint x]"] that in simp_all)
  moreover have "w - int (length (x # xs)) = w - 1 - int (length xs)" by simp
  ultimately show ?case using x nz w
    by (subst put_str.simps) (simp only: Let_def puts.simps list.map, simp split: option.splits)
qed

lemma str_tail:
  assumes "str_at (ro s) (rd s) p xs" "- 2147483648 \<le> w - int (length xs)" "w < 2147483648"
  shows "(case put_str putch rd 0 p (- 1) w s of
      None \<Rightarrow> None
    | Some (w, s) \<Rightarrow> (case pad_str putch (ic CHR '' '') w s of None \<Rightarrow> None | Some (w, s) \<Rightarrow> Some s))
    = puts putch (map sint xs @ replicate (nat (w - int (length xs))) (ic CHR '' '')) s"
proof -
  have "pad_str putch (ic CHR '' '') (w - int (length xs)) s'
      = map_option (\<lambda>s. (min (w - int (length xs)) 0, s)) (puts putch (replicate (nat (w - int (length xs))) (ic CHR '' '')) s')" for s'
    by (rule pad_str_puts) (use assms in simp_all)
  then show ?thesis
    unfolding put_str_puts [OF assms] puts_append by (simp split: option.splits)
qed

lemma fmt_string_puts:
  assumes "str_at (ro s) (rd s) p xs" "w < 1073741824" "length xs < 1073741824"
  shows "fmt_string putch rd (field_locals pd w k) p s = puts putch (str_text pd w xs) s"
proof -
  have sl: "sint (strnlen (rd s) p (word_of_int (- 1))) = int (length xs)"
  proof -
    have "unat (word_of_int (- 1) :: u32) = 4294967295" by (simp add: unsigned_minus_1_eq_mask mask_eq_exp_minus_1)
    then have "strnlen (rd s) p (word_of_int (- 1)) = of_nat (length xs)"
      using assms(1,3) strnlen_eq [of "rd s" p xs] by (simp add: str_at_def)
    moreover have "unat (of_nat (length xs) :: u32) = length xs" using assms(3) by (intro unat_of_nat32) simp
    ultimately show ?thesis using assms(3) sint_small [of "of_nat (length xs)"] uint_unat32 [of "of_nat (length xs)"] by simp
  qed
  let ?l = "field_locals pd w k" and ?w = "if w = 0 then - 1 else int w" and ?d = "int w - int (length xs)"
  have l: "wid ?l = ?w" "padc ?l = pad_char pd" "precision ?l = - 1" "altflag ?l = 0" by (simp_all add: field_locals_def)
  show ?thesis
  proof (cases "pd = Minus \<or> w = 0")
    case True
    have c: "\<not> (0 < ?w \<and> pad_char pd \<noteq> ic CHR ''-'')" using True by auto
    have "fmt_string putch rd ?l p s = puts putch (map sint xs @ replicate (nat (?w - int (length xs))) (ic CHR '' '')) s"
      unfolding fmt_string_def l if_not_P [OF c] option.case prod.case
      by (rule str_tail [OF assms(1)]) (use assms(2,3) in simp_all)
    moreover have "nat (?w - int (length xs)) = w - length xs" by (simp add: nat_minus_as_int)
    moreover have "str_text pd w xs = map sint xs @ replicate (w - length xs) (ic CHR '' '')"
      using True by (auto simp: str_text_def)
    ultimately show ?thesis by simp
  next
    case False
    have c: "0 < ?w \<and> pad_char pd \<noteq> ic CHR ''-''" using False by (cases pd) auto
    have wr: "wrap (?w - sint (strnlen (rd s) p (word_of_int (- 1)))) = ?d" unfolding sl using False assms(2,3) by simp
    have pad: "pad_str putch (pad_char pd) ?d s = map_option (\<lambda>s. (min ?d 0, s)) (puts putch (replicate (nat ?d) (pad_char pd)) s)"
      by (rule pad_str_puts) (use assms(2,3) in simp_all)
    have tail: "(case put_str putch rd 0 p (- 1) (min ?d 0) s' of
        None \<Rightarrow> None
      | Some (w, s) \<Rightarrow> (case pad_str putch (ic CHR '' '') w s of None \<Rightarrow> None | Some (w, s) \<Rightarrow> Some s))
      = puts putch (map sint xs) s'" if "puts putch (replicate (nat ?d) (pad_char pd)) s = Some s'" for s'
    proof -
      have "nat (min ?d 0 - int (length xs)) = 0" by simp
      then show ?thesis
        using str_tail [OF str_at_puts [OF assms(1) that], of "min ?d 0"] assms(2,3) by simp
    qed
    have "fmt_string putch rd ?l p s = puts putch (replicate (nat ?d) (pad_char pd) @ map sint xs) s"
      unfolding fmt_string_def l if_P [OF c] wr pad puts_append
      by (cases "puts putch (replicate (nat ?d) (pad_char pd)) s")
        (simp_all only: option.map option.case prod.case tail)
    moreover have "nat ?d = w - length xs" by (simp add: nat_minus_as_int)
    ultimately show ?thesis using False by (simp add: str_text_def)
  qed
qed

end

lemma str_at_suffix: "str_at ro m p (xs @ ys) \<Longrightarrow> str_at ro m (p + of_nat (length xs)) ys"
proof -
  assume *: "str_at ro m p (xs @ ys)"
  have "p + of_nat (length xs) + of_nat i \<in> ro" if "i \<le> length ys" for i
    using spec [OF conjunct2 [OF * [unfolded str_at_def]], of "length xs + i"] that by (simp add: add.assoc)
  then show ?thesis using * by (simp add: str_at_def cstr_append)
qed

lemma not_digit_conv:
  "not_digit (chr CHR ''%'')" "not_digit (chr CHR ''o'')" "not_digit (chr CHR ''c'')" "not_digit (chr CHR ''s'')" "not_digit (chr CHR ''d'')"
  "not_digit (chr CHR ''u'')" "not_digit (chr CHR ''x'')" "not_digit (chr CHR ''p'')" "not_digit (chr CHR ''e'')"
  by (simp_all add: not_digit_def chr_def)

definition no_error :: "item \<Rightarrow> bool" where
  "no_error it \<longleftrightarrow> (\<forall>x. it \<noteq> ErrorNo x)"

text \<open>The call that the case \<open>%e\<close> makes, by items.\<close>

definition error_items :: "(string \<Rightarrow> u32) \<Rightarrow> int \<Rightarrow> item list" where
  "error_items lit e =
     (case error_string e of
        Inr (Some t) \<Rightarrow> [Text Blank 0 (lit t) (map chr t)]
      | _ \<Rightarrow> map Plain (map chr ''error '') @ [Signed Blank 0 0 (ucast (word_of_int e :: u32))])"

lemma error_items_text:
  assumes "0 \<le> e" "e < 2147483648"
  shows "concat (map item_text (error_items lit e)) = error_text e"
proof -
  have "sint (num_signed 0 (ucast (word_of_int e :: u32))) = e"
  proof -
    have u: "uint (word_of_int e :: u32) = e" using assms by (simp add: uint_word_of_int)
    then have "unat (word_of_int e :: u32) < 2147483648" using assms(2) uint_unat32 [of "word_of_int e"] by linarith
    then have "sint (word_of_int e :: u32) = e" using sint_small u by simp
    moreover have "(ucast (ucast (word_of_int e :: u32) :: u64) :: u32) = word_of_int e"
      by (rule bit_word_eqI) (simp add: bit_simps)
    moreover have "(scast (word_of_int e :: u32) :: u64) = word_of_int (sint (word_of_int e :: u32))"
      by (rule bit_word_eqI) (auto simp: bit_simps)
    moreover have "sint (word_of_int e :: u64) = e"
      using assms by (simp add: signed_of_int signed_take_bit_int_eq_self)
    ultimately show ?thesis by (simp add: num_signed_def)
  qed
  moreover have "map sint (map chr t) = map ic t \<and> t \<noteq> []" if "error_string e = Inr (Some t)" for t
    using error_table [OF that] that unfolding error_string_def by (auto split: if_splits)
  moreover have "concat (map item_text (map Plain (map chr ''error ''))) = map ic ''error ''" by (simp add: chr_def)
  moreover have "concat (map item_text [it]) = item_text it" for it by simp
  ultimately show ?thesis
    by (cases "error_string e")
      (auto simp: error_items_def error_text_def str_text_def simp del: list.map split: option.splits)
qed

context text_sink
begin

lemma ok_puts:
  assumes "puts putch cs s = Some s'"
  shows "lits_ok (ro s) (rd s) lit \<Longrightarrow> lits_ok (ro s') (rd s') lit" "item_ok (ro s) (rd s) it \<Longrightarrow> item_ok (ro s') (rd s') it"
proof -
  show "lits_ok (ro s) (rd s) lit \<Longrightarrow> lits_ok (ro s') (rd s') lit"
    using str_at_puts [OF _ assms] unfolding lits_ok_def by blast
  show "item_ok (ro s) (rd s) it \<Longrightarrow> item_ok (ro s') (rd s') it"
    using str_at_puts [OF _ assms] by (cases it) (auto split: if_splits)
qed

lemma conv_text:
  assumes "item_ok (ro s) (rd s) (Text pd w p xs)" "lits_ok (ro s) (rd s) lit" "rd s f = chr CHR ''s''"
  shows "switch_step putch rd lit (field_locals pd w k) f (p # ap) s
    = (case puts putch (item_text (Text pd w p xs)) s of None \<Rightarrow> None | Some s \<Rightarrow> Some (Inr (Continue Scan (f + 1) ap s)))"
proof -
  have "str_at (ro s) (rd s) (if p = 0 then lit ''(null)'' else p) xs"
    using assms(1,2) by (auto simp: lits_ok_def literals_def split: if_splits)
  then have "fmt_string putch rd (field_locals pd w k) (if p = 0 then lit ''(null)'' else p) s = puts putch (str_text pd w xs) s"
    using assms(1) by (intro fmt_string_puts) simp_all
  then show ?thesis using assms(3) by (simp add: switch_step_def chr_def va_word_def brk_def)
qed

lemma no_error_printed:
  assumes c: "cstr (rd s) fmt (item_fmt it @ xs)" and ok: "item_ok (ro s) (rd s) it" "lits_ok (ro s) (rd s) lit" "no_error it"
  shows "vprintfmt_loop putch rd lit Scan fmt (item_args it @ ap) s
    = text_then putch rd lit (item_text it) (fmt + of_nat (length (item_fmt it))) ap s"
proof (cases it)
  case (Plain ch)
  then have "rd s fmt = ch" "uint ch \<noteq> 0" "uint ch \<noteq> 37" using c ok(1)
    by (auto simp: chr_def word_uint_eq_iff)
  then show ?thesis using Plain
    by (subst vprintfmt_loop.simps) (simp add: scan_step_def brk_def text_then_def split: option.splits)
next
  case Percent
  show ?thesis unfolding Percent item_fmt.simps item_args.simps append_Nil
    by (rule loop_directive0 [where rd = rd and s = s and xs = xs]) (use c Percent in \<open>simp_all add: not_digit_conv conv_simple del: item_text.simps\<close>)
next
  case Octal
  show ?thesis unfolding Octal item_fmt.simps item_args.simps append_Nil
    by (rule loop_directive0 [where rd = rd and s = s and xs = xs]) (use c Octal in \<open>simp_all add: not_digit_conv conv_simple del: item_text.simps\<close>)
next
  case (Character x)
  show ?thesis unfolding Character item_fmt.simps item_args.simps append.simps
    by (rule loop_directive0 [where rd = rd and s = s and xs = xs]) (use c Character in \<open>simp_all add: not_digit_conv conv_simple del: item_text.simps\<close>)
next
  case (Text pd w p ys)
  have *: "cstr (rd s) fmt (chr CHR ''%'' # field_bytes pd w 0 @ chr CHR ''s'' # xs)" using c Text by simp
  show ?thesis unfolding Text item_fmt.simps item_args.simps append.simps
    by (rule loop_directive [where rd = rd and s = s, OF * not_digit_conv(4)], use ok Text in simp, simp) (rule conv_text, use ok Text in simp_all)
next
  case (Signed pd w k x)
  have *: "cstr (rd s) fmt (chr CHR ''%'' # field_bytes pd w k @ chr CHR ''d'' # xs)" using c Signed by simp
  have w: "w < 1073741824" "k < 1073741824" using ok(1) Signed by simp_all
  show ?thesis unfolding Signed item_fmt.simps item_args.simps
    by (rule loop_directive [where rd = rd and s = s, OF * not_digit_conv(5) w]) (rule conv_signed [OF w(1)])
next
  case (Unsigned pd w k x)
  have *: "cstr (rd s) fmt (chr CHR ''%'' # field_bytes pd w k @ chr CHR ''u'' # xs)" using c Unsigned by simp
  have w: "w < 1073741824" "k < 1073741824" using ok(1) Unsigned by simp_all
  show ?thesis unfolding Unsigned item_fmt.simps item_args.simps
    by (rule loop_directive [where rd = rd and s = s, OF * not_digit_conv(6) w]) (rule conv_unsigned(1) [OF w(1)])
next
  case (Hex pd w k x)
  have *: "cstr (rd s) fmt (chr CHR ''%'' # field_bytes pd w k @ chr CHR ''x'' # xs)" using c Hex by simp
  have w: "w < 1073741824" "k < 1073741824" using ok(1) Hex by simp_all
  show ?thesis unfolding Hex item_fmt.simps item_args.simps
    by (rule loop_directive [where rd = rd and s = s, OF * not_digit_conv(7) w]) (rule conv_unsigned(2) [OF w(1)])
next
  case (Pointer pd w p)
  have *: "cstr (rd s) fmt (chr CHR ''%'' # field_bytes pd w 0 @ chr CHR ''p'' # xs)" using c Pointer by simp
  have w: "w < 1073741824" using ok(1) Pointer by simp
  show ?thesis unfolding Pointer item_fmt.simps item_args.simps append.simps
    by (rule loop_directive [where rd = rd and s = s, OF * not_digit_conv(8) w], simp) (rule conv_pointer [OF w])
next
  case (ErrorNo x)
  then show ?thesis using ok(3) by (simp add: no_error_def)
qed

text \<open>A format whose items are printed one by one is printed as a whole.\<close>

lemma items_printed:
  assumes each: "\<And>it s fmt xs ap. it \<in> set its \<Longrightarrow> cstr (rd s) fmt (item_fmt it @ xs) \<Longrightarrow> item_ok (ro s) (rd s) it \<Longrightarrow>
      lits_ok (ro s) (rd s) lit \<Longrightarrow> vprintfmt_loop putch rd lit Scan fmt (item_args it @ ap) s
        = text_then putch rd lit (item_text it) (fmt + of_nat (length (item_fmt it))) ap s"
    and "str_at (ro s) (rd s) fmt (concat (map item_fmt its))" "\<forall>it \<in> set its. item_ok (ro s) (rd s) it" "lits_ok (ro s) (rd s) lit"
  shows "vprintfmt_loop putch rd lit Scan fmt (concat (map item_args its) @ ap) s
    = map_option Inr (puts putch (concat (map item_text its)) s)"
  using assms
proof (induction its arbitrary: fmt s)
  case Nil
  then show ?case by (subst vprintfmt_loop.simps) (simp add: scan_step_def str_at_def)
next
  case (Cons it its)
  have c: "cstr (rd s) fmt (item_fmt it @ concat (map item_fmt its))" using Cons.prems(2) by (simp add: str_at_def)
  have "vprintfmt_loop putch rd lit Scan fmt (item_args it @ concat (map item_args its) @ ap) s
      = text_then putch rd lit (item_text it) (fmt + of_nat (length (item_fmt it))) (concat (map item_args its) @ ap) s"
    by (rule Cons.prems(1) [OF _ c]) (use Cons.prems(3,4) in simp_all)
  moreover have "vprintfmt_loop putch rd lit Scan (fmt + of_nat (length (item_fmt it))) (concat (map item_args its) @ ap) s'
      = map_option Inr (puts putch (concat (map item_text its)) s')" if s': "puts putch (item_text it) s = Some s'" for s'
  proof (rule Cons.IH)
    have "str_at (ro s) (rd s) (fmt + of_nat (length (item_fmt it))) (concat (map item_fmt its))"
      by (rule str_at_suffix) (use Cons.prems(2) in simp)
    then show "str_at (ro s') (rd s') (fmt + of_nat (length (item_fmt it))) (concat (map item_fmt its))"
      by (rule str_at_puts [OF _ s'])
    show "\<forall>it \<in> set its. item_ok (ro s') (rd s') it" using ok_puts(2) [OF s'] Cons.prems(3) by simp
    show "lits_ok (ro s') (rd s') lit" using ok_puts(1) [OF s'] Cons.prems(4) by simp
  qed (use Cons.prems(1) in simp)
  ultimately show ?case by (simp add: text_then_def puts_append split: option.splits)
qed

end

lemma ucast_ucast_64: "(ucast (ucast (y :: u32) :: u64) :: u32) = y"
  by (rule bit_word_eqI) (simp add: bit_simps)

lemma unat_ucast_64: "unat (ucast (y :: u32) :: u64) = unat y"
  unfolding unsigned_ucast_eq by (rule take_bit_nat_eq_self) (use unat_lt32 [of y] in \<open>simp del: unat_lt32\<close>)

lemma sint_scast_64: "sint (scast (y :: u32) :: u64) = sint y"
proof -
  have e: "(scast y :: u64) = word_of_int (sint y)" by (rule bit_word_eqI) (auto simp: bit_simps)
  have r: "- 2147483648 \<le> sint y" "sint y < 2147483648" using sint_greater_eq [of y] sint_less [of y] by simp_all
  have "sint (word_of_int v :: u64) = v" if "- 2147483648 \<le> v" "v < 2147483648" for v
    using that by (simp add: signed_of_int signed_take_bit_int_eq_self)
  from this [OF r] show ?thesis unfolding e .
qed

lemma num_args_ucast: "num_args 0 (ucast (y :: u32)) = [y]"
  by (simp add: num_args_def ucast_ucast_64)

section \<open>Formats with error numbers\<close>

lemma fmt_error_calls:
  assumes "sint x \<noteq> - 2147483648"
  shows "\<exists>f. f \<in> {''%s'', ''error %d''}
    \<and> fmt_error lit fmt (x # ap) s = Some (Inr (Call (lit f) (concat (map item_args (error_items lit \<bar>sint x\<bar>))) fmt ap s))
    \<and> concat (map item_fmt (error_items lit \<bar>sint x\<bar>)) = map chr f"
proof -
  have r: "- 2147483648 < sint x" "sint x < 2147483648"
    using sint_greater_eq [of x] sint_less [of x] assms by simp_all
  then have ab: "(if sint x < 0 then wrap (- sint x) else sint x) = \<bar>sint x\<bar>" by simp
  have cast: "num_args 0 (ucast (y :: u32)) = [y]" for y
  proof -
    have "(ucast (ucast y :: u64) :: u32) = y" by (rule bit_word_eqI) (simp add: bit_simps)
    then show ?thesis by (simp add: num_args_def)
  qed
  have d: "concat (map item_fmt (map Plain (map chr ''error '') @ [Signed Blank 0 0 v])) = map chr ''error %d''"
    "concat (map item_args (map Plain (map chr ''error '') @ [Signed Blank 0 0 v])) = num_args 0 v" for v
    by (simp_all add: field_bytes_none)
  have t: "concat (map item_fmt [Text Blank 0 p xs]) = map chr ''%s''" "concat (map item_args [Text Blank 0 p xs]) = [p]" for p xs
    by (simp_all add: field_bytes_none)
  consider (big) "MAXERROR \<le> \<bar>sint x\<bar>" | (null) "\<bar>sint x\<bar> < MAXERROR" "error_string \<bar>sint x\<bar> = Inr None"
    | (known) t where "\<bar>sint x\<bar> < MAXERROR" "error_string \<bar>sint x\<bar> = Inr (Some t)"
    by (cases "error_string \<bar>sint x\<bar>"; cases "MAXERROR \<le> \<bar>sint x\<bar>") (auto simp: error_string_def split: if_splits)
  then show ?thesis
  proof cases
    case big
    then have "error_string \<bar>sint x\<bar> = Inl OutOfBounds" by (simp add: error_string_def)
    then have e: "error_items lit \<bar>sint x\<bar> = map Plain (map chr ''error '') @ [Signed Blank 0 0 (ucast (word_of_int \<bar>sint x\<bar> :: u32))]"
      by (simp only: error_items_def sum.case)
    show ?thesis unfolding e d cast
      by (rule exI [of _ "''error %d''"]) (use big in \<open>simp add: fmt_error_def va_word_def ab Let_def\<close>)
  next
    case null
    then have e: "error_items lit \<bar>sint x\<bar> = map Plain (map chr ''error '') @ [Signed Blank 0 0 (ucast (word_of_int \<bar>sint x\<bar> :: u32))]"
      by (simp only: error_items_def sum.case option.case)
    show ?thesis unfolding e d cast
      by (rule exI [of _ "''error %d''"]) (use null in \<open>simp add: fmt_error_def va_word_def ab Let_def\<close>)
  next
    case known
    then have e: "error_items lit \<bar>sint x\<bar> = [Text Blank 0 (lit t) (map chr t)]"
      by (simp only: error_items_def sum.case option.case)
    show ?thesis unfolding e t
      by (rule exI [of _ "''%s''"]) (use known in \<open>simp add: fmt_error_def va_word_def ab Let_def\<close>)
  qed
qed

lemma error_items_ok:
  assumes "lits_ok ro m lit" "it \<in> set (error_items lit e)"
  shows "item_ok ro m it" "no_error it"
proof -
  consider (known) t where "error_string e = Inr (Some t)" "it = Text Blank 0 (lit t) (map chr t)"
    | (plain) c where "c \<in> set ''error ''" "it = Plain (chr c)"
    | (num) x where "it = Signed Blank 0 0 x"
  proof (cases "\<exists>t. error_string e = Inr (Some t)")
    case True
    then obtain t where t: "error_string e = Inr (Some t)" by blast
    then have "it = Text Blank 0 (lit t) (map chr t)" using assms(2) by (simp add: error_items_def)
    with t that(1) show ?thesis by blast
  next
    case False
    then have "error_items lit e = map Plain (map chr ''error '') @ [Signed Blank 0 0 (ucast (word_of_int e :: u32))]"
      unfolding error_items_def by (auto split: sum.splits option.splits simp del: list.map)
    then have "it \<in> Plain ` chr ` set ''error '' \<or> it = Signed Blank 0 0 (ucast (word_of_int e :: u32))"
      using assms(2) by (simp only: set_append set_map Un_iff list.set insert_iff empty_iff) simp
    with that(2,3) show ?thesis by blast
  qed
  then have "item_ok ro m it \<and> no_error it"
  proof cases
    case known
    then show ?thesis
      using error_table [OF known(1)] assms(1) unfolding lits_ok_def by (simp add: no_error_def)
  next
    case plain
    then have "chr c \<noteq> 0 \<and> chr c \<noteq> chr CHR ''%''" by (auto simp: chr_def)
    with plain show ?thesis by (simp add: no_error_def)
  next
    case num
    then show ?thesis by (simp add: no_error_def)
  qed
  then show "item_ok ro m it" "no_error it" by simp_all
qed

context text_sink
begin

text \<open>One item, with the error numbers.\<close>

lemma item_printed:
  assumes c: "cstr (rd s) fmt (item_fmt it @ xs)" and ok: "item_ok (ro s) (rd s) it" "lits_ok (ro s) (rd s) lit"
  shows "vprintfmt_loop putch rd lit Scan fmt (item_args it @ ap) s
    = text_then putch rd lit (item_text it) (fmt + of_nat (length (item_fmt it))) ap s"
proof (cases "no_error it")
  case True
  then show ?thesis using no_error_printed [OF c ok] by simp
next
  case False
  then obtain x where it: "it = ErrorNo x" by (auto simp: no_error_def)
  have x: "sint x \<noteq> - 2147483648" using ok(1) it by simp
  have m: "rd s fmt = chr CHR ''%''" "rd s (fmt + 1) = chr CHR ''e''" using c it by simp_all
  have e: "0 \<le> \<bar>sint x\<bar>" "\<bar>sint x\<bar> < 2147483648" using x sint_greater_eq [of x] sint_less [of x] by simp_all
  obtain f where f: "f \<in> {''%s'', ''error %d''}"
    "fmt_error lit (fmt + 1 + 1) (x # ap) s
      = Some (Inr (Call (lit f) (concat (map item_args (error_items lit \<bar>sint x\<bar>))) (fmt + 1 + 1) ap s))"
    "concat (map item_fmt (error_items lit \<bar>sint x\<bar>)) = map chr f"
    using fmt_error_calls [OF x, of lit "fmt + 1 + 1" ap s] by (elim exE conjE) (rule that; assumption)
  have "f \<in> set literals" using f(1) by (auto simp: literals_def)
  then have st: "str_at (ro s) (rd s) (lit f) (concat (map item_fmt (error_items lit \<bar>sint x\<bar>)))"
    using ok(2) f(3) unfolding lits_ok_def by simp
  have "vprintfmt_loop putch rd lit Scan (lit f) (concat (map item_args (error_items lit \<bar>sint x\<bar>)) @ []) s
      = map_option Inr (puts putch (concat (map item_text (error_items lit \<bar>sint x\<bar>))) s)"
  proof (rule items_printed)
    show "\<forall>it \<in> set (error_items lit \<bar>sint x\<bar>). item_ok (ro s) (rd s) it" using error_items_ok(1) [OF ok(2)] by blast
    show "lits_ok (ro s) (rd s) lit" by (rule ok(2))
    show "str_at (ro s) (rd s) (lit f) (concat (map item_fmt (error_items lit \<bar>sint x\<bar>)))" by (rule st)
    fix i s1 fmt1 xs1 ap1
    assume a: "i \<in> set (error_items lit \<bar>sint x\<bar>)" "cstr (rd s1) fmt1 (item_fmt i @ xs1)" "item_ok (ro s1) (rd s1) i" "lits_ok (ro s1) (rd s1) lit"
    show "vprintfmt_loop putch rd lit Scan fmt1 (item_args i @ ap1) s1
      = text_then putch rd lit (item_text i) (fmt1 + of_nat (length (item_fmt i))) ap1 s1"
      by (rule no_error_printed [OF a(2-4) error_items_ok(2) [OF ok(2) a(1)]])
  qed
  then have call: "vprintfmt_loop putch rd lit Scan (lit f) (concat (map item_args (error_items lit \<bar>sint x\<bar>))) s
      = map_option Inr (puts putch (item_text it) s)"
    by (simp only: append_Nil2 error_items_text [OF e] it item_text.simps)
  have "switch_step putch rd lit init_locals (fmt + 1) (x # ap) s = fmt_error lit (fmt + 1 + 1) (x # ap) s"
    using m(2) by (simp add: switch_step_def chr_def)
  then have "vprintfmt_loop putch rd lit (Reswitch init_locals) (fmt + 1) (x # ap) s
      = text_then putch rd lit (item_text it) (fmt + 1 + 1) ap s"
    using f(2) call by (subst vprintfmt_loop.simps) (simp add: text_then_def split: option.splits)
  then show ?thesis using loop_scan_percent [where rd = rd and s = s, OF m(1)] it by (simp add: add.assoc)
qed

lemma vprintfmt_prints:
  assumes "str_at (ro s) (rd s) fmt (concat (map item_fmt its))" "\<forall>it \<in> set its. item_ok (ro s) (rd s) it" "lits_ok (ro s) (rd s) lit"
  shows "vprintfmt putch rd lit fmt (concat (map item_args its) @ ap) s
    = map_option Inr (puts putch (concat (map item_text its)) s)"
  unfolding vprintfmt_def by (rule items_printed [OF item_printed assms])

end

section \<open>Printing to a buffer\<close>

text \<open>While the buffer fills, everything outside of its free part is protected.\<close>

definition outside :: "sprintbuf \<Rightarrow> u32 set" where
  "outside b = {x. \<not> (buf b \<le> x \<and> x < ebuf b)}"

interpretation sprint: text_sink sprintputch bmem outside
proof
  fix c :: int and b b' :: sprintbuf and x :: u32
  assume b': "sprintputch c b = Some b'" and x: "x \<in> outside b"
  show "x \<in> outside b' \<and> bmem b' x = bmem b x"
  proof (cases "buf b < ebuf b")
    case True
    then have "unat (buf b + 1) = unat (buf b) + 1"
      by (intro unat_plus_one) (simp add: word_less_nat_alt)
    then have "buf b \<le> buf b + 1" by (simp add: word_le_nat_alt)
    moreover have "x \<noteq> buf b" using x True by (auto simp: outside_def)
    ultimately show ?thesis using b' x True by (auto simp: sprintputch_def outside_def Let_def)
  next
    case False
    then show ?thesis using b' x by (auto simp: sprintputch_def outside_def Let_def)
  qed
qed

text \<open>What is written to the buffer: as many characters as fit.\<close>

lemma puts_buffer:
  assumes "buf b \<le> ebuf b" "0 \<le> cnt b" "cnt b + int (length cs) < 2147483648"
  shows "\<exists>b'. puts sprintputch cs b = Some b' \<and> cnt b' = cnt b + int (length cs)
    \<and> buf b' = buf b + of_nat (min (length cs) (unat (ebuf b - buf b)))
    \<and> bmem b' = mem_write (bmem b) (buf b) (map word_of_int (take (unat (ebuf b - buf b)) cs))"
  using assms
proof (induction cs arbitrary: b)
  case Nil
  then show ?case by simp
next
  case (Cons c cs)
  have cnt: "wrap (cnt b + 1) = cnt b + 1" using Cons.prems(2,3) by simp
  show ?case
  proof (cases "buf b < ebuf b")
    case True
    define b1 where "b1 = b\<lparr>cnt := cnt b + 1, bmem := (bmem b)(buf b := word_of_int c), buf := buf b + 1\<rparr>"
    have p: "sprintputch c b = Some b1" using True cnt by (simp add: sprintputch_def b1_def Let_def)
    have u: "unat (buf b + 1) = unat (buf b) + 1"
      using True by (intro unat_plus_one) (simp add: word_less_nat_alt)
    then have le: "buf b + 1 \<le> ebuf b" using True by (simp add: word_le_nat_alt word_less_nat_alt)
    have d: "unat (ebuf b - buf b) = Suc (unat (ebuf b - (buf b + 1)))"
      using True le u by (simp add: unat_diff_word word_le_nat_alt word_less_nat_alt)
    have "\<exists>b'. puts sprintputch cs b1 = Some b' \<and> cnt b' = cnt b1 + int (length cs)
      \<and> buf b' = buf b1 + of_nat (min (length cs) (unat (ebuf b1 - buf b1)))
      \<and> bmem b' = mem_write (bmem b1) (buf b1) (map word_of_int (take (unat (ebuf b1 - buf b1)) cs))"
      by (rule Cons.IH) (use le Cons.prems in \<open>simp_all add: b1_def\<close>)
    then show ?thesis using p d by (auto simp: b1_def add.assoc)
  next
    case False
    then have z: "unat (ebuf b - buf b) = 0" using Cons.prems(1) by simp
    define b1 where "b1 = b\<lparr>cnt := cnt b + 1\<rparr>"
    have p: "sprintputch c b = Some b1" using False cnt by (simp add: sprintputch_def b1_def Let_def)
    have "\<exists>b'. puts sprintputch cs b1 = Some b' \<and> cnt b' = cnt b1 + int (length cs)
      \<and> buf b' = buf b1 + of_nat (min (length cs) (unat (ebuf b1 - buf b1)))
      \<and> bmem b' = mem_write (bmem b1) (buf b1) (map word_of_int (take (unat (ebuf b1 - buf b1)) cs))"
      by (rule Cons.IH) (use Cons.prems in \<open>simp_all add: b1_def\<close>)
    then show ?thesis using p z by (auto simp: b1_def)
  qed
qed

text \<open>A format that is readable next to a buffer of \<open>n\<close> bytes at \<open>bf\<close>: the format, its strings and
  the literals do not overlap the part that characters are put in.\<close>

definition fmt_ok :: "u32 set \<Rightarrow> mem \<Rightarrow> (string \<Rightarrow> u32) \<Rightarrow> u32 \<Rightarrow> item list \<Rightarrow> bool" where
  "fmt_ok ro m lit fmt its \<longleftrightarrow>
     str_at ro m fmt (concat (map item_fmt its)) \<and> (\<forall>it \<in> set its. item_ok ro m it) \<and> lits_ok ro m lit"

definition fmt_args :: "item list \<Rightarrow> u32 list" where
  "fmt_args its = concat (map item_args its)"

definition fmt_text :: "item list \<Rightarrow> int list" where
  "fmt_text its = concat (map item_text its)"

lemma vsnprintf_spec:
  assumes bf: "bf \<noteq> 0" "0 < n" "unat bf + n \<le> 4294967296" and n: "n < 2147483648"
    and ok: "fmt_ok {x. \<not> in_reg bf (n - 1) x} m lit fmt its"
    and len: "length (fmt_text its) < 2147483648"
  shows "\<exists>m'. vsnprintf lit bf (int n) fmt (fmt_args its @ ap) m = Some (Inr (int (length (fmt_text its)), m'))
    \<and> mem_read m' bf (min (length (fmt_text its)) (n - 1) + 1) = map word_of_int (take (n - 1) (fmt_text its)) @ [0]
    \<and> (\<forall>x. \<not> in_reg bf n x \<longrightarrow> m' x = m x)"
proof -
  let ?b = "\<lparr>buf = bf, ebuf = bf + word_of_int (int n) - 1, cnt = 0, bmem = m\<rparr>"
  let ?t = "fmt_text its" and ?k = "min (length (fmt_text its)) (n - 1)"
  have e: "bf + word_of_int (int n) - 1 = bf + of_nat (n - 1)"
    using bf(2) by (simp add: of_nat_diff)
  have un: "unat (of_nat (n - 1) :: u32) = n - 1" using n by (intro unat_of_nat32) simp
  have ue: "unat (bf + of_nat (n - 1)) = unat bf + (n - 1)"
    using bf un by (subst unat_add_word) simp
  have d: "unat (ebuf ?b - buf ?b) = n - 1" unfolding sprintbuf.simps e using un by simp
  have le: "buf ?b \<le> ebuf ?b" unfolding sprintbuf.simps e using ue by (simp add: word_le_nat_alt)
  have "in_reg bf (n - 1) x \<longleftrightarrow> unat bf \<le> unat x \<and> unat x < unat bf + (n - 1)" for x
    by (rule in_reg_nat) (use bf(3) in simp)
  then have "outside ?b = {x. \<not> in_reg bf (n - 1) x}"
    unfolding outside_def sprintbuf.simps e word_le_nat_alt word_less_nat_alt ue by simp
  then have "vprintfmt sprintputch bmem lit fmt (fmt_args its @ ap) ?b = map_option Inr (puts sprintputch ?t ?b)"
    using ok unfolding fmt_ok_def fmt_args_def fmt_text_def by (intro sprint.vprintfmt_prints) simp_all
  moreover obtain b' where b': "puts sprintputch ?t ?b = Some b'" "cnt b' = int (length ?t)"
    "buf b' = bf + of_nat ?k" "bmem b' = mem_write m bf (map word_of_int (take (n - 1) ?t))"
    using puts_buffer [OF le, of ?t] len unfolding d by auto
  moreover have "\<not> (bf = 0 \<or> int n < 1)" using bf(1,2) by simp
  ultimately have v: "vsnprintf lit bf (int n) fmt (fmt_args its @ ap) m
      = Some (Inr (int (length ?t), (bmem b')(buf b' := 0)))"
    unfolding vsnprintf_def Let_def by simp
  have "(bmem b')(buf b' := 0) = mem_write m bf (map word_of_int (take (n - 1) ?t) @ [0])"
    unfolding mem_write_append b'(3,4) by simp
  moreover have l: "length (map word_of_int (take (n - 1) ?t) @ [0 :: byte]) = ?k + 1" by simp
  moreover have "?k + 1 \<le> n" using bf(2) by simp
  ultimately show ?thesis
    using v n mem_read_write [of "map word_of_int (take (n - 1) ?t) @ [0]" m bf]
    by (auto simp: mem_write_apply simp del: mem_write.simps dest: in_reg_mono)
qed

section \<open>Memory that is only read\<close>

lemma const_sink: "text_sink putch (\<lambda>_. m) (\<lambda>_. UNIV)"
  by unfold_locales simp

lemma vprintfmt_const:
  "fmt_ok UNIV m lit fmt its \<Longrightarrow>
   vprintfmt putch (\<lambda>_. m) lit fmt (fmt_args its @ ap) s = map_option Inr (puts putch (fmt_text its) s)"
  unfolding fmt_ok_def fmt_args_def fmt_text_def
  by (intro text_sink.vprintfmt_prints [OF const_sink]) simp_all

lemma fmt_error_min: "fmt_error lit fmt (0x80000000 # ap) s = Some (Inl OutOfBounds)"
proof -
  have "wrap 2147483648 = - 2147483648" by (simp add: wrap_def)
  then show ?thesis by (simp add: fmt_error_def va_word_def error_string_def MAXERROR_def E_NO_SYS_def)
qed

section \<open>Strings laid out in memory\<close>

text \<open>A memory with the strings of a list in slots of 64 bytes from \<open>0x1000\<close> on, for examples.\<close>

definition slot_mem :: "string list \<Rightarrow> mem" where
  "slot_mem strs a =
     (let i = unat (a - 0x1000)
      in if i div 64 < length strs \<and> i mod 64 < length (strs ! (i div 64)) then chr (strs ! (i div 64) ! (i mod 64)) else 0)"

definition str_slot :: "string list \<Rightarrow> string \<Rightarrow> u32" where
  "str_slot strs t = 0x1000 + of_nat (64 * length (takeWhile (\<lambda>u. u \<noteq> t) strs))"

lemma cstr_nth:
  "(\<forall>i < length xs. m (p + of_nat i) = xs ! i \<and> xs ! i \<noteq> 0) \<Longrightarrow> m (p + of_nat (length xs)) = 0 \<Longrightarrow> cstr m p xs"
proof (induction xs arbitrary: p)
  case Nil
  then show ?case by simp
next
  case (Cons x xs)
  have "m (p + 1 + of_nat i) = xs ! i \<and> xs ! i \<noteq> 0" if "i < length xs" for i
    using spec [OF Cons.prems(1), of "Suc i"] that by (simp add: add.assoc)
  moreover have "m (p + 1 + of_nat (length xs)) = 0" using Cons.prems(2) by (simp add: add.assoc)
  ultimately show ?case using Cons.IH spec [OF Cons.prems(1), of 0] by simp
qed

lemma slot_str:
  assumes "t \<in> set strs" "length t < 64" "length strs < 1000" "\<forall>c \<in> set t. chr c \<noteq> 0"
  shows "str_at {x. unat x < 0x1000 + 64 * length strs} (slot_mem strs) (str_slot strs t) (map chr t)" "str_slot strs t \<noteq> 0"
proof -
  let ?k = "length (takeWhile (\<lambda>u. u \<noteq> t) strs)"
  have "takeWhile (\<lambda>u. u \<noteq> t) strs \<noteq> strs" using assms(1) by (auto simp: takeWhile_eq_all_conv)
  then have "?k \<noteq> length strs" by (metis takeWhile_eq_take take_all order_refl)
  then have k1: "?k < length strs" using length_takeWhile_le [of "\<lambda>u. u \<noteq> t" strs] by simp
  then have k: "?k < length strs" "strs ! ?k = t" using nth_length_takeWhile [OF k1] by simp_all
  have a: "str_slot strs t + of_nat i = 0x1000 + of_nat (64 * ?k + i)" for i by (simp add: str_slot_def add.assoc)
  have m: "slot_mem strs (str_slot strs t + of_nat i) = (if i < length t then chr (t ! i) else 0)" if "i < 64" for i
  proof -
    have "unat (of_nat (64 * ?k + i) :: u32) = 64 * ?k + i" using k(1) assms(3) that by (intro unat_of_nat32) simp
    moreover have "(64 * ?k + i) div 64 = ?k" "(64 * ?k + i) mod 64 = i" using that by simp_all
    ultimately show ?thesis unfolding a slot_mem_def using k by (simp add: Let_def)
  qed
  have "cstr (slot_mem strs) (str_slot strs t) (map chr t)"
    by (rule cstr_nth) (use m assms(2,4) in simp_all)
  moreover have "unat (str_slot strs t + of_nat i) < 0x1000 + 64 * length strs" if "i \<le> length t" for i
  proof -
    have "unat (of_nat (64 * ?k + i) :: u32) = 64 * ?k + i" using k(1) assms(2,3) that by (intro unat_of_nat32) simp
    then show ?thesis unfolding a using k(1) assms(2,3) that by (subst unat_add_word) simp
  qed
  ultimately show "str_at {x. unat x < 0x1000 + 64 * length strs} (slot_mem strs) (str_slot strs t) (map chr t)"
    by (simp add: str_at_def)
  have "unat (str_slot strs t) = 0x1000 + 64 * ?k"
    unfolding str_slot_def using k(1) assms(3) by (subst unat_add_word) (simp only: unat_of_nat32, simp add: unat_of_nat32)
  then show "str_slot strs t \<noteq> 0" by auto
qed

section \<open>Numbers that are printed and read back\<close>

lemma chr_of_ic: "word_of_int (ic c) = chr c"
  by (simp add: chr_def of_nat_of_char of_int_of_char)

lemma less_16_cases: "(d :: nat) < 16 \<Longrightarrow> d < 10 \<or> d = 10 \<or> d = 11 \<or> d = 12 \<or> d = 13 \<or> d = 14 \<or> d = 15"
  by presburger

lemma strtol_digit_dchar:
  assumes "d < 16"
  shows "strtol_digit (chr (dchar d)) = Some (int d)" "chr (dchar d) \<noteq> 0" "chr (dchar d) \<noteq> chr CHR ''x''"
  using less_16_cases [OF assms] less_10_cases [of d] by (auto simp: strtol_digit_def dchar_def chr_def)

lemma digits_val_digits:
  "\<forall>d \<in> set ds. d < 16 \<Longrightarrow>
   digits_val (int b) (map (\<lambda>d. chr (dchar d)) ds) (int v) = int (foldl (\<lambda>v d. v * b + d) v ds)"
proof (induction ds arbitrary: v)
  case (Cons d ds)
  then show ?case using Cons.IH [of "v * b + d"] by (simp add: strtol_digit_dchar)
qed simp

lemma cstr_of_read:
  assumes "mem_read m p (length xs + 1) = xs @ [0]" "0 \<notin> set xs"
  shows "cstr m p xs"
proof (rule cstr_nth)
  have "m (p + of_nat i) = (xs @ [0]) ! i" if "i \<le> length xs" for i
    using assms(1) mem_read_nth [of i "length xs + 1" m p] that by simp
  moreover have "xs ! i \<noteq> 0" if "i < length xs" for i using assms(2) nth_mem [OF that] by metis
  ultimately show "\<forall>i < length xs. m (p + of_nat i) = xs ! i \<and> xs ! i \<noteq> 0" "m (p + of_nat (length xs)) = 0"
    by (simp_all add: nth_append)
qed

lemma strtol_of_digits:
  assumes "cstr m bf (sg @ map (\<lambda>d. chr (dchar d)) (digits b v))" "sg = [] \<or> sg = [chr CHR ''-'']" "b = 10 \<or> b = 16"
  shows "strtol m bf 0 (int b) = Some (word_of_int (if sg = [] then int v else - int v), m)"
proof -
  let ?ds = "map (\<lambda>d. chr (dchar d)) (digits b v)"
  have r: "\<forall>d \<in> set (digits b v). d < b" using assms(3) by (intro digits_range) auto
  then have r16: "\<forall>d \<in> set (digits b v). d < 16" using assms(3) by auto
  have dig: "\<forall>c \<in> set ?ds. is_digit (int b) c"
    using r r16 by (auto simp: is_digit_def strtol_digit_dchar)
  have val: "digits_val (int b) ?ds 0 = int v"
    using digits_val_digits [OF r16, of b 0] digits_value [of b v] assms(3) by (auto simp: digits_nat_def)
  have x: "hd (tl (?ds @ [] @ [0])) \<noteq> chr CHR ''x''"
  proof (cases "tl (digits b v)")
    case Nil
    then have "tl ?ds = []" by (simp add: map_tl [symmetric])
    then show ?thesis by (cases ?ds) (auto simp: chr_def)
  next
    case (Cons d ds)
    then have "d \<in> set (digits b v)" by (metis list.set_intros(1) list.set_sel(2) tl_Nil)
    then show ?thesis using Cons r16 strtol_digit_dchar(3) [of d] by (cases "digits b v") auto
  qed
  have "prefix_base (int b) [] (?ds @ [] @ [0]) (int b)" using assms(3) x by (auto simp: prefix_base_def)
  moreover have "sg \<in> {[], [chr CHR ''+''], [chr CHR ''-'']}" using assms(2) by auto
  ultimately have "strtol m bf 0 (int b)
    = Some (word_of_int (if sg = [chr (CHR ''-'')] then - digits_val (int b) ?ds 0 else digits_val (int b) ?ds 0),
        if (0 :: u32) \<noteq> 0 then store32 m 0 (bf + of_nat (length ([] @ sg @ [] @ ?ds))) else m)"
    using assms(1) dig by (intro strtol_eq [where rest = "[]"]) simp_all
  then show ?thesis using val assms(2) by auto
qed

section \<open>Properties\<close>

text \<open>C6: whatever the output routine, \<open>vprintfmt\<close> on a format made of plain characters and
  conversions (flags, field widths, long and long long numbers, strings, a null string,
  pointers, error numbers) puts exactly the characters of its items, one by one and in order,
  takes exactly their arguments, and returns when the output routine does: the parser of
  formats, the state machine of flags and the number printer refine the text of the items.\<close>

theorem vprintfmt_text:
  assumes "fmt_ok UNIV m lit fmt its"
  shows "vprintfmt putch (\<lambda>_. m) lit fmt (fmt_args its @ ap) s = map_option Inr (puts putch (fmt_text its) s)"
  by (rule vprintfmt_const [OF assms])

text \<open>A number with a sign in a field, a string padded on the right and an error number.\<close>

definition demo_strings :: "string list" where
  "demo_strings = literals @ [''%5d|%-6s|%e'', ''ok'']"

lemma str_at_mono: "str_at ro m p xs \<Longrightarrow> ro \<subseteq> ro' \<Longrightarrow> str_at ro' m p xs"
  by (auto simp: str_at_def)

lemma fmt_ok_mono: "fmt_ok ro m lit fmt its \<Longrightarrow> ro \<subseteq> ro' \<Longrightarrow> fmt_ok ro' m lit fmt its"
proof -
  assume *: "fmt_ok ro m lit fmt its" "ro \<subseteq> ro'"
  have "item_ok ro' m it" if "item_ok ro m it" for it
    using that *(2) by (cases it) (auto intro: str_at_mono split: if_splits)
  then show ?thesis using * str_at_mono unfolding fmt_ok_def lits_ok_def by meson
qed

lemma length_demo: "{x :: u32. unat x < 0x1000 + 64 * length demo_strings} \<subseteq> {x. unat x < 0x2000}"
  by (simp add: demo_strings_def literals_def) auto

lemma demo_str:
  assumes "t \<in> set demo_strings"
  shows "str_at {x. unat x < 0x2000} (slot_mem demo_strings) (str_slot demo_strings t) (map chr t)" "str_slot demo_strings t \<noteq> 0"
proof -
  have "length t < 64" "length demo_strings < 1000" "\<forall>c \<in> set t. chr c \<noteq> 0"
    using assms by (auto simp: demo_strings_def literals_def chr_def)
  then show "str_at {x. unat x < 0x2000} (slot_mem demo_strings) (str_slot demo_strings t) (map chr t)" "str_slot demo_strings t \<noteq> 0"
    using str_at_mono [OF slot_str(1) [OF assms]] slot_str(2) [OF assms] length_demo by simp_all
qed

lemma demo_lits: "lits_ok {x. unat x < 0x2000} (slot_mem demo_strings) (str_slot demo_strings)"
  unfolding lits_ok_def using demo_str by (simp add: demo_strings_def)

definition demo_items :: "item list" where
  "demo_items = [Signed Blank 5 0 (- 42), Plain 0x7C, Text Minus 6 (str_slot demo_strings ''ok'') (map chr ''ok''), Plain 0x7C, ErrorNo 4]"

lemma demo_fmt_ok: "fmt_ok {x. unat x < 0x2000} (slot_mem demo_strings) (str_slot demo_strings) (str_slot demo_strings ''%5d|%-6s|%e'') demo_items"
proof -
  have f: "concat (map item_fmt demo_items) = map chr ''%5d|%-6s|%e''"
    by (simp add: demo_items_def field_bytes_def width_bytes_def digits_lt dchar_def chr_def)
  have "item_ok {x. unat x < 0x2000} (slot_mem demo_strings) (Text Minus 6 (str_slot demo_strings ''ok'') (map chr ''ok''))"
    using demo_str [of "''ok''"] by (simp add: demo_strings_def)
  then have "\<forall>it \<in> set demo_items. item_ok {x. unat x < 0x2000} (slot_mem demo_strings) it"
    unfolding demo_items_def by (simp add: chr_def)
  then show ?thesis
    unfolding fmt_ok_def f using demo_lits demo_str(1) [of "''%5d|%-6s|%e''"] by (simp add: demo_strings_def)
qed

lemma demo_text: "fmt_text demo_items = map ic ''-   42|ok    |out of memory''"
proof -
  have r: "replicate 3 c = [c, c, c]" "replicate 4 c = [c, c, c, c]" for c :: int by (simp_all add: numeral_eq_Suc)
  have d: "digits 10 42 = [4, 2]" by (simp add: digits_ge digits_lt)
  have "sint (num_signed 0 (- 42)) = - 42" by (simp add: num_signed_def)
  then have i1: "item_text (Signed Blank 5 0 (- 42)) = map ic ''-   42''"
    by (simp only: item_text.simps) (simp add: int_text_def num_text_def d r dchar_def)
  have i2: "item_text (Text Minus 6 p [chr CHR ''o'', chr CHR ''k'']) = map ic ''ok    ''" for p
    unfolding item_text.simps str_text_def by (simp add: r chr_def)
  have "error_text 4 = map ic ''out of memory''"
    by (simp add: error_text_def error_string_def MAXERROR_def E_UNSPECIFIED_def E_BAD_ENV_def E_INVAL_def E_NO_MEM_def E_NO_SYS_def)
  then have i3: "item_text (ErrorNo 4) = map ic ''out of memory''" by simp
  show ?thesis
    unfolding fmt_text_def demo_items_def by (simp add: i1 i2 i3 del: item_text.simps) simp
qed

theorem vprintfmt_text_witness:
  "vprintfmt (\<lambda>c s. Some (s @ [c])) (\<lambda>_. slot_mem demo_strings) (str_slot demo_strings) (str_slot demo_strings ''%5d|%-6s|%e'')
     (fmt_args demo_items @ []) [] = Some (Inr (map ic ''-   42|ok    |out of memory''))"
proof -
  have "puts (\<lambda>c s. Some (s @ [c])) cs s = Some (s @ cs)" for cs s :: "int list"
    by (induction cs arbitrary: s) simp_all
  then show ?thesis
    using vprintfmt_text [OF fmt_ok_mono [OF demo_fmt_ok subset_UNIV], of "\<lambda>c s. Some (s @ [c])" "[]" "[]"] demo_text by simp
qed

text \<open>\<open>printnum\<close> in a base from 2 to 16 puts padding up to the width and then digits that
  are the number in that base: each is below the base, the first is not zero unless the
  number is, and they have the number's value, for all 64-bit numbers. The recursion and the
  padding loop return whenever the output routine does.\<close>

lemma printnum_digits:
  assumes "2 \<le> unat base" and "unat base \<le> 16" and "- 2147483500 \<le> w" and "w < 2147483648"
  shows "\<exists>ds. printnum putch num base w c s
      = map_option Inr (puts putch (replicate (nat w - length ds) c @ map (\<lambda>d. ic (''0123456789abcdef'' ! d)) ds) s)
    \<and> ds \<noteq> [] \<and> (\<forall>d \<in> set ds. d < unat base) \<and> (unat num = 0 \<or> hd ds \<noteq> 0)
    \<and> foldl (\<lambda>v d. v * unat base + d) 0 ds = unat num"
proof (rule exI [of _ "digits (unat base) (unat num)"], intro conjI)
  show "printnum putch num base w c s = map_option Inr (puts putch (replicate (nat w - length (digits (unat base) (unat num))) c
      @ map (\<lambda>d. ic (''0123456789abcdef'' ! d)) (digits (unat base) (unat num))) s)"
    using printnum_puts [OF assms] by (simp only: num_text_def dchar_def)
  show "unat num = 0 \<or> hd (digits (unat base) (unat num)) \<noteq> 0" using digits_hd [OF assms(1)] by blast
  show "foldl (\<lambda>v d. v * unat base + d) 0 (digits (unat base) (unat num)) = unat num"
    using digits_value [OF assms(1)] by (simp only: digits_nat_def)
qed (use digits_range [OF assms(1)] in simp_all)

lemma printnum_digits_witness:
  "\<exists>ds. printnum (\<lambda>c s. Some (s @ [c])) 255 16 4 (ic CHR ''0'') []
      = map_option Inr (puts (\<lambda>c s. Some (s @ [c])) (replicate (4 - length ds) (ic CHR ''0'') @ map (\<lambda>d. ic (''0123456789abcdef'' ! d)) ds) [])
    \<and> foldl (\<lambda>v d. v * 16 + d) 0 ds = 255"
  using printnum_digits [of 16 4 "\<lambda>c s. Some (s @ [c])" 255 "ic CHR ''0''" "[]"] by auto

text \<open>C24: \<open>vsnprintf\<close> with a buffer of \<open>n\<close> bytes writes the first \<open>n - 1\<close> characters of the text and
  a terminator behind them, nothing outside of the buffer, and returns the length that the
  whole text has, also when it was cut off. The format and its strings may lie anywhere
  outside of the part of the buffer that characters are put in.\<close>

theorem vsnprintf_bounded:
  assumes "bf \<noteq> 0" and "0 < n" and "unat bf + n \<le> 4294967296" and "n < 2147483648"
    and "fmt_ok {x. \<not> in_reg bf (n - 1) x} m lit fmt its" and "length (fmt_text its) < 2147483648"
  shows "\<exists>m'. vsnprintf lit bf (int n) fmt (fmt_args its @ ap) m = Some (Inr (int (length (fmt_text its)), m'))
    \<and> mem_read m' bf (min (length (fmt_text its)) (n - 1) + 1) = map word_of_int (take (n - 1) (fmt_text its)) @ [0]
    \<and> (\<forall>x. \<not> in_reg bf n x \<longrightarrow> m' x = m x)"
  by (rule vsnprintf_spec [OF assms])

text \<open>The same format into a buffer of eight bytes: seven characters are written and twenty-seven
  counted.\<close>

theorem vsnprintf_bounded_witness:
  "\<exists>m'. vsnprintf (str_slot demo_strings) 0x8000 (int 8) (str_slot demo_strings ''%5d|%-6s|%e'') (fmt_args demo_items @ []) (slot_mem demo_strings)
       = Some (Inr (int (length (fmt_text demo_items)), m'))
    \<and> mem_read m' 0x8000 8 = map word_of_int (take 7 (fmt_text demo_items)) @ [0]"
proof -
  have "{x. unat x < 0x2000} \<subseteq> {x. \<not> in_reg 0x8000 (8 - 1) x}"
  proof (intro subsetI CollectI notI)
    fix x :: u32 assume "x \<in> {x. unat x < 0x2000}" "in_reg 0x8000 (8 - 1) x"
    moreover have "in_reg 0x8000 (8 - 1) x \<longleftrightarrow> 0x8000 \<le> unat x \<and> unat x < 0x8007"
      by (subst in_reg_nat) simp_all
    ultimately show False by simp
  qed
  then have ok: "fmt_ok {x. \<not> in_reg 0x8000 (8 - 1) x} (slot_mem demo_strings) (str_slot demo_strings) (str_slot demo_strings ''%5d|%-6s|%e'') demo_items"
    by (rule fmt_ok_mono [OF demo_fmt_ok])
  have len: "length (fmt_text demo_items) = 27" unfolding demo_text by simp
  show ?thesis
    using vsnprintf_bounded [of "0x8000" 8, OF _ _ _ _ ok, of "[]"] len by auto
qed

text \<open>C25: a number printed by \<open>snprintf\<close> with \<open>%d\<close> or \<open>%x\<close> into a buffer that is big enough is read
  back by \<open>strtol\<close> in base 10 or 16: the printer and the parser of the library are inverse to
  each other on all 32-bit numbers.\<close>

theorem snprintf_strtol:
  assumes "bf \<noteq> 0" and "12 \<le> n" and "unat bf + n \<le> 4294967296" and "n < 2147483648"
    and "it = (if hex then Hex Blank 0 0 (ucast x) else Signed Blank 0 0 (ucast x))"
    and "fmt_ok {y. \<not> in_reg bf (n - 1) y} m lit fmt [it]"
  shows "\<exists>k m'. snprintf lit bf (int n) fmt [x] m = Some (Inr (k, m'))
    \<and> strtol m' bf 0 (if hex then 16 else 10) = Some (x, m')"
proof -
  have args: "fmt_args [it] @ [] = [x]" by (simp add: fmt_args_def assms(5) num_args_ucast)
  obtain sg b v where t: "fmt_text [it] = map ic sg @ map (\<lambda>d. ic (dchar d)) (digits b v)"
    and sg: "sg = [] \<or> sg = ''-''" and b: "b = (if hex then 16 else 10)"
    and v: "word_of_int (if sg = [] then int v else - int v) = x" and v32: "v < 4294967296"
  proof (cases hex)
    case True
    have "num_unsigned 0 (ucast x) = ucast x" by (simp add: num_unsigned_def ucast_ucast_64)
    then have "fmt_text [it] = map (\<lambda>d. ic (dchar d)) (digits 16 (unat x))"
      using True assms(5) by (simp add: fmt_text_def num_text_def unat_ucast_64)
    with True that [of "[]" 16 "unat x"] show ?thesis by simp
  next
    case False
    let ?v = "sint x"
    have r: "- 2147483648 \<le> ?v" "?v < 2147483648" using sint_greater_eq [of x] sint_less [of x] by simp_all
    have "sint (num_signed 0 (ucast x)) = ?v" by (simp add: num_signed_def ucast_ucast_64 sint_scast_64)
    then have "fmt_text [it] = int_text Blank 0 ?v" using False assms(5) by (simp add: fmt_text_def)
    then have "fmt_text [it] = map ic (if ?v < 0 then ''-'' else []) @ map (\<lambda>d. ic (dchar d)) (digits 10 (nat \<bar>?v\<bar>))"
      by (simp add: int_text_def num_text_def)
    moreover have "word_of_int (if ?v < 0 then - int (nat \<bar>?v\<bar>) else int (nat \<bar>?v\<bar>)) = x" by simp
    ultimately show ?thesis using False r that [of "if ?v < 0 then ''-'' else []" 10 "nat \<bar>?v\<bar>"] by (simp split: if_splits)
  qed
  have "length (digits b v) \<le> 10"
    using v32 b by (intro digits_length) (simp_all split: if_splits)
  then have len: "length (fmt_text [it]) \<le> 11" using sg unfolding t by auto
  obtain m' where m': "vsnprintf lit bf (int n) fmt [x] m = Some (Inr (int (length (fmt_text [it])), m'))"
    "mem_read m' bf (min (length (fmt_text [it])) (n - 1) + 1) = map word_of_int (take (n - 1) (fmt_text [it])) @ [0]"
    using vsnprintf_spec [OF assms(1) _ assms(3,4,6), of "[]"] assms(2) len unfolding args by auto
  let ?bs = "map chr sg @ map (\<lambda>d. chr (dchar d)) (digits b v)"
  have bs: "map word_of_int (fmt_text [it]) = ?bs" unfolding t by (simp add: chr_of_ic)
  have "0 \<notin> set ?bs"
  proof -
    have "\<forall>d \<in> set (digits b v). d < 16" using digits_range [of b v] b by (auto split: if_splits)
    then show ?thesis using sg strtol_digit_dchar(2) by (auto simp: chr_def)
  qed
  moreover have "length (fmt_text [it]) \<le> n - 1" using len assms(2) by linarith
  then have "mem_read m' bf (length ?bs + 1) = ?bs @ [0]"
    using m'(2) unfolding bs [symmetric] by (simp add: min_absorb1)
  ultimately have "cstr m' bf ?bs" by (rule cstr_of_read [rotated])
  then have "strtol m' bf 0 (int b) = Some (word_of_int (if map chr sg = [] then int v else - int v), m')"
    using sg b by (intro strtol_of_digits) auto
  then have "strtol m' bf 0 (if hex then 16 else 10) = Some (x, m')" using v b by (simp split: if_splits)
  then show ?thesis using m'(1) by (auto simp: snprintf_def)
qed

text \<open>The number -42 printed in decimal and in hexadecimal.\<close>

definition num_strings :: "string list" where
  "num_strings = literals @ [''%d'', ''%x'']"

lemma num_fmt_ok:
  assumes "it = (if hex then Hex Blank 0 0 x else Signed Blank 0 0 x)"
  shows "fmt_ok {y. \<not> in_reg 0x8000 (16 - 1) y} (slot_mem num_strings) (str_slot num_strings)
    (str_slot num_strings (if hex then ''%x'' else ''%d'')) [it]"
proof -
  have l: "length num_strings = 11" by (simp add: num_strings_def literals_def)
  have "{y. unat y < 0x1000 + 64 * length num_strings} \<subseteq> {y. \<not> in_reg 0x8000 (16 - 1) y}"
  proof (intro subsetI CollectI notI)
    fix y :: u32 assume "y \<in> {y. unat y < 0x1000 + 64 * length num_strings}" "in_reg 0x8000 (16 - 1) y"
    moreover have "in_reg 0x8000 (16 - 1) y \<longleftrightarrow> 0x8000 \<le> unat y \<and> unat y < 0x800F"
      by (subst in_reg_nat) simp_all
    ultimately show False using l by simp
  qed
  then have str: "str_at {y. \<not> in_reg 0x8000 (16 - 1) y} (slot_mem num_strings) (str_slot num_strings t) (map chr t) \<and> str_slot num_strings t \<noteq> 0"
    if "t \<in> set num_strings" for t
  proof -
    have "length t < 64" "\<forall>c \<in> set t. chr c \<noteq> 0"
      using that by (auto simp: num_strings_def literals_def chr_def)
    then show ?thesis using slot_str [OF that] str_at_mono [OF _ \<open>_ \<subseteq> _\<close>] l by simp
  qed
  then have lits: "lits_ok {y. \<not> in_reg 0x8000 (16 - 1) y} (slot_mem num_strings) (str_slot num_strings)"
    unfolding lits_ok_def by (simp add: num_strings_def)
  have "concat (map item_fmt [it]) = map chr (if hex then ''%x'' else ''%d'')"
    using assms by (simp add: field_bytes_none)
  moreover have "(if hex then ''%x'' else ''%d'') \<in> set num_strings" by (simp add: num_strings_def)
  ultimately show ?thesis unfolding fmt_ok_def using lits str assms by simp
qed

theorem snprintf_strtol_witness:
  "(\<exists>k m'. snprintf (str_slot num_strings) 0x8000 (int 16) (str_slot num_strings ''%d'') [- 42] (slot_mem num_strings) = Some (Inr (k, m'))
      \<and> strtol m' 0x8000 0 10 = Some (- 42, m'))
   \<and> (\<exists>k m'. snprintf (str_slot num_strings) 0x8000 (int 16) (str_slot num_strings ''%x'') [- 42] (slot_mem num_strings) = Some (Inr (k, m'))
      \<and> strtol m' 0x8000 0 16 = Some (- 42, m'))"
  using snprintf_strtol [OF _ _ _ _ refl num_fmt_ok [OF refl, where hex = False], of "- 42"]
    snprintf_strtol [OF _ _ _ _ refl num_fmt_ok [OF refl, where hex = True], of "- 42"] by simp

text \<open>C37: \<open>%e\<close> prints the same text for an error number and its negation, the one of the table or
  the number; but for the most negative number, whose negation overflows, it reads the table
  of texts out of bounds.\<close>

theorem error_numbers:
  assumes "cstr m fmt (map chr ''%e'')" and "lits_ok UNIV m lit"
  shows "vprintfmt putch (\<lambda>_. m) lit fmt [x] s
    = (if x = 0x80000000 then Some (Inl OutOfBounds) else map_option Inr (puts putch (error_text \<bar>sint x\<bar>) s))"
proof (cases "x = 0x80000000")
  case True
  have m: "m fmt = chr CHR ''%''" "m (fmt + 1) = chr CHR ''e''" using assms(1) by simp_all
  have "switch_step putch (\<lambda>_. m) lit init_locals (fmt + 1) [x] s = fmt_error lit (fmt + 1 + 1) [x] s"
    using m(2) by (simp add: switch_step_def chr_def)
  then have "vprintfmt_loop putch (\<lambda>_. m) lit (Reswitch init_locals) (fmt + 1) [x] s = Some (Inl OutOfBounds)"
    using True by (subst vprintfmt_loop.simps) (simp add: fmt_error_min)
  then show ?thesis using True loop_scan_percent [of "\<lambda>_. m" s fmt putch lit "[x]"] m(1) by (simp add: vprintfmt_def)
next
  case False
  have "sint x \<noteq> - 2147483648"
  proof
    assume "sint x = - 2147483648"
    then have "(word_of_int (sint x) :: u32) = 0x80000000" by (simp only:) simp
    with False show False by simp
  qed
  moreover have "str_at UNIV m fmt (concat (map item_fmt [ErrorNo x]))" using assms(1) by (simp add: str_at_def)
  ultimately have "fmt_ok UNIV m lit fmt [ErrorNo x]" using assms(2) unfolding fmt_ok_def by simp
  from vprintfmt_const [OF this, of putch "[]" s] False show ?thesis by (simp add: fmt_args_def fmt_text_def)
qed

theorem error_numbers_witness:
  "vprintfmt (\<lambda>c s. Some (s @ [c])) (\<lambda>_. slot_mem (literals @ [''%e''])) (str_slot (literals @ [''%e''])) (str_slot (literals @ [''%e'']) ''%e'') [- 4] []
    = Some (Inr (map ic ''out of memory''))"
proof -
  let ?S = "literals @ [''%e'']"
  have str: "str_at UNIV (slot_mem ?S) (str_slot ?S t) (map chr t) \<and> str_slot ?S t \<noteq> 0" if "t \<in> set ?S" for t
  proof -
    have "length t < 64" "\<forall>c \<in> set t. chr c \<noteq> 0" "length ?S < 1000"
      using that by (auto simp: literals_def chr_def)
    then show ?thesis using slot_str [OF that] str_at_mono [OF _ subset_UNIV] by blast
  qed
  have c: "cstr (slot_mem ?S) (str_slot ?S ''%e'') (map chr ''%e'')"
    using str [of "''%e''"] unfolding str_at_def by (simp del: list.map)
  have l: "lits_ok UNIV (slot_mem ?S) (str_slot ?S)" using str unfolding lits_ok_def by simp
  note e = error_numbers [OF c l, of "\<lambda>c s. Some (s @ [c])" "- 4" "[]"]
  have "error_text 4 = map ic ''out of memory''"
    by (simp add: error_text_def error_string_def MAXERROR_def E_UNSPECIFIED_def E_BAD_ENV_def E_INVAL_def E_NO_MEM_def E_NO_SYS_def)
  then show ?thesis using e by simp
qed

end
