(* ===== verification/Fs.thy ===== *)
theory Fs
  imports Printfmt
begin

text \<open>
  The file system library \<open>lib/fs.c\<close> with \<open>lib/fs.h\<close>: the block bitmap, the block
  allocator and the allocation of a directory slot.

  A bitmap is its bytes by index. A \<open>struct file\<close> is its 512 bytes by address, read through
  the members of the union: data, block numbers of an inode, or directory entries. An
  access outside of an object is a fault. Standard output is the list of the bytes that have been
  printed, passed through the functions that print.
\<close>

section \<open>The bitmap\<close>

type_synonym bitmap = "nat \<Rightarrow> byte"

definition BM_SIZE :: nat where "BM_SIZE = 512 * 256"

definition fs_get_bit :: "bitmap \<Rightarrow> u32 \<Rightarrow> u32 result" where
  "fs_get_bit bm offset =
     (let i = unat (drop_bit 3 offset)
      in if i < BM_SIZE
         then Inr (drop_bit (unat (offset AND 0x7)) (ucast (bm i)) AND 0x1)
         else Inl OutOfBounds)"

definition fs_set_bit :: "bitmap \<Rightarrow> u32 \<Rightarrow> u32 \<Rightarrow> bitmap result" where
  "fs_set_bit bm offset val =
     (let map = ucast (push_bit (unat (offset AND 0x7)) (val AND 0x1)) :: byte;
          mask = ucast (NOT (push_bit (unat (offset AND 0x7)) 1 :: u32)) :: byte;
          i = unat (drop_bit 3 offset)
      in if i < BM_SIZE
         then (let old = bm i in Inr (bm(i := (old AND mask) OR map)))
         else Inl OutOfBounds)"

definition fs_get_blk_sz :: "u32 \<Rightarrow> u32" where
  "fs_get_blk_sz sz = ((sz - 1) div 512) * 512"

text \<open>The printing routines, by the text they print.\<close>

fun putbits :: "nat \<Rightarrow> byte \<Rightarrow> string" where
  "putbits 0 b = []"
| "putbits (Suc n) b = (if b AND 0x1 \<noteq> 0 then CHR ''1'' else CHR ''0'') # putbits n (drop_bit 1 b)"

definition putbyte_chomp :: "byte \<Rightarrow> string" where
  "putbyte_chomp b = putbits 8 b"

definition putbyte :: "byte \<Rightarrow> string" where
  "putbyte b = putbyte_chomp b @ [CHR 0x0A]"

definition putbm :: "bitmap \<Rightarrow> string" where
  "putbm bm = concat (map (\<lambda>i. putbyte_chomp (bm i)) [0..<BM_SIZE]) @ [CHR 0x0A]"

text \<open>Messages: constant text, numbers, and the C string at byte \<open>pos\<close> of an object of 512 bytes, which has to end
  in the object.\<close>

abbreviation say :: "string \<Rightarrow> byte list" where "say \<equiv> map chr"

definition say_nat :: "nat \<Rightarrow> byte list" where
  "say_nat n = say (dec_text n)"

definition say_int :: "int \<Rightarrow> byte list" where
  "say_int i = (if i < 0 then say ''-'' @ say_nat (nat (- i)) else say_nat (nat i))"

definition obj_string :: "mem \<Rightarrow> nat \<Rightarrow> byte list result" where
  "obj_string obj pos =
     (let bs = map (\<lambda>i. obj (of_nat i)) [pos..<512]
      in if 0 \<in> set bs then Inr (takeWhile (\<lambda>b. b \<noteq> 0) bs) else Inl OutOfBounds)"

section \<open>Allocating a block\<close>

text \<open>The search for a byte that is not all ones.\<close>

function find_byte :: "bitmap \<Rightarrow> nat \<Rightarrow> nat option" where
  "find_byte bm i =
     (if i < BM_SIZE then (let mask = NOT (bm i) in if mask \<noteq> 0 then Some i else find_byte bm (i + 1))
      else None)"
  by pat_completeness auto
termination
  by (relation "measure (\<lambda>(bm, i). BM_SIZE - i)") auto

declare find_byte.simps [simp del]

text \<open>The loop that counts the shifts until the mask is zero.\<close>

function shift_count :: "byte \<Rightarrow> int \<Rightarrow> int" where
  "shift_count msk idx = (if msk \<noteq> 0 then shift_count (drop_bit 1 msk) (idx + 1) else idx)"
  by pat_completeness auto
termination
proof (relation "measure (\<lambda>(msk, idx). unat msk)")
  fix msk :: byte and idx :: int
  assume "msk \<noteq> 0"
  then have "unat msk \<noteq> 0" by (simp add: unat_eq_0)
  then show "((drop_bit 1 msk, idx + 1), msk, idx) \<in> measure (\<lambda>(msk, idx). unat msk)"
    by (simp add: unat_drop_bit_eq drop_bit_Suc unat_div)
qed simp

declare shift_count.simps [simp del]

definition fs_alloc_blk :: "bitmap \<Rightarrow> (u32 \<times> bitmap) result" where
  "fs_alloc_blk bm =
     (case find_byte bm 0 of
        None \<Rightarrow> Inr (- 1, bm)
      | Some i \<Rightarrow>
          (let mask = NOT (bm i);
               mask = mask AND (- mask);
               idx = shift_count mask (- 1);
               idx = push_bit 3 (int i) OR idx
           in case fs_set_bit bm (word_of_int idx) 1 of
                Inl e \<Rightarrow> Inl e
              | Inr bm \<Rightarrow> Inr (word_of_int idx, bm)))"

section \<open>Files and directories\<close>

text \<open>The union \<open>struct file\<close>: block number \<open>j\<close> of an inode lies at byte \<open>4 j\<close>; entry \<open>i\<close> of a
  directory lies at byte \<open>32 + 32 i\<close>, its name first, then size and inode number.\<close>

definition inode_off :: "mem \<Rightarrow> nat \<Rightarrow> u32" where
  "inode_off f j = load32 f (of_nat (4 * j))"

definition set_inode_off :: "nat \<Rightarrow> u32 \<Rightarrow> mem \<Rightarrow> mem" where
  "set_inode_off j v f = store32 f (of_nat (4 * j)) v"

definition NR_FILES :: nat where "NR_FILES = 15"

definition entry_addr :: "nat \<Rightarrow> nat" where "entry_addr i = 32 + 32 * i"

definition dir_file_size :: "mem \<Rightarrow> nat \<Rightarrow> u32" where
  "dir_file_size dir i = load32 dir (of_nat (entry_addr i + 24))"

definition dir_inode_off :: "mem \<Rightarrow> nat \<Rightarrow> u32" where
  "dir_inode_off dir i = load32 dir (of_nat (entry_addr i + 28))"

definition set_dir_file_size :: "nat \<Rightarrow> u32 \<Rightarrow> mem \<Rightarrow> mem" where
  "set_dir_file_size i v dir = store32 dir (of_nat (entry_addr i + 24)) v"

definition set_dir_inode_off :: "nat \<Rightarrow> u32 \<Rightarrow> mem \<Rightarrow> mem" where
  "set_dir_inode_off i v dir = store32 dir (of_nat (entry_addr i + 28)) v"

text \<open>\<open>strcpy\<close> of a name to the beginning of an entry; it may run over the entry's end, but a
  name that passes the end of the object is a fault.\<close>

definition copy_name :: "nat \<Rightarrow> byte list \<Rightarrow> mem \<Rightarrow> mem result" where
  "copy_name i basename dir =
     (if entry_addr i + length basename + 1 \<le> 512
      then Inr (mem_write dir (of_nat (entry_addr i)) (basename @ [0]))
      else Inl OutOfBounds)"

function alloc_slot :: "nat \<Rightarrow> bitmap \<Rightarrow> mem \<Rightarrow> byte list \<Rightarrow> u32 \<Rightarrow> byte list \<Rightarrow> (u32 \<times> bitmap \<times> mem \<times> byte list) result" where
  "alloc_slot i bm dir basename filesz out =
     (if i < NR_FILES
      then (if dir_inode_off dir i \<noteq> - 1
            then (case obj_string dir 0 of
                    Inl e \<Rightarrow> Inl e
                  | Inr dir_name \<Rightarrow>
                      (let out = out @ say ''Alloc file `'' @ basename @ say [CHR 0x27] @ say '' in dir `'' @ dir_name
                                   @ say [CHR 0x27] @ say '' slot '' @ say_nat i @ [0x0A]
                       in case copy_name i basename dir of
                            Inl e \<Rightarrow> Inl e
                          | Inr dir \<Rightarrow>
                              (case fs_alloc_blk bm of
                                 Inl e \<Rightarrow> Inl e
                               | Inr (off, bm) \<Rightarrow>
                                   (let dir = set_dir_inode_off i off dir;
                                        dir = set_dir_file_size i filesz dir
                                    in Inr (dir_inode_off dir i, bm, dir, out)))))
            else alloc_slot (i + 1) bm dir basename filesz out)
      else Inr (- 1, bm, dir, out))"
  by pat_completeness auto
termination
  by (relation "measure (\<lambda>(i, bm, dir, basename, filesz, out). NR_FILES - i)") auto

declare alloc_slot.simps [simp del]

definition fs_alloc_file_in_dir :: "bitmap \<Rightarrow> mem \<Rightarrow> byte list \<Rightarrow> u32 \<Rightarrow> byte list \<Rightarrow> (u32 \<times> bitmap \<times> mem \<times> byte list) result" where
  "fs_alloc_file_in_dir bm dir basename filesz out =
     (case obj_string dir 0 of
        Inl e \<Rightarrow> Inl e
      | Inr dir_name \<Rightarrow>
          alloc_slot 0 bm dir basename filesz
            (out @ say ''Try to alloc file `'' @ basename @ say [CHR 0x27] @ say '' in dir `'' @ dir_name @ say [CHR 0x27] @ [0x0A]))"

section \<open>Bits by number\<close>

definition bm_bit :: "bitmap \<Rightarrow> nat \<Rightarrow> bool" where
  "bm_bit bm n = bit (bm (n div 8)) (n mod 8)"

lemma bit_pos:
  "unat (drop_bit 3 (o' :: u32)) = unat o' div 8" "unat (o' AND 0x7) = unat o' mod 8"
proof -
  show "unat (drop_bit 3 o') = unat o' div 8" by (simp add: unat_drop_bit32)
  have "(0x7 :: u32) = mask 3" by (simp add: mask_eq_exp_minus_1)
  then show "unat (o' AND 0x7) = unat o' mod 8" by (simp only: unat_and_mask32) simp
qed

lemma fs_get_bit_spec:
  assumes "unat off < 8 * BM_SIZE"
  shows "fs_get_bit bm off = Inr (of_bool (bm_bit bm (unat off)))"
proof -
  have "drop_bit (unat off mod 8) (ucast (bm (unat off div 8))) AND 1 = (of_bool (bm_bit bm (unat off)) :: u32)"
    by (rule bit_word_eqI) (auto simp: bm_bit_def bit_simps)
  then show ?thesis using assms by (simp add: fs_get_bit_def bit_pos Let_def)
qed

lemma fs_set_bit_spec:
  assumes "unat off < 8 * BM_SIZE"
  shows "\<exists>bm'. fs_set_bit bm off val = Inr bm' \<and> (\<forall>n. bm_bit bm' n = (if n = unat off then odd val else bm_bit bm n))
    \<and> (\<forall>i. i \<noteq> unat off div 8 \<longrightarrow> bm' i = bm i)"
proof -
  let ?k = "unat off mod 8" and ?i = "unat off div 8"
  define b :: byte where "b = (bm ?i AND ucast (NOT (push_bit ?k 1 :: u32))) OR ucast (push_bit ?k (val AND 1))"
  have k: "?k < 8" by simp
  have bits: "bit b m = (if m = ?k then odd val else bit (bm ?i) m)" if "m < 8" for m
    using that k by (auto simp: b_def bit_simps bit_0)
  have "bm_bit (bm(?i := b)) n = (if n = unat off then odd val else bm_bit bm n)" for n
  proof -
    have "n = unat off \<longleftrightarrow> n div 8 = ?i \<and> n mod 8 = ?k" by (metis div_mult_mod_eq)
    then show ?thesis using bits [of "n mod 8"] by (auto simp: bm_bit_def)
  qed
  moreover have "?i < BM_SIZE" using assms by (simp add: less_mult_imp_div_less mult.commute)
  ultimately show ?thesis by (intro exI [of _ "bm(?i := b)"]) (simp add: fs_set_bit_def bit_pos Let_def b_def)
qed

text \<open>Outside of the bitmap both fault.\<close>

lemma fs_bit_fault:
  assumes "8 * BM_SIZE \<le> unat off"
  shows "fs_get_bit bm off = Inl OutOfBounds" "fs_set_bit bm off val = Inl OutOfBounds"
proof -
  have "\<not> unat off div 8 < BM_SIZE" using assms by linarith
  then show "fs_get_bit bm off = Inl OutOfBounds" "fs_set_bit bm off val = Inl OutOfBounds"
    by (simp_all add: fs_get_bit_def fs_set_bit_def bit_pos Let_def)
qed

section \<open>The first free block\<close>

lemma find_byte_spec:
  assumes "i \<le> BM_SIZE"
  shows "case find_byte bm i of
      None \<Rightarrow> \<forall>k. i \<le> k \<and> k < BM_SIZE \<longrightarrow> bm k = - 1
    | Some j \<Rightarrow> i \<le> j \<and> j < BM_SIZE \<and> bm j \<noteq> - 1 \<and> (\<forall>k. i \<le> k \<and> k < j \<longrightarrow> bm k = - 1)"
  using assms
proof (induction "BM_SIZE - i" arbitrary: i)
  case 0
  then show ?case by (subst find_byte.simps) auto
next
  case (Suc d)
  have lt: "i < BM_SIZE" using Suc.hyps(2) by linarith
  have full: "NOT (bm i) = 0 \<longleftrightarrow> bm i = - 1" by (metis bit.compl_one bit.double_compl)
  show ?case
  proof (cases "bm i = - 1")
    case True
    have "find_byte bm i = find_byte bm (i + 1)" using lt full True by (subst find_byte.simps) simp
    moreover have "i \<le> k \<longleftrightarrow> k = i \<or> i + 1 \<le> k" for k by linarith
    moreover have "d = BM_SIZE - (i + 1)" "i + 1 \<le> BM_SIZE" using Suc.hyps(2) lt by simp_all
    ultimately show ?thesis using Suc.hyps(1) [of "i + 1"] True by (auto split: option.splits)
  next
    case False
    then have "find_byte bm i = Some i" using lt full by (subst find_byte.simps) simp
    then show ?thesis using False lt by auto
  qed
qed

lemma shift_count_power:
  "k < 8 \<Longrightarrow> shift_count (push_bit k 1) idx = idx + int k + 1"
proof (induction k arbitrary: idx)
  case 0
  then show ?case by (subst shift_count.simps, subst shift_count.simps) simp
next
  case (Suc k)
  have "drop_bit 1 (push_bit (Suc k) 1 :: byte) = push_bit k 1"
    using Suc.prems by (intro bit_word_eqI) (auto simp: bit_simps)
  moreover have "bit (push_bit (Suc k) 1 :: byte) (Suc k)" using Suc.prems by (simp add: bit_simps)
  then have "push_bit (Suc k) 1 \<noteq> (0 :: byte)" by auto
  ultimately show ?case using Suc by (subst shift_count.simps) simp
qed

text \<open>\<open>mask & -mask\<close> is the lowest set bit.\<close>

lemma lowest_bit:
  fixes m :: byte
  assumes "bit m k" and "\<forall>j < k. \<not> bit m j"
  shows "m AND (- m) = push_bit k 1"
proof -
  let ?q = "drop_bit k m"
  have "k \<le> n" if "bit m n" for n using that assms(2) not_le_imp_less by blast
  then have m: "m = push_bit k ?q" by (intro bit_word_eqI) (auto simp: bit_simps)
  have odd: "bit ?q 0" using assms(1) by (simp add: bit_simps)
  have "?q = (?q AND NOT 1) OR 1"
    using odd by (intro bit_word_eqI) (auto simp: bit_simps)
  also have "\<dots> = (?q AND NOT 1) + 1"
    by (rule disjunctive_add_eq_or [symmetric]) (rule bit_word_eqI, auto simp: bit_simps)
  finally have "?q - 1 = ?q AND NOT 1" by (metis add_diff_cancel)
  then have "- ?q = NOT (?q AND NOT 1)" by (simp only: minus_eq_not_minus_1)
  then have "?q AND - ?q = 1" using odd by (intro bit_word_eqI) (auto simp: bit_simps)
  moreover have "- m = push_bit k (- ?q)" using m by (simp only: push_bit_minus)
  ultimately show ?thesis by (metis m push_bit_and)
qed

lemma byte_lowest_zero:
  fixes b :: byte
  assumes "b \<noteq> - 1"
  shows "\<exists>k < 8. \<not> bit b k \<and> (\<forall>j < k. bit b j)"
proof -
  have "\<exists>k. k < 8 \<and> \<not> bit b k"
  proof (rule ccontr)
    assume *: "\<not> (\<exists>k. k < 8 \<and> \<not> bit b k)"
    have "b = - 1" by (rule bit_word_eqI) (use * in simp)
    with assms show False by simp
  qed
  then obtain k where "k < 8 \<and> \<not> bit b k" "\<forall>j < k. \<not> (j < 8 \<and> \<not> bit b j)"
    using exists_least_iff [of "\<lambda>k. k < 8 \<and> \<not> bit b k"] by blast
  then show ?thesis by (intro exI [of _ k]) auto
qed

lemma push_or_small: "0 \<le> k \<Longrightarrow> k < 8 \<Longrightarrow> push_bit 3 i OR k = 8 * i + (k :: int)"
proof -
  assume k: "0 \<le> k" "k < 8"
  then have m: "take_bit 3 k = k" by (simp add: take_bit_int_eq_self)
  have "push_bit 3 i + k = push_bit 3 i OR k"
    by (rule disjunctive_add_eq_or) (subst m [symmetric], rule bit_eqI, auto simp: bit_simps)
  then show ?thesis by (simp add: push_bit_eq_mult mult.commute)
qed

text \<open>The allocator hands out the lowest free block and marks it, or fails without a change.\<close>

lemma fs_alloc_blk_spec:
  "case fs_alloc_blk bm of
     Inl e \<Rightarrow> False
   | Inr (blk, bm') \<Rightarrow>
       (if \<forall>n < 8 * BM_SIZE. bm_bit bm n then blk = - 1 \<and> bm' = bm
        else unat blk < 8 * BM_SIZE \<and> \<not> bm_bit bm (unat blk) \<and> (\<forall>n < unat blk. bm_bit bm n)
          \<and> (\<forall>n. bm_bit bm' n = (n = unat blk \<or> bm_bit bm n)))"
proof (cases "find_byte bm 0")
  case None
  then have "\<forall>k < BM_SIZE. bm k = - 1" using find_byte_spec [of 0 bm] by simp
  then have "\<forall>n < 8 * BM_SIZE. bm_bit bm n" by (simp add: bm_bit_def less_mult_imp_div_less mult.commute)
  then show ?thesis using None by (simp add: fs_alloc_blk_def)
next
  case (Some i)
  then have i: "i < BM_SIZE" "bm i \<noteq> - 1" "\<forall>k < i. bm k = - 1" using find_byte_spec [of 0 bm] by simp_all
  obtain k where k: "k < 8" "\<not> bit (bm i) k" "\<forall>j < k. bit (bm i) j" using byte_lowest_zero [OF i(2)] by blast
  have low: "NOT (bm i) AND - NOT (bm i) = push_bit k 1"
    using k by (intro lowest_bit) (simp_all add: bit_simps)
  have cnt: "shift_count (push_bit k 1) (- 1) = int k" using shift_count_power [OF k(1), of "- 1"] by simp
  let ?n = "8 * i + k"
  have idx: "push_bit 3 (int i) OR int k = int ?n" using push_or_small [of "int k" "int i"] k(1) by simp
  have n: "?n < 8 * BM_SIZE" using i(1) k(1) by linarith
  have un: "unat (word_of_int (int ?n) :: u32) = ?n"
    using n unat_of_nat32 [of ?n] by (simp add: BM_SIZE_def)
  have free: "\<not> bm_bit bm ?n" "bm_bit bm m" if "m < ?n" for m
  proof -
    show "\<not> bm_bit bm ?n" using k(1,2) by (simp add: bm_bit_def)
    have m: "m = m div 8 * 8 + m mod 8" by simp
    have "m div 8 < i \<or> (m div 8 = i \<and> m mod 8 < k)"
    proof (cases "m div 8 < i")
      case False
      then have "m div 8 = i" using that k(1) m by linarith
      then show ?thesis using that m by linarith
    qed simp
    then show "bm_bit bm m" using i(3) k(3) by (auto simp: bm_bit_def)
  qed
  have nf: "\<not> bm_bit bm ?n" using k(1,2) by (simp add: bm_bit_def)
  obtain bm' where bm': "fs_set_bit bm (word_of_int (int ?n)) 1 = Inr bm'"
    "\<forall>m. bm_bit bm' m = (if m = ?n then odd (1 :: u32) else bm_bit bm m)"
    using fs_set_bit_spec [of "word_of_int (int ?n)" bm 1] n un by auto
  have "fs_alloc_blk bm = Inr (word_of_int (int ?n), bm')"
    using bm'(1) unfolding fs_alloc_blk_def Some option.case Let_def low cnt idx by simp
  moreover have full: "\<not> (\<forall>m < 8 * BM_SIZE. bm_bit bm m)" using nf n by blast
  ultimately show ?thesis unfolding if_not_P [OF full] using n nf free(2) bm'(2) un by (simp add: if_not_P [OF full])
qed

section \<open>The bitmap as a set of blocks\<close>

text \<open>What a bitmap stands for: the numbers of the blocks in use.\<close>

definition used :: "bitmap \<Rightarrow> nat set" where
  "used bm = {n. n < 8 * BM_SIZE \<and> bm_bit bm n}"

text \<open>C36: the accesses to the bitmap refine the operations on the set of used blocks:
  \<open>fs_get_bit\<close> tests membership, \<open>fs_set_bit\<close> inserts or removes exactly the one block by the
  low bit of its value, and both of them reach outside of the bitmap exactly for a block
  number that is not below the number of blocks of the disk.\<close>

theorem fs_bits_refine:
  "fs_get_bit bm off = (if unat off < 8 * BM_SIZE then Inr (of_bool (unat off \<in> used bm)) else Inl OutOfBounds)
   \<and> (case fs_set_bit bm off val of
        Inl e \<Rightarrow> e = OutOfBounds \<and> 8 * BM_SIZE \<le> unat off
      | Inr bm' \<Rightarrow> unat off < 8 * BM_SIZE
          \<and> used bm' = (if odd val then insert (unat off) (used bm) else used bm - {unat off}))"
proof (cases "unat off < 8 * BM_SIZE")
  case True
  obtain bm' where bm': "fs_set_bit bm off val = Inr bm'"
    "\<forall>n. bm_bit bm' n = (if n = unat off then odd val else bm_bit bm n)"
    using fs_set_bit_spec [OF True] by blast
  have "used bm' = (if odd val then insert (unat off) (used bm) else used bm - {unat off})"
    using bm'(2) True by (auto simp: used_def)
  with True bm'(1) show ?thesis by (simp add: fs_get_bit_spec used_def)
next
  case False
  then show ?thesis using fs_bit_fault [of off bm] by simp
qed

lemma full_bitmap: "used bm = {..<8 * BM_SIZE} \<longleftrightarrow> (\<forall>n < 8 * BM_SIZE. bm_bit bm n)"
  by (auto simp: used_def)

text \<open>C12: \<open>fs_alloc_blk\<close> refines the allocator that takes the least unused block: it never
  reaches outside of the bitmap; on a full disk it returns all ones and changes nothing, and
  otherwise it returns the least block that is not in use and adds just that block to the
  used ones.\<close>

theorem fs_alloc_blk_refines:
  "case fs_alloc_blk bm of
     Inl e \<Rightarrow> False
   | Inr (blk, bm') \<Rightarrow>
       if used bm = {..<8 * BM_SIZE} then blk = - 1 \<and> bm' = bm
       else unat blk = (LEAST n. n \<notin> used bm) \<and> unat blk < 8 * BM_SIZE
         \<and> used bm' = insert (unat blk) (used bm)"
proof (cases "fs_alloc_blk bm")
  case (Inl e)
  then show ?thesis using fs_alloc_blk_spec [of bm] by simp
next
  case (Inr r)
  obtain blk bm' where r: "r = (blk, bm')" by (cases r)
  show ?thesis
  proof (cases "used bm = {..<8 * BM_SIZE}")
    case True
    then have full: "\<forall>n < 8 * BM_SIZE. bm_bit bm n" by (simp only: full_bitmap)
    have "blk = - 1 \<and> bm' = bm"
      using fs_alloc_blk_spec [of bm] unfolding Inr r sum.case prod.case if_P [OF full] .
    then show ?thesis unfolding Inr r sum.case prod.case if_P [OF True] .
  next
    case False
    then have full: "\<not> (\<forall>n < 8 * BM_SIZE. bm_bit bm n)" by (simp only: full_bitmap not_False_eq_True)
    have s: "unat blk < 8 * BM_SIZE" "\<not> bm_bit bm (unat blk)" "\<forall>n < unat blk. bm_bit bm n"
      "\<forall>n. bm_bit bm' n = (n = unat blk \<or> bm_bit bm n)"
      using fs_alloc_blk_spec [of bm] unfolding Inr r sum.case prod.case if_not_P [OF full] by blast+
    have "(LEAST n. n \<notin> used bm) = unat blk"
    proof (rule Least_equality)
      show "unat blk \<notin> used bm" using s(2) by (simp add: used_def)
      show "unat blk \<le> n" if "n \<notin> used bm" for n
      proof (rule ccontr)
        assume "\<not> unat blk \<le> n"
        then have "n < unat blk" by simp
        then have "n \<in> used bm" using s(1,3) unfolding used_def by simp
        with that show False by simp
      qed
    qed
    moreover have "used bm' = insert (unat blk) (used bm)" using s(1,4) by (auto simp: used_def)
    ultimately show ?thesis unfolding Inr r sum.case prod.case if_not_P [OF False] using s(1) by simp
  qed
qed

section \<open>Allocating a directory slot\<close>

lemma store32_frame: "\<not> in_reg a 4 x \<Longrightarrow> store32 m a v x = m x"
  by (simp add: store32_apply)

lemma in_reg_small: "unat a + n \<le> 4294967296 \<Longrightarrow> in_reg a n x \<longleftrightarrow> unat a \<le> unat x \<and> unat x < unat a + n"
  by (rule in_reg_nat)

text \<open>The slot: the name with its terminator, the size, the block; the rest is not touched.\<close>

lemma slot_written:
  assumes n: "length nm < 24"
    and d: "dir' = set_dir_file_size 0 sz (set_dir_inode_off 0 blk (mem_write dir (of_nat (entry_addr 0)) (nm @ [0])))"
  shows "dir_inode_off dir' 0 = blk" "dir_file_size dir' 0 = sz"
    and "mem_read dir' 32 (length nm + 1) = nm @ [0]"
    and "unat x < 32 \<or> 64 \<le> unat x \<Longrightarrow> dir' x = dir x"
proof -
  have d': "dir' = store32 (store32 (mem_write dir 32 (nm @ [0])) 60 blk) 56 sz"
    by (simp add: d set_dir_file_size_def set_dir_inode_off_def entry_addr_def)
  show "dir_inode_off dir' 0 = blk"
  proof -
    have "load32 (store32 m 56 sz) 60 = load32 m 60" for m
      by (rule load32_store32_other) (auto simp: in_reg_small)
    then show ?thesis by (simp add: d' dir_inode_off_def entry_addr_def load32_store32_same)
  qed
  show "dir_file_size dir' 0 = sz"
    unfolding d' dir_file_size_def entry_addr_def by (simp add: load32_store32_same)
  have "mem_read dir' 32 (length nm + 1) = mem_read (mem_write dir 32 (nm @ [0])) 32 (length nm + 1)"
    by (rule mem_read_cong) (use n in \<open>simp_all add: d' store32_apply in_reg_small\<close>)
  also have "\<dots> = nm @ [0]" using mem_read_write [of "nm @ [0]" dir 32] n by simp
  finally show "mem_read dir' 32 (length nm + 1) = nm @ [0]" .
  show "dir' x = dir x" if "unat x < 32 \<or> 64 \<le> unat x"
    using that n by (auto simp: d' store32_apply mem_write_apply in_reg_small)
qed

text \<open>The C string at a place: where it was written, and in another object with the same bytes.\<close>

lemma obj_string_read:
  assumes "mem_read m (of_nat pos) (length s + 1) = s @ [0]" and "0 \<notin> set s" and "pos + length s < 512"
  shows "obj_string m pos = Inr s"
proof -
  let ?bs = "map (\<lambda>i. m (of_nat i)) [pos..<512]"
  have nth: "m (of_nat (pos + i)) = (s @ [0]) ! i" if "i < length s + 1" for i
    using mem_read_nth [OF that, of m "of_nat pos"] unfolding assms(1) by simp
  have "take (length s + 1) ?bs = s @ [0]"
  proof (rule nth_equalityI)
    fix i assume "i < length (take (length s + 1) ?bs)"
    then have "i < length s + 1" "pos + i < 512" using assms(3) by simp_all
    moreover from this have "[pos..<512] ! i = pos + i" by (intro nth_upt)
    ultimately show "take (length s + 1) ?bs ! i = (s @ [0]) ! i" using nth [of i] by (simp del: of_nat_add)
  qed (use assms(3) in simp)
  then have bs: "?bs = s @ 0 # drop (length s + 1) ?bs"
    by (metis append_Cons append_Nil append_assoc append_take_drop_id)
  have "x \<noteq> 0" if "x \<in> set s" for x using that assms(2) by metis
  then have t: "takeWhile (\<lambda>b. b \<noteq> 0) ?bs = s"
    by (subst bs) (simp add: takeWhile_append2)
  have "0 \<in> set ?bs"
    by (subst bs) simp
  then show ?thesis unfolding obj_string_def Let_def t by simp
qed

lemma obj_string_cong: "(\<And>x. unat x < 512 \<Longrightarrow> m x = m' x) \<Longrightarrow> obj_string m pos = obj_string m' pos"
proof -
  assume "\<And>x. unat x < 512 \<Longrightarrow> m x = m' x"
  moreover have "unat (of_nat i :: u32) < 512" if "i < 512" for i using that by (subst unat_of_nat32) simp_all
  ultimately have "map (\<lambda>i. m (of_nat i)) [pos..<512] = map (\<lambda>i. m' (of_nat i)) [pos..<512]" by simp
  then show ?thesis by (simp only: obj_string_def)
qed

text \<open>What the two messages say.\<close>

definition alloc_text :: "byte list \<Rightarrow> byte list \<Rightarrow> nat \<Rightarrow> byte list" where
  "alloc_text nm dn i =
     say ''Try to alloc file `'' @ nm @ say [CHR 0x27] @ say '' in dir `'' @ dn @ say [CHR 0x27] @ [0x0A]
     @ say ''Alloc file `'' @ nm @ say [CHR 0x27] @ say '' in dir `'' @ dn @ say [CHR 0x27] @ say '' slot '' @ say_nat i @ [0x0A]"

lemma alloc_slot_0:
  assumes "dir_inode_off dir 0 \<noteq> - 1" "length nm < 24" "fs_alloc_blk bm = Inr (blk, bm')" "obj_string dir 0 = Inr dn"
  shows "fs_alloc_file_in_dir bm dir nm sz out = Inr (blk, bm',
    set_dir_file_size 0 sz (set_dir_inode_off 0 blk (mem_write dir (of_nat (entry_addr 0)) (nm @ [0]))), out @ alloc_text nm dn 0)"
proof -
  have "dir_inode_off (set_dir_file_size 0 sz (set_dir_inode_off 0 blk (mem_write dir (of_nat (entry_addr 0)) (nm @ [0])))) 0 = blk"
    using slot_written(1) [OF assms(2) refl] .
  with assms show ?thesis
    unfolding fs_alloc_file_in_dir_def
    by (subst alloc_slot.simps) (simp add: NR_FILES_def copy_name_def entry_addr_def alloc_text_def)
qed

text \<open>\<open>fs_alloc_file_in_dir\<close> uses slot 0 of the directory whenever its block number is not
  all ones, in particular when it is that of a file that was stored there before. The block
  is the one that \<open>fs_alloc_blk\<close> hands out; name, size and block number are stored in the slot, and
  the directory's name and the other slots keep their contents.\<close>

lemma fs_alloc_file_takes_slot_0:
  assumes "dir_inode_off dir 0 \<noteq> - 1" and "length nm < 24" and "obj_string dir 0 = Inr dn"
  shows "\<exists>blk bm' dir'. fs_alloc_file_in_dir bm dir nm sz out = Inr (blk, bm', dir', out @ alloc_text nm dn 0)
    \<and> fs_alloc_blk bm = Inr (blk, bm')
    \<and> dir_inode_off dir' 0 = blk \<and> dir_file_size dir' 0 = sz
    \<and> mem_read dir' (of_nat (entry_addr 0)) (length nm + 1) = nm @ [0]
    \<and> (\<forall>x. unat x < entry_addr 0 \<or> entry_addr 1 \<le> unat x \<longrightarrow> dir' x = dir x)"
proof -
  obtain blk bm' where a: "fs_alloc_blk bm = Inr (blk, bm')"
    using fs_alloc_blk_spec [of bm] by (auto split: sum.splits)
  note w = slot_written [OF assms(2) refl]
  have "unat x < 32 \<or> 64 \<le> unat x" if "unat x < entry_addr 0 \<or> entry_addr 1 \<le> unat x" for x :: u32
    using that by (simp add: entry_addr_def)
  moreover have "(of_nat (entry_addr 0) :: u32) = 32" by (simp add: entry_addr_def)
  ultimately show ?thesis
    using alloc_slot_0 [OF assms(1,2) a assms(3)] a w(1-3) w(4) by (intro exI conjI allI impI) (assumption | simp)+
qed

text \<open>A second file in a directory replaces the first.\<close>

lemma fs_alloc_file_takes_slot_0_witness:
  "\<exists>blk bm' dir'. fs_alloc_file_in_dir (\<lambda>_. 0) (\<lambda>x. if x = 1 then 0 else 0x62) [0x61] 3 [] = Inr (blk, bm', dir', alloc_text [0x61] [0x62] 0)
    \<and> dir_inode_off dir' 0 = blk \<and> dir_file_size dir' 0 = 3"
proof -
  let ?d = "\<lambda>x :: u32. if x = 1 then 0 else 0x62 :: byte"
  have "dir_inode_off ?d 0 \<noteq> - 1" by (simp add: dir_inode_off_def load32_def entry_addr_def)
  moreover have "obj_string ?d 0 = Inr [0x62]" by (rule obj_string_read) (simp_all add: mem_read_def upt_conv_Cons)
  ultimately show ?thesis using fs_alloc_file_takes_slot_0 [of ?d "[0x61]" "[0x62]" "\<lambda>_. 0" 3 "[]"] by auto
qed

text \<open>A directory whose slots all hold all ones takes no file.\<close>

lemma alloc_slot_none:
  assumes "\<forall>j. i \<le> j \<and> j < NR_FILES \<longrightarrow> dir_inode_off dir j = - 1"
  shows "alloc_slot i bm dir nm sz out = Inr (- 1, bm, dir, out)"
  using assms
proof (induction "NR_FILES - i" arbitrary: i)
  case 0
  then show ?case by (subst alloc_slot.simps) simp
next
  case (Suc k)
  then have "alloc_slot (i + 1) bm dir nm sz out = Inr (- 1, bm, dir, out)" by simp
  with Suc.prems Suc.hyps(2) show ?case by (subst alloc_slot.simps) simp
qed

text \<open>The size that \<open>fs_get_blk_sz\<close> computes is rounded down: one whole block counts as none.\<close>

lemma fs_get_blk_sz_rounds_down:
  assumes "sz \<noteq> 0"
  shows "unat (fs_get_blk_sz sz) = (unat sz - 1) div 512 * 512"
proof -
  have "unat (sz - 1) = unat sz - 1" using assms by (simp add: unat_minus_one)
  moreover have "(unat sz - 1) div 512 * 512 < 4294967296"
    using unat_lt32 [of sz] by (meson div_times_less_eq_dividend le_less_trans less_imp_diff_less)
  ultimately show ?thesis
    unfolding fs_get_blk_sz_def by (simp add: unat_mult_lem [THEN iffD1] unat_div)
qed

lemma fs_get_blk_sz_512: "fs_get_blk_sz 512 = 0" "fs_get_blk_sz 513 = 512"
  by (simp_all add: fs_get_blk_sz_def)

end
