(* ===== verification/FsTest.thy ===== *)
theory FsTest
  imports Fs
begin

text \<open>
  The host programs that make and read a disk, \<open>fs-test/format.c\<close> and \<open>fs-test/extract.c\<close>.

  A file of the host is the list of its bytes. \<open>fwrite\<close> at a position past the end fills the
  gap with zeros, as \<open>fseek\<close> followed by \<open>fwrite\<close> does. \<open>fread\<close> into an object stores the bytes there
  are and leaves the rest of the object as it was; the objects that the programs do not
  initialise are parameters. Positions are 32-bit products, taken as a 64-bit \<open>long\<close>. A stream is
  \<open>None\<close> when the file could not be opened: neither program looks at what \<open>fopen\<close> gives, so the first
  use of such a stream is a fault. Standard output is the list of the bytes that have been printed.
\<close>

section \<open>Files of the host\<close>

type_synonym hostfile = "byte list"

type_synonym stream = "hostfile option"

definition fwrite_at :: "nat \<Rightarrow> byte list \<Rightarrow> hostfile \<Rightarrow> hostfile" where
  "fwrite_at pos bs f = take pos (f @ replicate (pos - length f) 0) @ bs @ drop (pos + length bs) f"

definition fread_at :: "nat \<Rightarrow> nat \<Rightarrow> hostfile \<Rightarrow> byte list" where
  "fread_at pos n f = take n (drop pos f)"

definition fread_obj :: "mem \<Rightarrow> nat \<Rightarrow> nat \<Rightarrow> hostfile \<Rightarrow> mem" where
  "fread_obj obj pos n f = mem_write obj 0 (fread_at pos n f)"

lemma fread_at_fwrite_same: "fread_at pos (length bs) (fwrite_at pos bs f) = bs"
  by (simp add: fread_at_def fwrite_at_def min_def)

lemma fread_at_fwrite_above:
  assumes "pos + length bs \<le> p"
  shows "fread_at p n (fwrite_at pos bs f) = fread_at p n f"
proof -
  have "length (take pos (f @ replicate (pos - length f) 0)) = pos" by simp
  with assms show ?thesis by (simp add: fread_at_def fwrite_at_def)
qed

lemma fread_at_fwrite_below:
  assumes "p + n \<le> pos" "p + n \<le> length f"
  shows "fread_at p n (fwrite_at pos bs f) = fread_at p n f"
proof -
  have "take (n + p) (fwrite_at pos bs f) = take (n + p) f" using assms by (simp add: fwrite_at_def min_def)
  then show ?thesis by (simp add: fread_at_def take_drop)
qed

lemma length_fwrite_at: "length f \<le> pos \<Longrightarrow> length (fwrite_at pos bs f) = pos + length bs"
  by (simp add: fwrite_at_def)

lemma length_fwrite_at_le: "length f \<le> length (fwrite_at pos bs f)"
  by (simp add: fwrite_at_def)

section \<open>format\<close>

text \<open>The number of block numbers an inode has room for.\<close>

definition NR_BLOCKS :: nat where "NR_BLOCKS = (512 - 32) div 4"

text \<open>The loop of \<open>fs_write_file\<close> reads a block of the file at a time; a number past the end of
  the inode's array is a fault.\<close>

function write_blocks :: "hostfile \<Rightarrow> nat \<Rightarrow> nat \<Rightarrow> mem \<Rightarrow> bitmap \<Rightarrow> stream \<Rightarrow>
    (nat \<times> mem \<times> bitmap \<times> stream) result" where
  "write_blocks fp pos idx file bm disk =
     (let got = fread_at pos 512 fp; buffer = got @ replicate (512 - length got) 0
      in if got = [] then Inr (idx, file, bm, disk)
         else (case fs_alloc_blk bm of
                 Inl e \<Rightarrow> Inl e
               | Inr (off, bm) \<Rightarrow>
                   if idx < NR_BLOCKS
                   then (case disk of
                           None \<Rightarrow> Inl OutOfBounds
                         | Some disk \<Rightarrow>
                             write_blocks fp (pos + length got) (idx + 1) (set_inode_off idx off file) bm
                               (Some (fwrite_at (unat (off * 512)) buffer disk)))
                   else Inl OutOfBounds))"
  by pat_completeness auto
termination
  by (relation "measure (\<lambda>(fp, pos, idx, file, bm, disk). length fp - pos)") (auto simp: fread_at_def)

declare write_blocks.simps [simp del]

definition fs_write_file :: "bitmap \<Rightarrow> mem \<Rightarrow> byte list \<Rightarrow> stream \<Rightarrow> stream \<Rightarrow> byte list \<Rightarrow>
    (bitmap \<times> mem \<times> hostfile \<times> byte list) result" where
  "fs_write_file bm dir filename fp disk_fp out =
     (case fp of
        None \<Rightarrow> Inl OutOfBounds
      | Some fp \<Rightarrow>
          (case fs_alloc_file_in_dir bm dir filename (of_nat (length fp)) out of
             Inl e \<Rightarrow> Inl e
           | Inr (ioff, bm, dir, out) \<Rightarrow>
               (let file = (\<lambda>_. 0xcc)
                in case write_blocks fp 0 0 file bm disk_fp of
                     Inl e \<Rightarrow> Inl e
                   | Inr (idx, file, bm, disk_fp) \<Rightarrow>
                       (let out = out @ say ''Totally '' @ say_nat idx @ say '' blocks of data have been written.'' @ [0x0A]
                        in case disk_fp of
                             None \<Rightarrow> Inl OutOfBounds
                           | Some disk \<Rightarrow>
                               Inr (bm, dir, fwrite_at (unat (ioff * 512)) (mem_read file 0 512) disk, out)))))"

text \<open>The loop that marks the blocks of the bitmap itself; \<open>size\<close> (\<open>siz\<close> here) is a \<open>size_t\<close> and the loop ends when
  it is zero.\<close>

partial_function (option) mark_blocks :: "u64 \<Rightarrow> u32 \<Rightarrow> bitmap \<Rightarrow> bitmap result option" where
  "mark_blocks siz idx bm =
     (if siz \<noteq> 0
      then (case fs_set_bit bm idx 1 of
              Inl e \<Rightarrow> Some (Inl e)
            | Inr bm \<Rightarrow> mark_blocks (siz - 512) (idx + 1) bm)
      else Some (Inr bm))"

definition bm_bytes :: "bitmap \<Rightarrow> byte list" where
  "bm_bytes bm = map bm [0..<BM_SIZE]"

definition format_main :: "mem \<Rightarrow> byte list \<Rightarrow> stream \<Rightarrow> stream \<Rightarrow> (hostfile \<times> byte list) result option" where
  "format_main dir0 filename content a_disk =
     (let out = say ''sect size '' @ say_nat 512 @ [0x0A];
          out = out @ say ''bitmap size '' @ say_nat BM_SIZE @ [0x0A];
          out = out @ say ''disk size '' @ say_nat (BM_SIZE * 8 * 512) @ [0x0A];
          size = of_nat BM_SIZE; size = (((size - 1) div 512) + 1) * 512
      in case mark_blocks size 0 (\<lambda>_. 0) of
           None \<Rightarrow> None
         | Some (Inl e) \<Rightarrow> Some (Inl e)
         | Some (Inr bm) \<Rightarrow>
             (let dir = mem_write dir0 0 ([0x68, 0x65, 0x6C, 0x6C, 0x6F] @ [0])
              in case fs_alloc_blk bm of
                   Inl e \<Rightarrow> Some (Inl e)
                 | Inr (off, bm) \<Rightarrow>
                     (let out = out @ say ''wow, I get a block '' @ say_int (sint off) @ [0x0A]
                      in case fs_write_file bm dir filename content a_disk out of
                           Inl e \<Rightarrow> Some (Inl e)
                         | Inr (bm, dir, disk, out) \<Rightarrow>
                             (let disk = fwrite_at 0 (bm_bytes bm) disk;
                                  disk = fwrite_at BM_SIZE (mem_read dir 0 512) disk
                              in Some (Inr (disk, out))))))"

section \<open>extract\<close>

text \<open>The blocks of one file; \<open>filesz\<close> is unsigned and wraps around after the last block.\<close>

function dump_blocks :: "hostfile \<Rightarrow> mem \<Rightarrow> mem \<Rightarrow> nat \<Rightarrow> u32 \<Rightarrow> stream \<Rightarrow> byte list \<Rightarrow> (stream \<times> byte list) result" where
  "dump_blocks disk buffer0 file j filesz dump out =
     (if j < NR_BLOCKS
      then (if inode_off file j \<noteq> 0xcccccccc
            then (let out = out @ say ''The '' @ say_nat j @ say ''th block is at '' @ say_int (sint (inode_off file j * 512)) @ [0x0A];
                      buffer = fread_obj buffer0 (unat (inode_off file j * 512)) 512 disk
                  in case dump of
                       None \<Rightarrow> Inl OutOfBounds
                     | Some dump \<Rightarrow>
                         (let dump = dump @ mem_read buffer 0 (if filesz < 512 then unat filesz else 512)
                          in dump_blocks disk buffer0 file (j + 1) (filesz - 512) (Some dump) out))
            else Inr (dump, out))
      else Inl OutOfBounds)"
  by pat_completeness auto
termination
  by (relation "measure (\<lambda>(disk, buffer0, file, j, filesz, dump, out). NR_BLOCKS - j)") auto

declare dump_blocks.simps [simp del]

fun extract_slots :: "hostfile \<Rightarrow> mem \<Rightarrow> mem \<Rightarrow> mem \<Rightarrow> nat list \<Rightarrow> stream \<Rightarrow> byte list \<Rightarrow> (stream \<times> byte list) result" where
  "extract_slots disk file0 buffer0 root [] dump out = Inr (dump, out)"
| "extract_slots disk file0 buffer0 root (i # is) dump out =
     (if dir_inode_off root i \<noteq> 0
      then (case obj_string root (entry_addr i) of
              Inl e \<Rightarrow> Inl e
            | Inr name \<Rightarrow>
                (let out = out @ say ''read file '' @ name @ [0x0A];
                     ioff = dir_inode_off root i;
                     file = fread_obj file0 (unat (ioff * 512)) 512 disk;
                     filesz = dir_file_size root i;
                     out = out @ say ''filesz '' @ say_nat (unat filesz) @ [0x0A]
                 in case dump_blocks disk buffer0 file 0 filesz dump out of
                      Inl e \<Rightarrow> Inl e
                    | Inr (dump, out) \<Rightarrow> extract_slots disk file0 buffer0 root is dump out))
      else extract_slots disk file0 buffer0 root is dump out)"

definition extract_main :: "mem \<Rightarrow> mem \<Rightarrow> stream \<Rightarrow> stream \<Rightarrow> (stream \<times> byte list) result" where
  "extract_main file0 buffer0 disk dump =
     (case disk of
        None \<Rightarrow> Inl OutOfBounds
      | Some disk \<Rightarrow>
          (let root = fread_obj (\<lambda>_. 0) (min BM_SIZE (length disk)) 512 disk
           in extract_slots disk file0 buffer0 root [0..<NR_FILES] dump []))"

section \<open>Blocks of the disk\<close>

definition block :: "hostfile \<Rightarrow> nat \<Rightarrow> byte list" where
  "block disk n = fread_at (512 * n) 512 disk"

lemma block_pos: "n < 8388608 \<Longrightarrow> unat (of_nat n * 512 :: u32) = 512 * n"
proof -
  assume "n < 8388608"
  then have "unat (of_nat (n * 512) :: u32) = n * 512" by (intro unat_of_nat32) simp
  then show ?thesis by (simp add: mult.commute)
qed

lemma block_write:
  assumes "length bs = 512"
  shows "block (fwrite_at (512 * n) bs disk) n = bs"
    and "n < m \<Longrightarrow> block (fwrite_at (512 * n) bs disk) m = block disk m"
    and "m < n \<Longrightarrow> 512 * (m + 1) \<le> length disk \<Longrightarrow> block (fwrite_at (512 * n) bs disk) m = block disk m"
proof -
  show "block (fwrite_at (512 * n) bs disk) n = bs"
    using fread_at_fwrite_same [of "512 * n" bs disk] assms by (simp add: block_def)
  show "n < m \<Longrightarrow> block (fwrite_at (512 * n) bs disk) m = block disk m"
    unfolding block_def by (rule fread_at_fwrite_above) (use assms in simp)
  show "m < n \<Longrightarrow> 512 * (m + 1) \<le> length disk \<Longrightarrow> block (fwrite_at (512 * n) bs disk) m = block disk m"
    unfolding block_def by (rule fread_at_fwrite_below) simp_all
qed

text \<open>A block that is read back into an object.\<close>

lemma fread_obj_read:
  assumes "length (fread_at pos 512 disk) = 512" "k \<le> 512"
  shows "mem_read (fread_obj obj pos 512 disk) 0 k = take k (fread_at pos 512 disk)"
proof (rule nth_equalityI)
  fix i
  assume "i < length (mem_read (fread_obj obj pos 512 disk) 0 k)"
  then show "mem_read (fread_obj obj pos 512 disk) 0 k ! i = take k (fread_at pos 512 disk) ! i"
    using assms mem_write_nth [of "fread_at pos 512 disk" i obj 0] by (simp add: fread_obj_def)
qed (use assms in simp)

text \<open>An object that was written as a block and is read back.\<close>

lemma fread_obj_of_mem:
  assumes "fread_at pos 512 disk = mem_read m 0 512" "unat x < 512"
  shows "fread_obj obj pos 512 disk x = m x"
proof -
  have "in_reg 0 512 x" using assms(2) by (simp add: in_reg_def)
  then have "fread_obj obj pos 512 disk x = mem_read m 0 512 ! unat x"
    by (simp add: fread_obj_def assms(1) mem_write_apply)
  then show ?thesis using assms(2) by simp
qed

lemma load32_of_mem:
  assumes "fread_at pos 512 disk = mem_read m 0 512" "n + 4 \<le> 512"
  shows "load32 (fread_obj obj pos 512 disk) (of_nat n) = load32 m (of_nat n)"
proof (rule load32_cong)
  fix x assume "in_reg (of_nat n) 4 x"
  moreover have "unat (of_nat n :: u32) = n" using assms(2) by (intro unat_of_nat32) simp
  ultimately have "unat x < 512" using assms(2) by (simp add: in_reg_small)
  then show "fread_obj obj pos 512 disk x = m x" by (rule fread_obj_of_mem [OF assms(1)])
qed

section \<open>The blocks that format uses\<close>

lemma alloc_next:
  assumes "used bm = {..<n}" "n < 8 * BM_SIZE"
  shows "\<exists>bm'. fs_alloc_blk bm = Inr (of_nat n, bm') \<and> used bm' = {..<Suc n}"
proof -
  have bits: "bm_bit bm k \<longleftrightarrow> k < n" if "k < 8 * BM_SIZE" for k
    using assms that unfolding used_def by (metis (mono_tags, lifting) lessThan_iff mem_Collect_eq)
  then have nfull: "\<not> (\<forall>k < 8 * BM_SIZE. bm_bit bm k)" using assms(2) by blast
  obtain blk bm' where r: "fs_alloc_blk bm = Inr (blk, bm')"
    using fs_alloc_blk_spec [of bm] by (auto split: sum.splits)
  then have s: "unat blk < 8 * BM_SIZE" "\<not> bm_bit bm (unat blk)" "\<forall>k < unat blk. bm_bit bm k"
    "\<forall>k. bm_bit bm' k = (k = unat blk \<or> bm_bit bm k)"
    using fs_alloc_blk_spec [of bm] unfolding r sum.case prod.case if_not_P [OF nfull] by blast+
  have "unat blk = n"
  proof (rule linorder_cases [of "unat blk" n])
    assume "unat blk < n"
    then show ?thesis using bits [of "unat blk"] s(1,2) by blast
  next
    assume "n < unat blk"
    then show ?thesis using bits [of n] s(3) assms(2) by blast
  qed
  moreover have "used bm' = insert (unat blk) (used bm)" using s(1,4) by (auto simp: used_def)
  moreover have "blk = of_nat (unat blk)" by simp
  ultimately show ?thesis using r assms(1) by (metis lessThan_Suc)
qed

lemma mark_blocks_marks:
  assumes "used bm = {..<i}" "i + k \<le> 256"
  shows "\<exists>bm'. mark_blocks (of_nat (512 * k)) (of_nat i) bm = Some (Inr bm') \<and> used bm' = {..<i + k}"
  using assms
proof (induction k arbitrary: i bm)
  case 0
  then show ?case by (subst mark_blocks.simps) simp
next
  case (Suc k)
  have ui: "unat (of_nat i :: u32) = i" using Suc.prems(2) by (intro unat_of_nat32) simp
  have "unat (of_nat i :: u32) < 8 * BM_SIZE" using ui Suc.prems(2) by (simp add: BM_SIZE_def)
  from fs_set_bit_spec [OF this, of bm 1] obtain bm1 where bm1: "fs_set_bit bm (of_nat i) 1 = Inr bm1"
    "\<forall>n. bm_bit bm1 n = (if n = i then odd (1 :: u32) else bm_bit bm n)" using ui by auto
  have "used bm1 = insert i (used bm)"
    using bm1(2) Suc.prems(2) by (auto simp: used_def BM_SIZE_def)
  then have "used bm1 = {..<i + 1}" using Suc.prems(1) by (simp add: lessThan_Suc)
  from Suc.IH [OF this] Suc.prems(2) obtain bm' where bm':
    "mark_blocks (of_nat (512 * k)) (of_nat (i + 1)) bm1 = Some (Inr bm')" "used bm' = {..<i + 1 + k}" by auto
  have "unat (of_nat (512 * Suc k) :: u64) = 512 * Suc k"
    using Suc.prems(2) by (simp only: unat_of_nat) (simp add: take_bit_nat_eq_self)
  then have "(of_nat (512 * Suc k) :: u64) \<noteq> 0" by (metis mult_is_0 nat.simps(3) unsigned_0 zero_neq_numeral)
  moreover have "(of_nat (512 * Suc k) :: u64) - 512 = of_nat (512 * k)" by simp
  moreover have "(of_nat i :: u32) + 1 = of_nat (i + 1)" by simp
  ultimately have "mark_blocks (of_nat (512 * Suc k)) (of_nat i) bm = Some (Inr bm')"
    using bm1(1) bm'(1) by (subst mark_blocks.simps) (simp only: sum.case if_True not_False_eq_True)
  then show ?case using bm'(2) by simp
qed

text \<open>Number \<open>k\<close> of the blocks of a file, padded with zeros as it is on the disk, and the number of
  blocks a file has.\<close>

definition data_block :: "hostfile \<Rightarrow> nat \<Rightarrow> byte list" where
  "data_block fp k = fread_at (512 * k) 512 fp @ replicate (512 - length (fread_at (512 * k) 512 fp)) 0"

definition nr_data :: "hostfile \<Rightarrow> nat" where
  "nr_data fp = (length fp + 511) div 512"

lemma length_data_block [simp]: "length (data_block fp k) = 512"
  by (simp add: data_block_def fread_at_def)

lemma nr_data_iff: "512 * k < length fp \<longleftrightarrow> k < nr_data fp"
  unfolding nr_data_def by linarith

text \<open>Blocks \<open>base\<close>, \<open>base + 1\<close>, \<dots> of the disk hold the first \<open>k\<close> blocks of the file, and the inode
  lists them and has no others.\<close>

definition stored :: "nat \<Rightarrow> hostfile \<Rightarrow> nat \<Rightarrow> mem \<Rightarrow> hostfile \<Rightarrow> bool" where
  "stored base fp k file disk \<longleftrightarrow>
     (\<forall>j < k. inode_off file j = of_nat (base + j) \<and> block disk (base + j) = data_block fp j)
     \<and> (\<forall>j. k \<le> j \<and> j < NR_BLOCKS \<longrightarrow> inode_off file j = 0xcccccccc)"

lemma inode_off_set:
  assumes "i < NR_BLOCKS" "j < NR_BLOCKS"
  shows "inode_off (set_inode_off i v file) j = (if i = j then v else inode_off file j)"
proof (cases "i = j")
  case True
  then show ?thesis by (simp add: inode_off_def set_inode_off_def load32_store32_same)
next
  case False
  have u: "unat (of_nat (4 * i) :: u32) = 4 * i" "unat (of_nat (4 * j) :: u32) = 4 * j"
    using assms by (simp_all only: unat_of_nat32 NR_BLOCKS_def)
  have "load32 (store32 file (of_nat (4 * i)) v) (of_nat (4 * j)) = load32 file (of_nat (4 * j))"
  proof (rule load32_store32_other)
    fix x :: u32 assume "in_reg (of_nat (4 * j)) 4 x"
    moreover have "in_reg (of_nat (4 * j)) 4 x \<longleftrightarrow> 4 * j \<le> unat x \<and> unat x < 4 * j + 4"
      "in_reg (of_nat (4 * i)) 4 x \<longleftrightarrow> 4 * i \<le> unat x \<and> unat x < 4 * i + 4"
      using in_reg_small [of "of_nat (4 * j)" 4 x] in_reg_small [of "of_nat (4 * i)" 4 x] assms
      unfolding u NR_BLOCKS_def by simp_all
    ultimately show "\<not> in_reg (of_nat (4 * i)) 4 x" using False by linarith
  qed
  with False show ?thesis by (simp add: inode_off_def set_inode_off_def)
qed

lemma stored_step:
  assumes st: "stored base fp k file disk" and k: "k < NR_BLOCKS"
    and len: "k \<noteq> 0 \<Longrightarrow> length disk = 512 * (base + k)"
  shows "stored base fp (Suc k) (set_inode_off k (of_nat (base + k)) file)
    (fwrite_at (512 * (base + k)) (data_block fp k) disk)"
proof -
  have 1: "inode_off (set_inode_off k v file) j = (if k = j then v else inode_off file j)" if "j < NR_BLOCKS" for j v
    using inode_off_set [OF k that] .
  have 2: "block (fwrite_at (512 * (base + k)) (data_block fp k) disk) (base + j)
      = (if j = k then data_block fp k else block disk (base + j))" if "j \<le> k" for j
    using block_write(1) [of "data_block fp k" "base + k" disk] block_write(3) [of "data_block fp k" "base + j" "base + k" disk]
      that len by simp
  show ?thesis
    unfolding stored_def
  proof (intro conjI allI impI)
    fix j assume j: "j < Suc k"
    then have jn: "j < NR_BLOCKS" and jk: "j \<le> k" using k by simp_all
    show "inode_off (set_inode_off k (of_nat (base + k)) file) j = of_nat (base + j)"
      unfolding 1 [OF jn] using st j unfolding stored_def by (cases "j = k") auto
    show "block (fwrite_at (512 * (base + k)) (data_block fp k) disk) (base + j) = data_block fp j"
      unfolding 2 [OF jk] using st j unfolding stored_def by (cases "j = k") auto
  next
    fix j assume j: "Suc k \<le> j \<and> j < NR_BLOCKS"
    then have jn: "j < NR_BLOCKS" by simp
    show "inode_off (set_inode_off k (of_nat (base + k)) file) j = 0xcccccccc"
      unfolding 1 [OF jn] using st j unfolding stored_def by auto
  qed
qed

lemma write_blocks_stores:
  assumes "stored base fp k ino disk" "used bm = {..<base + k}" "k \<noteq> 0 \<Longrightarrow> length disk = 512 * (base + k)"
    "length disk \<le> 512 * (base + k)" "k \<le> nr_data fp" "nr_data fp \<le> NR_BLOCKS" "base + NR_BLOCKS \<le> 8 * BM_SIZE"
  shows "\<exists>ino' bm' disk'. write_blocks fp (min (512 * k) (length fp)) k ino bm (Some disk) = Inr (nr_data fp, ino', bm', Some disk')
    \<and> stored base fp (nr_data fp) ino' disk' \<and> used bm' = {..<base + nr_data fp}"
  using assms
proof (induction "nr_data fp - k" arbitrary: k ino bm disk)
  case 0
  then have k: "k = nr_data fp" by simp
  then have "\<not> 512 * k < length fp" unfolding nr_data_iff by simp
  then have m: "min (512 * k) (length fp) = length fp" by simp
  have "write_blocks fp (length fp) k ino bm (Some disk) = Inr (k, ino, bm, Some disk)"
    by (subst write_blocks.simps) (simp add: fread_at_def)
  then show ?case using 0 k unfolding m by blast
next
  case (Suc d)
  then have k: "k < nr_data fp" by simp
  then have lt: "512 * k < length fp" by (simp only: nr_data_iff)
  then have m: "min (512 * k) (length fp) = 512 * k" by simp
  have kN: "k < NR_BLOCKS" using k Suc.prems(6) by simp
  have small: "base + k < 8 * BM_SIZE" using kN Suc.prems(7) by simp
  obtain bm1 where bm1: "fs_alloc_blk bm = Inr (of_nat (base + k), bm1)" "used bm1 = {..<Suc (base + k)}"
    using alloc_next [OF Suc.prems(2) small] by blast
  have pos: "unat (of_nat (base + k) * 512 :: u32) = 512 * (base + k)"
    using small by (intro block_pos) (simp add: BM_SIZE_def)
  let ?got = "fread_at (512 * k) 512 fp"
  have got: "?got \<noteq> []" "512 * k + length ?got = min (512 * Suc k) (length fp)"
    using lt by (auto simp: fread_at_def min_def)
  let ?ino = "set_inode_off k (of_nat (base + k)) ino" and ?disk = "fwrite_at (512 * (base + k)) (data_block fp k) disk"
  have step: "write_blocks fp (512 * k) k ino bm (Some disk) = write_blocks fp (min (512 * Suc k) (length fp)) (Suc k) ?ino bm1 (Some ?disk)"
    using bm1(1) got kN pos by (subst write_blocks.simps) (simp add: Let_def data_block_def)
  have len: "length ?disk = 512 * (base + Suc k)" using length_fwrite_at [OF Suc.prems(4)] by simp
  have "\<exists>ino' bm' disk'. write_blocks fp (min (512 * Suc k) (length fp)) (Suc k) ?ino bm1 (Some ?disk) = Inr (nr_data fp, ino', bm', Some disk')
    \<and> stored base fp (nr_data fp) ino' disk' \<and> used bm' = {..<base + nr_data fp}"
  proof (rule Suc.hyps(1))
    show "d = nr_data fp - Suc k" using Suc.hyps(2) by simp
    show "stored base fp (Suc k) ?ino ?disk" by (rule stored_step [OF Suc.prems(1) kN Suc.prems(3)])
    show "used bm1 = {..<base + Suc k}" using bm1(2) by simp
  qed (use k len Suc.prems(6,7) in simp_all)
  then show ?case unfolding m step .
qed

text \<open>A file with more blocks than the inode has room for, on any disk.\<close>

lemma write_blocks_overflow:
  assumes "NR_BLOCKS < nr_data fp" "k \<le> NR_BLOCKS"
  shows "write_blocks fp (512 * k) k ino bm disk = Inl OutOfBounds"
  using assms(2)
proof (induction "NR_BLOCKS - k" arbitrary: k ino bm disk)
  case 0
  then have "512 * k < length fp" using assms(1) nr_data_iff [of k fp] by simp
  then have "fread_at (512 * k) 512 fp \<noteq> []" by (simp add: fread_at_def)
  moreover obtain blk bm' where "fs_alloc_blk bm = Inr (blk, bm')" using fs_alloc_blk_spec [of bm] by (auto split: sum.splits)
  ultimately show ?case using 0 by (subst write_blocks.simps) simp
next
  case (Suc d)
  then have k: "k < NR_BLOCKS" by simp
  then have "512 * Suc k < length fp" using assms(1) nr_data_iff [of "Suc k" fp] by simp
  then have got: "fread_at (512 * k) 512 fp \<noteq> []" "512 * k + length (fread_at (512 * k) 512 fp) = 512 * Suc k"
    by (auto simp: fread_at_def)
  obtain blk bm' where a: "fs_alloc_blk bm = Inr (blk, bm')" using fs_alloc_blk_spec [of bm] by (auto split: sum.splits)
  have "write_blocks fp (512 * Suc k) (Suc k) ino' bm'' disk' = Inl OutOfBounds" for ino' bm'' disk'
    by (rule Suc.hyps(1)) (use Suc.hyps(2) k in simp_all)
  then show ?case using a got k by (subst write_blocks.simps) (simp add: Let_def add.commute split: option.split)
qed

section \<open>extract reads what format wrote\<close>

text \<open>What \<open>extract\<close> prints for the blocks of a file that begins in block \<open>base\<close>.\<close>

definition blocks_text :: "nat \<Rightarrow> nat \<Rightarrow> nat \<Rightarrow> byte list" where
  "blocks_text base k n =
     concat (map (\<lambda>j. say ''The '' @ say_nat j @ say ''th block is at '' @ say_nat (512 * (base + j)) @ [0x0A]) [k..<n])"

lemma say_int_small: "unat (x :: u32) < 2147483648 \<Longrightarrow> say_int (sint x) = say_nat (unat x)"
  by (simp add: sint_small say_int_def)

text \<open>A file of 120 blocks leaves no end mark in the inode's array: \<open>extract\<close> looks behind it.\<close>

lemma dump_blocks_reads:
  assumes "stored base fp (nr_data fp) file disk" "nr_data fp \<le> NR_BLOCKS" "base + NR_BLOCKS \<le> 8 * BM_SIZE" "k \<le> nr_data fp"
  shows "dump_blocks disk buffer0 file k (of_nat (length fp) - of_nat (512 * k)) (Some dump) out
    = (if nr_data fp < NR_BLOCKS then Inr (Some (dump @ drop (512 * k) fp), out @ blocks_text base k (nr_data fp)) else Inl OutOfBounds)"
  using assms(4)
proof (induction "nr_data fp - k" arbitrary: k dump out)
  case 0
  then have "k = nr_data fp" by simp
  moreover from this have "length fp \<le> 512 * k" using nr_data_iff [of k fp] by simp
  ultimately show ?case using assms(1) by (subst dump_blocks.simps) (simp add: stored_def blocks_text_def)
next
  case (Suc d)
  then have k: "k < nr_data fp" by simp
  then have lt: "512 * k < length fp" by (simp only: nr_data_iff)
  have small: "base + k < 8 * BM_SIZE" using k assms(2,3) by simp
  have ino: "inode_off file k = of_nat (base + k)" and blk: "block disk (base + k) = data_block fp k"
    using assms(1) k unfolding stored_def by blast+
  have "unat (of_nat (base + k) :: u32) = base + k"
    using small by (intro unat_of_nat32) (simp add: BM_SIZE_def)
  then have ne: "inode_off file k \<noteq> 0xcccccccc" using small ino by (auto simp: BM_SIZE_def)
  have pos: "unat (of_nat (base + k) * 512 :: u32) = 512 * (base + k)"
    using small by (intro block_pos) (simp add: BM_SIZE_def)
  have "unat (of_nat (base + k) * 512 :: u32) < 2147483648" unfolding pos using small by (simp add: BM_SIZE_def)
  from say_int_small [OF this] have at: "say_int (sint (of_nat (base + k) * 512 :: u32)) = say_nat (512 * (base + k))" unfolding pos .
  let ?sz = "of_nat (length fp) - of_nat (512 * k) :: u32"
  have "length fp \<le> 512 * NR_BLOCKS" using nr_data_iff [of "nr_data fp" fp] assms(2) by simp
  then have usz: "unat ?sz = length fp - 512 * k"
    using lt by (simp only: of_nat_diff [symmetric, OF less_imp_le [OF lt]] unat_of_nat32 NR_BLOCKS_def)
  then have szlt: "?sz < 512 \<longleftrightarrow> length fp - 512 * k < 512" by (simp only: word_less_nat_alt) simp
  let ?n = "if ?sz < 512 then unat ?sz else 512"
  have n: "?n \<le> 512" "?n = min 512 (length fp - 512 * k)" unfolding szlt usz by auto
  have "mem_read (fread_obj buffer0 (512 * (base + k)) 512 disk) 0 ?n = take ?n (data_block fp k)"
    using fread_obj_read [of "512 * (base + k)" disk ?n buffer0] n(1) blk unfolding block_def by simp
  also have "\<dots> = take 512 (drop (512 * k) fp)" unfolding n(2) data_block_def fread_at_def by (simp add: min_def)
  finally have rd: "mem_read (fread_obj buffer0 (512 * (base + k)) 512 disk) 0 ?n = take 512 (drop (512 * k) fp)" .
  have nxt: "?sz - 512 = of_nat (length fp) - of_nat (512 * Suc k)" by simp
  let ?line = "say ''The '' @ say_nat k @ say ''th block is at '' @ say_nat (512 * (base + k)) @ [0x0A]"
  have "dump_blocks disk buffer0 file k ?sz (Some dump) out
      = dump_blocks disk buffer0 file (k + 1) (?sz - 512) (Some (dump @ take 512 (drop (512 * k) fp))) (out @ ?line)"
    using less_le_trans [OF k assms(2)] ne
    by (subst dump_blocks.simps) (simp only: Let_def ino pos at rd if_True not_False_eq_True option.case)
  also have "\<dots> = (if nr_data fp < NR_BLOCKS
      then Inr (Some ((dump @ take 512 (drop (512 * k) fp)) @ drop (512 * Suc k) fp), (out @ ?line) @ blocks_text base (Suc k) (nr_data fp))
      else Inl OutOfBounds)"
    unfolding nxt Suc_eq_plus1 [symmetric] by (rule Suc.hyps(1)) (use Suc.hyps(2) k in simp_all)
  moreover have "drop (512 * Suc k) fp = drop 512 (drop (512 * k) fp)" by simp
  moreover have "blocks_text base k (nr_data fp) = ?line @ blocks_text base (Suc k) (nr_data fp)"
    unfolding blocks_text_def upt_conv_Cons [OF k] by simp
  ultimately show ?case by (simp only: append_assoc append_take_drop_id)
qed

lemma extract_rest:
  assumes "\<forall>i \<in> set is. dir_inode_off root i = 0"
  shows "extract_slots disk file0 buffer0 root is dump out = Inr (dump, out)"
  using assms by (induction "is") simp_all

lemma dir_member_cong:
  assumes "\<forall>x. unat x < 512 \<longrightarrow> m x = m' x" "i < NR_FILES"
  shows "dir_inode_off m i = dir_inode_off m' i" "dir_file_size m i = dir_file_size m' i"
proof -
  have "load32 m (of_nat n) = load32 m' (of_nat n)" if "n + 4 \<le> 512" for n
  proof (rule load32_cong)
    fix x :: u32 assume "in_reg (of_nat n) 4 x"
    moreover have "unat (of_nat n :: u32) = n" using that by (intro unat_of_nat32) simp
    ultimately have "unat x < 512" using that by (simp add: in_reg_small)
    then show "m x = m' x" using assms(1) by blast
  qed
  note ld = this
  show "dir_inode_off m i = dir_inode_off m' i" "dir_file_size m i = dir_file_size m' i"
    unfolding dir_inode_off_def dir_file_size_def
    by (rule ld, use assms(2) in \<open>simp add: entry_addr_def NR_FILES_def\<close>)+
qed

text \<open>What \<open>format\<close> prints.\<close>

definition format_text :: "byte list \<Rightarrow> nat \<Rightarrow> byte list" where
  "format_text nm n =
     say ''sect size 512'' @ [0x0A] @ say ''bitmap size 131072'' @ [0x0A] @ say ''disk size 536870912'' @ [0x0A]
     @ say ''wow, I get a block 256'' @ [0x0A] @ alloc_text nm (say ''hello'') 0
     @ say ''Totally '' @ say_nat n @ say '' blocks of data have been written.'' @ [0x0A]"

lemma format_head:
  "say ''sect size '' @ say_nat 512 = say ''sect size 512''" "say ''bitmap size '' @ say_nat BM_SIZE = say ''bitmap size 131072''"
  "say ''disk size '' @ say_nat (BM_SIZE * 8 * 512) = say ''disk size 536870912''"
  "say ''wow, I get a block '' @ say_int (sint (of_nat 256 :: u32)) = say ''wow, I get a block 256''"
  by (simp_all add: say_int_def say_nat_def dec_text_def digits_ge digits_lt dchar_def BM_SIZE_def)

text \<open>Its directory, first with the name and then with the entry of the file, and the disk it leaves.\<close>

definition named_dir :: "mem \<Rightarrow> mem" where
  "named_dir dir0 = mem_write dir0 0 ([0x68, 0x65, 0x6C, 0x6C, 0x6F] @ [0])"

definition entry_dir :: "mem \<Rightarrow> byte list \<Rightarrow> nat \<Rightarrow> mem" where
  "entry_dir dir0 nm n = set_dir_file_size 0 (of_nat n) (set_dir_inode_off 0 (of_nat 257)
     (mem_write (named_dir dir0) (of_nat (entry_addr 0)) (nm @ [0])))"

definition disk_image :: "bitmap \<Rightarrow> mem \<Rightarrow> mem \<Rightarrow> hostfile \<Rightarrow> hostfile" where
  "disk_image bm dir file disk =
     fwrite_at BM_SIZE (mem_read dir 0 512) (fwrite_at 0 (bm_bytes bm) (fwrite_at (512 * 257) (mem_read file 0 512) disk))"

lemma named_dir_reads:
  "obj_string (named_dir dir0) 0 = Inr (say ''hello'')" "32 \<le> unat x \<Longrightarrow> named_dir dir0 x = dir0 x"
proof -
  have h: "[0x68, 0x65, 0x6C, 0x6C, 0x6F] = say ''hello''" by (simp add: chr_def)
  have "mem_read (named_dir dir0) (of_nat 0) (length (say ''hello'') + 1) = say ''hello'' @ [0]"
    using mem_read_write [of "say ''hello'' @ [0]" dir0 0] unfolding named_dir_def h by simp
  then show "obj_string (named_dir dir0) 0 = Inr (say ''hello'')" by (rule obj_string_read) (simp_all add: chr_def)
  show "32 \<le> unat x \<Longrightarrow> named_dir dir0 x = dir0 x"
    unfolding named_dir_def by (rule mem_write_outside) (simp_all add: in_reg_def)
qed

lemma entry_offset: "i < NR_FILES \<Longrightarrow> unat (of_nat (entry_addr i + 28) :: u32) = entry_addr i + 28"
  by (intro unat_of_nat32) (simp add: entry_addr_def NR_FILES_def)

lemma named_dir_slots: "i < NR_FILES \<Longrightarrow> dir_inode_off (named_dir dir0) i = dir_inode_off dir0 i"
  unfolding dir_inode_off_def using entry_offset [of i]
  by (intro load32_cong named_dir_reads(2)) (auto simp: in_reg_small entry_addr_def NR_FILES_def)

lemma entry_dir_slots:
  assumes "length nm < 24"
  shows "dir_inode_off (entry_dir dir0 nm n) 0 = 257" "dir_file_size (entry_dir dir0 nm n) 0 = of_nat n"
    and "1 \<le> i \<Longrightarrow> i < NR_FILES \<Longrightarrow> dir_inode_off (entry_dir dir0 nm n) i = dir_inode_off dir0 i"
    and "0 \<notin> set nm \<Longrightarrow> obj_string (entry_dir dir0 nm n) (entry_addr 0) = Inr nm"
proof -
  note w = slot_written [OF assms entry_dir_def]
  show "dir_inode_off (entry_dir dir0 nm n) 0 = 257" "dir_file_size (entry_dir dir0 nm n) 0 = of_nat n"
    using w(1,2) by simp_all
  show "dir_inode_off (entry_dir dir0 nm n) i = dir_inode_off dir0 i" if i: "1 \<le> i" "i < NR_FILES"
  proof -
    have "dir_inode_off (entry_dir dir0 nm n) i = dir_inode_off (named_dir dir0) i"
      unfolding dir_inode_off_def using i entry_offset [OF i(2)]
      by (intro load32_cong w(4)) (auto simp: in_reg_small entry_addr_def NR_FILES_def)
    with named_dir_slots [OF i(2)] show ?thesis by simp
  qed
  show "obj_string (entry_dir dir0 nm n) (entry_addr 0) = Inr nm" if "0 \<notin> set nm"
    by (rule obj_string_read) (use w(3) assms that in \<open>simp_all add: entry_addr_def\<close>)
qed

text \<open>The bitmap marks its own 256 blocks, the directory takes the next one and the inode the one after it.\<close>

lemma format_allocs:
  obtains bm0 bm1 bm2 where "mark_blocks (((of_nat BM_SIZE - 1) div 512 + 1) * 512) 0 (\<lambda>_. 0) = Some (Inr bm0)"
    and "fs_alloc_blk bm0 = Inr (of_nat 256, bm1)" and "fs_alloc_blk bm1 = Inr (of_nat 257, bm2)" and "used bm2 = {..<258}"
proof -
  have "mark_blocks (((of_nat BM_SIZE - 1) div 512 + 1) * 512) 0 = mark_blocks (of_nat (512 * 256)) (of_nat 0)"
    by (simp add: BM_SIZE_def)
  moreover have "used (\<lambda>_. 0) = {..<0}" by (simp add: used_def bm_bit_def)
  ultimately obtain bm0 where bm0: "mark_blocks (((of_nat BM_SIZE - 1) div 512 + 1) * 512) 0 (\<lambda>_. 0) = Some (Inr bm0)"
    "used bm0 = {..<256}" using mark_blocks_marks [of "\<lambda>_. 0" 0 256] by auto
  obtain bm1 where bm1: "fs_alloc_blk bm0 = Inr (of_nat 256, bm1)" "used bm1 = {..<257}"
    using alloc_next [OF bm0(2)] by (auto simp: BM_SIZE_def)
  obtain bm2 where bm2: "fs_alloc_blk bm1 = Inr (of_nat 257, bm2)" "used bm2 = {..<258}"
    using alloc_next [OF bm1(2)] by (auto simp: BM_SIZE_def)
  show thesis by (rule that [OF bm0(1) bm1(1) bm2])
qed

text \<open>\<open>format\<close> up to the data and after it.\<close>

lemma format_main_eq:
  obtains bm where "used bm = {..<258}"
    and "\<And>dir0 nm content stream. length nm < 24 \<Longrightarrow> dir_inode_off dir0 0 \<noteq> - 1 \<Longrightarrow>
      format_main dir0 nm (Some content) stream =
        (case write_blocks content 0 0 (\<lambda>_. 0xcc) bm stream of
           Inl e \<Rightarrow> Some (Inl e)
         | Inr (idx, file, bm, None) \<Rightarrow> Some (Inl OutOfBounds)
         | Inr (idx, file, bm, Some disk) \<Rightarrow>
             Some (Inr (disk_image bm (entry_dir dir0 nm (length content)) file disk, format_text nm idx)))"
proof -
  obtain bm0 bm1 bm2 where bm0: "mark_blocks (((of_nat BM_SIZE - 1) div 512 + 1) * 512) 0 (\<lambda>_. 0) = Some (Inr bm0)"
    and bm1: "fs_alloc_blk bm0 = Inr (of_nat 256, bm1)" and bm2: "fs_alloc_blk bm1 = Inr (of_nat 257, bm2)" "used bm2 = {..<258}"
    by (rule format_allocs) (rule that)
  show thesis
  proof (rule that [OF bm2(2)])
    fix dir0 :: mem and nm content :: "byte list" and stream :: stream
    assume nm: "length nm < 24" and d0: "dir_inode_off dir0 0 \<noteq> - 1"
    have "dir_inode_off (named_dir dir0) 0 \<noteq> - 1" using d0 by (simp add: named_dir_slots NR_FILES_def)
    note alloc = alloc_slot_0 [OF this nm bm2(1) named_dir_reads(1)]
    have p: "unat (of_nat 257 * 512 :: u32) = 512 * 257" by simp
    show "format_main dir0 nm (Some content) stream =
        (case write_blocks content 0 0 (\<lambda>_. 0xcc) bm2 stream of
           Inl e \<Rightarrow> Some (Inl e)
         | Inr (idx, file, bm, None) \<Rightarrow> Some (Inl OutOfBounds)
         | Inr (idx, file, bm, Some disk) \<Rightarrow>
             Some (Inr (disk_image bm (entry_dir dir0 nm (length content)) file disk, format_text nm idx)))"
      unfolding format_main_def Let_def bm0(1) option.case sum.case bm1 prod.case fs_write_file_def named_dir_def [symmetric] alloc p
        format_text_def format_head [symmetric] disk_image_def entry_dir_def
      by (simp only: append_assoc split: sum.split prod.split option.split) simp
  qed
qed

lemma format_unopened: "format_main dir0 nm None stream = Some (Inl OutOfBounds)"
proof -
  obtain bm0 bm1 bm2 where "mark_blocks (((of_nat BM_SIZE - 1) div 512 + 1) * 512) 0 (\<lambda>_. 0) = Some (Inr bm0)"
    and "fs_alloc_blk bm0 = Inr (of_nat 256, bm1)" and "fs_alloc_blk bm1 = Inr (of_nat 257, bm2)" and "used bm2 = {..<258}"
    by (rule format_allocs) (rule that)
  then show ?thesis by (simp add: format_main_def fs_write_file_def Let_def)
qed

text \<open>The directory is in block 256, the inode in block 257, the data from block 258 on.\<close>

lemma format_layout:
  assumes nm: "length nm < 24" and d0: "dir_inode_off dir0 0 \<noteq> - 1" and n: "nr_data fp \<le> NR_BLOCKS"
  shows "\<exists>disk file. format_main dir0 nm (Some fp) (Some []) = Some (Inr (disk, format_text nm (nr_data fp)))
    \<and> fread_at BM_SIZE 512 disk = mem_read (entry_dir dir0 nm (length fp)) 0 512 \<and> BM_SIZE + 512 \<le> length disk
    \<and> fread_at (512 * 257) 512 disk = mem_read file 0 512
    \<and> stored 258 fp (nr_data fp) file disk"
proof -
  let ?dir = "entry_dir dir0 nm (length fp)"
  obtain bm where bm: "used bm = {..<258}"
    and eq: "\<And>dir0 nm content stream. length nm < 24 \<Longrightarrow> dir_inode_off dir0 0 \<noteq> - 1 \<Longrightarrow>
      format_main dir0 nm (Some content) stream =
        (case write_blocks content 0 0 (\<lambda>_. 0xcc) bm stream of
           Inl e \<Rightarrow> Some (Inl e)
         | Inr (idx, file, bm, None) \<Rightarrow> Some (Inl OutOfBounds)
         | Inr (idx, file, bm, Some disk) \<Rightarrow>
             Some (Inr (disk_image bm (entry_dir dir0 nm (length content)) file disk, format_text nm idx)))"
    by (rule format_main_eq) (rule that)
  have "inode_off (\<lambda>_. 0xcc) j = 0xcccccccc" for j by (simp add: inode_off_def load32_def)
  then have "stored 258 fp 0 (\<lambda>_. 0xcc) []" by (simp add: stored_def)
  from write_blocks_stores [OF this, of bm] bm n obtain ino0 bm3 disk0 where wb:
    "write_blocks fp 0 0 (\<lambda>_. 0xcc) bm (Some []) = Inr (nr_data fp, ino0, bm3, Some disk0)"
    "stored 258 fp (nr_data fp) ino0 disk0" by (auto simp: NR_BLOCKS_def BM_SIZE_def)
  define disk1 where "disk1 = fwrite_at (512 * 257) (mem_read ino0 0 512) disk0"
  define disk2 where "disk2 = fwrite_at (512 * 0) (bm_bytes bm3) disk1"
  define disk3 where "disk3 = fwrite_at (512 * 256) (mem_read ?dir 0 512) disk2"
  have fm: "format_main dir0 nm (Some fp) (Some []) = Some (Inr (disk3, format_text nm (nr_data fp)))"
    unfolding eq [OF nm d0] wb(1) by (simp add: disk_image_def disk1_def disk2_def disk3_def BM_SIZE_def)
  have above: "block disk3 m = block disk1 m" if "256 < m" for m
  proof -
    have "block disk3 m = block disk2 m"
      unfolding disk3_def using that by (intro block_write(2)) simp_all
    also have "\<dots> = block disk1 m"
      unfolding disk2_def block_def
      by (rule fread_at_fwrite_above) (use that in \<open>simp add: bm_bytes_def BM_SIZE_def\<close>)
    finally show ?thesis .
  qed
  have ino: "block disk3 257 = mem_read ino0 0 512"
    using above [of 257] block_write(1) [of "mem_read ino0 0 512" 257 disk0] by (simp add: disk1_def)
  have "block disk3 (258 + j) = block disk0 (258 + j)" for j
    using above [of "258 + j"] block_write(2) [of "mem_read ino0 0 512" 257 "258 + j" disk0] by (simp add: disk1_def)
  then have st: "stored 258 fp (nr_data fp) ino0 disk3" using wb(2) by (simp add: stored_def)
  have dr: "block disk3 256 = mem_read ?dir 0 512"
    unfolding disk3_def by (rule block_write(1)) simp
  have "length disk3 \<ge> 512 * 256 + 512" by (simp add: disk3_def fwrite_at_def)
  then show ?thesis
    using fm dr ino st unfolding block_def
    by (intro exI [of _ disk3] exI [of _ ino0]) (simp add: BM_SIZE_def)
qed

text \<open>What \<open>extract\<close> prints for the disk.\<close>

definition extract_text :: "byte list \<Rightarrow> hostfile \<Rightarrow> byte list" where
  "extract_text nm fp = say ''read file '' @ nm @ [0x0A] @ say ''filesz '' @ say_nat (length fp) @ [0x0A] @ blocks_text 258 0 (nr_data fp)"

lemma extract_reads:
  assumes rd: "fread_at BM_SIZE 512 disk = mem_read (entry_dir dir0 nm (length fp)) 0 512" "BM_SIZE + 512 \<le> length disk"
    and ino: "fread_at (512 * 257) 512 disk = mem_read ino 0 512" and st: "stored 258 fp (nr_data fp) ino disk"
    and nm: "length nm < 24" "0 \<notin> set nm" and n: "nr_data fp \<le> NR_BLOCKS"
    and rest: "\<forall>i. 1 \<le> i \<and> i < NR_FILES \<longrightarrow> dir_inode_off dir0 i = 0"
  shows "extract_main file0 buffer0 (Some disk) (Some []) =
    (if nr_data fp < NR_BLOCKS then Inr (Some fp, extract_text nm fp) else Inl OutOfBounds)"
proof -
  define root where "root = fread_obj (\<lambda>_. 0) (min BM_SIZE (length disk)) 512 disk"
  have same: "root x = entry_dir dir0 nm (length fp) x" if "unat x < 512" for x
    using fread_obj_of_mem [OF rd(1) that] rd(2) by (simp add: root_def min_def)
  then have "\<forall>x. unat x < 512 \<longrightarrow> root x = entry_dir dir0 nm (length fp) x" by blast
  note dm = dir_member_cong [OF this] and d = entry_dir_slots [OF nm(1)]
  have r: "dir_inode_off root 0 = 257" "dir_file_size root 0 = of_nat (length fp)"
    using dm [of 0] d(1,2) by (simp_all add: NR_FILES_def)
  have name: "obj_string root (entry_addr 0) = Inr nm"
    using obj_string_cong [OF same, where pos = "entry_addr 0"] d(4) [OF nm(2)] by simp
  have zero: "\<forall>i \<in> set [1..<NR_FILES]. dir_inode_off root i = 0"
    using dm(1) d(3) rest by simp
  have "length fp \<le> 512 * NR_BLOCKS" using nr_data_iff [of "nr_data fp" fp] n by simp
  then have len: "unat (of_nat (length fp) :: u32) = length fp" by (intro unat_of_nat32) (simp add: NR_BLOCKS_def)
  define file' where "file' = fread_obj file0 (512 * 257) 512 disk"
  have "inode_off file' j = inode_off ino j" if "j < NR_BLOCKS" for j
    unfolding inode_off_def file'_def by (rule load32_of_mem [OF ino]) (use that in \<open>simp add: NR_BLOCKS_def\<close>)
  then have "stored 258 fp (nr_data fp) file' disk" using st n by (simp add: stored_def)
  from dump_blocks_reads [OF this n, of 0 buffer0 "[]"]
  have dump: "dump_blocks disk buffer0 file' 0 (of_nat (length fp)) (Some []) out
      = (if nr_data fp < NR_BLOCKS then Inr (Some fp, out @ blocks_text 258 0 (nr_data fp)) else Inl OutOfBounds)" for out
    by (simp add: NR_BLOCKS_def BM_SIZE_def)
  have "[0..<NR_FILES] = 0 # [1..<NR_FILES]" by (simp add: NR_FILES_def upt_conv_Cons)
  then show ?thesis
    using r name dump len extract_rest [OF zero, of disk file0 buffer0 "Some fp"]
    by (simp add: extract_main_def root_def [symmetric] file'_def Let_def extract_text_def)
qed

text \<open>C7: \<open>format\<close> and \<open>extract\<close> on a file whose name has fewer than 24 bytes and no NUL, under what \<open>format\<close>
  happens to find in its directory object, which it leaves uninitialised on its stack: the block number of
  slot 0 is not all ones (such a slot is passed over), and those of slots 1 to 14 are zero (\<open>extract\<close>
  follows every slot that is not). Without this the round trip fails. Up to 119 blocks of 512 bytes \<open>format\<close>
  returns a disk image without a fault, and \<open>extract\<close> run on that image writes exactly the bytes of the
  file, whatever was in its own uninitialised objects; both print exactly the expected text. With
  120 blocks the disk is made, but \<open>extract\<close> runs past the block numbers of the inode, since it
  looks for an end mark that is not there. A larger file makes \<open>format\<close> write behind them. A file
  that cannot be opened makes \<open>format\<close> use a null stream.\<close>

theorem extract_format:
  assumes "length nm < 24" and "0 \<notin> set nm"
    and "dir_inode_off dir0 0 \<noteq> - 1" and "\<forall>i. 1 \<le> i \<and> i < NR_FILES \<longrightarrow> dir_inode_off dir0 i = 0"
  shows "(if length fp \<le> 120 * 512
      then \<exists>disk. format_main dir0 nm (Some fp) (Some []) = Some (Inr (disk, format_text nm (nr_data fp)))
        \<and> extract_main file0 buffer0 (Some disk) (Some [])
          = (if length fp \<le> 119 * 512 then Inr (Some fp, extract_text nm fp) else Inl OutOfBounds)
      else format_main dir0 nm (Some fp) (Some []) = Some (Inl OutOfBounds))
    \<and> format_main dir0 nm None (Some []) = Some (Inl OutOfBounds)"
proof (rule conjI)
  have nr: "nr_data fp = (length fp + 511) div 512" "NR_BLOCKS = 120" by (simp_all add: nr_data_def NR_BLOCKS_def)
  have small: "nr_data fp \<le> NR_BLOCKS \<longleftrightarrow> length fp \<le> 120 * 512" "nr_data fp < NR_BLOCKS \<longleftrightarrow> length fp \<le> 119 * 512"
    using nr by linarith+
  show "if length fp \<le> 120 * 512
      then \<exists>disk. format_main dir0 nm (Some fp) (Some []) = Some (Inr (disk, format_text nm (nr_data fp)))
        \<and> extract_main file0 buffer0 (Some disk) (Some [])
          = (if length fp \<le> 119 * 512 then Inr (Some fp, extract_text nm fp) else Inl OutOfBounds)
      else format_main dir0 nm (Some fp) (Some []) = Some (Inl OutOfBounds)"
  proof (cases "nr_data fp \<le> NR_BLOCKS")
    case True
    then show ?thesis
      using format_layout [OF assms(1,3) True] extract_reads [of _ dir0 nm fp _ file0 buffer0, OF _ _ _ _ assms(1,2) True assms(4)]
      unfolding small by auto
  next
    case False
    then have "NR_BLOCKS < nr_data fp" by simp
    from write_blocks_overflow [OF this, of 0]
    have "write_blocks fp 0 0 (\<lambda>_. 0xcc) bm (Some []) = Inl OutOfBounds" for bm by simp
    then have "format_main dir0 nm (Some fp) (Some []) = Some (Inl OutOfBounds)"
      by (rule_tac format_main_eq) (simp add: assms(1,3))
    then show ?thesis using False unfolding small by simp
  qed
qed (rule format_unopened)

text \<open>A name of one letter and a stack of zeros: a file of three bytes, one of 120 blocks and a larger one.\<close>

theorem extract_format_witness:
  "(\<exists>disk. format_main (\<lambda>_. 0) [0x61] (Some [1, 2, 3]) (Some []) = Some (Inr (disk, format_text [0x61] 1))
      \<and> extract_main (\<lambda>_. 0x55) (\<lambda>_. 0xaa) (Some disk) (Some []) = Inr (Some [1, 2, 3],
          say ''read file a'' @ [0x0A] @ say ''filesz 3'' @ [0x0A] @ say ''The 0th block is at 132096'' @ [0x0A]))
    \<and> (\<exists>disk. format_main (\<lambda>_. 0) [0x61] (Some (replicate 61000 7)) (Some []) = Some (Inr (disk, format_text [0x61] 120))
      \<and> extract_main (\<lambda>_. 0x55) (\<lambda>_. 0xaa) (Some disk) (Some []) = Inl OutOfBounds)
    \<and> format_main (\<lambda>_. 0) [0x61] (Some (replicate 70000 7)) (Some []) = Some (Inl OutOfBounds)"
proof -
  have h: "length [0x61 :: byte] < 24" "0 \<notin> set [0x61 :: byte]" "dir_inode_off (\<lambda>_. 0) 0 \<noteq> - 1"
    "\<forall>i. 1 \<le> i \<and> i < NR_FILES \<longrightarrow> dir_inode_off (\<lambda>_. 0) i = 0"
    by (simp_all add: dir_inode_off_def load32_def)
  have n: "nr_data [1, 2, 3] = 1" "nr_data (replicate 61000 7) = 120" by (simp_all add: nr_data_def)
  have t: "extract_text [0x61] [1, 2, 3]
      = say ''read file a'' @ [0x0A] @ say ''filesz 3'' @ [0x0A] @ say ''The 0th block is at 132096'' @ [0x0A]"
    by (simp add: extract_text_def blocks_text_def n say_nat_def dec_text_def digits_ge digits_lt dchar_def) (simp add: chr_def)
  show ?thesis
    using extract_format [of "[0x61]" "\<lambda>_. 0" "[1, 2, 3]" "\<lambda>_. 0x55" "\<lambda>_. 0xaa", OF h, unfolded n t]
      extract_format [of "[0x61]" "\<lambda>_. 0" "replicate 61000 7" "\<lambda>_. 0x55" "\<lambda>_. 0xaa", OF h, unfolded n]
      extract_format [of "[0x61]" "\<lambda>_. 0" "replicate 70000 7" "\<lambda>_. 0x55" "\<lambda>_. 0xaa", OF h]
    by (simp only: length_replicate) simp
qed

end
