(* ===== verification/Print.thy ===== *)
theory Print
  imports Printfmt Serial
begin

text \<open>
  Printing on the serial port, \<open>kernel/print.c\<close>, and the log macros of \<open>kernel/debug.h\<close>. The
  output routine sends a byte with \<open>serial_putchar\<close> and counts; the memory that format and
  strings lie in is only read. \<open>lit\<close> gives the address of a string literal; the macros paste
  their literals together. File, function and line are what the preprocessor puts in.
\<close>

section \<open>kernel/print.c\<close>

definition putchar :: "'d device \<Rightarrow> int \<Rightarrow> 'd \<times> int \<Rightarrow> ('d \<times> int) option" where
  "putchar dv ch st =
     (let (d, count) = st
      in case serial_putchar dv (word_of_int ch) d of
           None \<Rightarrow> None
         | Some d \<Rightarrow> Some (d, wrap (count + 1)))"

definition serial_printf ::
    "'d device \<Rightarrow> (string \<Rightarrow> u32) \<Rightarrow> mem \<Rightarrow> u32 \<Rightarrow> u32 list \<Rightarrow> 'd \<Rightarrow> (int \<times> 'd) result option" where
  "serial_printf dv lit m fmt args d =
     (case vprintfmt (putchar dv) (\<lambda>_. m) lit fmt args (d, 0) of
        None \<Rightarrow> None
      | Some (Inl e) \<Rightarrow> Some (Inl e)
      | Some (Inr (d, n)) \<Rightarrow> Some (Inr (n, d)))"

section \<open>kernel/debug.h\<close>

definition END_COLOR :: string where "END_COLOR = CHR 0x1B # ''[0m''"
definition LOG_COLOR :: string where "LOG_COLOR = CHR 0x1B # ''[38;5;046m''"
definition PANIC_COLOR :: string where "PANIC_COLOR = CHR 0x1B # ''[38;5;160m''"
definition WARN_COLOR :: string where "WARN_COLOR = CHR 0x1B # ''[38;5;166m''"

definition line_fmt :: "string \<Rightarrow> string \<Rightarrow> string" where
  "line_fmt color s = color @ ''[%s#%s:%d] '' @ s @ END_COLOR @ [CHR 0x0A]"

definition LOG :: "'d device \<Rightarrow> (string \<Rightarrow> u32) \<Rightarrow> mem \<Rightarrow> string \<Rightarrow> string \<Rightarrow> u32 \<Rightarrow> string \<Rightarrow> u32 list \<Rightarrow> 'd \<Rightarrow>
    (int \<times> 'd) result option" where
  "LOG dv lit m fl fn line s args d =
     serial_printf dv lit m (lit (line_fmt LOG_COLOR s)) ([lit fl, lit fn, line] @ args) d"

definition LOG_EXPR :: "'d device \<Rightarrow> (string \<Rightarrow> u32) \<Rightarrow> mem \<Rightarrow> string \<Rightarrow> string \<Rightarrow> u32 \<Rightarrow> string \<Rightarrow> u32 \<Rightarrow> 'd \<Rightarrow>
    (int \<times> 'd) result option" where
  "LOG_EXPR dv lit m fl fn line ex v d = LOG dv lit m fl fn line (ex @ '' is 0x%x'') [v] d"

definition WARN :: "'d device \<Rightarrow> (string \<Rightarrow> u32) \<Rightarrow> mem \<Rightarrow> string \<Rightarrow> string \<Rightarrow> u32 \<Rightarrow> string \<Rightarrow> u32 list \<Rightarrow> 'd \<Rightarrow>
    (int \<times> 'd) result option" where
  "WARN dv lit m fl fn line s args d =
     serial_printf dv lit m (lit (line_fmt WARN_COLOR s)) ([lit fl, lit fn, line] @ args) d"

text \<open>\<open>PANIC\<close> sends its line and then spins for ever; the device returned is the one it spins with.\<close>

definition PANIC :: "'d device \<Rightarrow> (string \<Rightarrow> u32) \<Rightarrow> mem \<Rightarrow> string \<Rightarrow> string \<Rightarrow> u32 \<Rightarrow> string \<Rightarrow> u32 list \<Rightarrow> 'd \<Rightarrow>
    'd result option" where
  "PANIC dv lit m fl fn line s args d =
     and_then (serial_printf dv lit m (lit (line_fmt PANIC_COLOR s)) ([lit fl, lit fn, line] @ args) d) (\<lambda>(n, d).
     Some (Inr d))"

section \<open>Sending a text\<close>

interpretation serial_out: text_sink "putchar dv" "\<lambda>_. m" "\<lambda>_. UNIV" for dv m
  by (rule const_sink)

lemma puts_serial:
  "uart_open dv sent ctl d \<Longrightarrow> 0 \<le> n \<Longrightarrow> n + int (length cs) < 2147483648 \<Longrightarrow>
   \<exists>d'. puts (putchar dv) cs (d, n) = Some (d', n + int (length cs)) \<and> sent d' = sent d @ map word_of_int cs \<and> ctl d' = ctl d"
proof (induction cs arbitrary: d n)
  case Nil
  then show ?case by simp
next
  case (Cons c cs)
  obtain d1 where d1: "serial_putchar dv (word_of_int c) d = Some d1" "sent d1 = sent d @ [word_of_int c]" "ctl d1 = ctl d"
    using serial_putchar_spec [OF Cons.prems(1)] by blast
  have "putchar dv c (d, n) = Some (d1, n + 1)" using d1(1) Cons.prems by (simp add: putchar_def)
  moreover obtain d2 where "puts (putchar dv) cs (d1, n + 1) = Some (d2, n + 1 + int (length cs))"
    "sent d2 = sent d1 @ map word_of_int cs" "ctl d2 = ctl d1"
    using Cons.IH [OF uart_open_kept [OF Cons.prems(1) d1(3)], of "n + 1"] Cons.prems(2,3) by auto
  ultimately show ?case using d1(2,3) by (simp add: algebra_simps)
qed

lemma serial_printf_spec:
  assumes "uart_open dv sent ctl d" "fmt_ok UNIV m lit fmt its" "length (fmt_text its) < 2147483648"
  shows "\<exists>d'. serial_printf dv lit m fmt (fmt_args its @ ap) d = Some (Inr (int (length (fmt_text its)), d'))
    \<and> sent d' = sent d @ map word_of_int (fmt_text its) \<and> ctl d' = ctl d"
proof -
  obtain d' where d': "puts (putchar dv) (fmt_text its) (d, 0) = Some (d', int (length (fmt_text its)))"
    "sent d' = sent d @ map word_of_int (fmt_text its)" "ctl d' = ctl d"
    using puts_serial [OF assms(1), of 0 "fmt_text its"] assms(3) by auto
  moreover have "vprintfmt (putchar dv) (\<lambda>_. m) lit fmt (fmt_args its @ ap) (d, 0)
      = map_option Inr (puts (putchar dv) (fmt_text its) (d, 0))"
    using assms(2) unfolding fmt_ok_def fmt_args_def fmt_text_def by (intro serial_out.vprintfmt_prints) simp_all
  ultimately show ?thesis by (simp add: serial_printf_def)
qed

section \<open>A line of the log\<close>

text \<open>Text without a percent sign.\<close>

definition plain :: "string \<Rightarrow> bool" where
  "plain t \<longleftrightarrow> (\<forall>c \<in> set t. chr c \<noteq> 0 \<and> c \<noteq> CHR ''%'')"

lemma chr_inj: "chr c = chr d \<longleftrightarrow> c = d"
proof
  assume "chr c = chr d"
  then have "unat (chr c) = unat (chr d)" by simp
  then show "c = d" by (simp add: chr_def unat_of_nat take_bit_eq_mod)
qed simp

lemma plain_items:
  "concat (map item_fmt (map Plain (map chr t))) = map chr t" "concat (map item_args (map Plain bs)) = []"
  "map word_of_int (concat (map item_text (map Plain bs))) = bs"
  "plain t \<Longrightarrow> \<forall>it \<in> set (map Plain (map chr t)). item_ok ro m it"
proof -
  show "concat (map item_fmt (map Plain (map chr t))) = map chr t" by (induction t) simp_all
  show "concat (map item_args (map Plain bs)) = []" by (induction bs) simp_all
  show "map word_of_int (concat (map item_text (map Plain bs))) = bs" by (induction bs) simp_all
  show "plain t \<Longrightarrow> \<forall>it \<in> set (map Plain (map chr t)). item_ok ro m it"
    by (auto simp: plain_def chr_inj)
qed

definition line_items :: "(string \<Rightarrow> u32) \<Rightarrow> string \<Rightarrow> string \<Rightarrow> string \<Rightarrow> u32 \<Rightarrow> item list \<Rightarrow> item list" where
  "line_items lit color fl fn line its =
     map Plain (map chr (color @ ''['')) @ [Text Blank 0 (lit fl) (map chr fl)] @ map Plain (map chr ''#'')
     @ [Text Blank 0 (lit fn) (map chr fn)] @ map Plain (map chr '':'') @ [Signed Blank 0 0 (ucast line)]
     @ map Plain (map chr ''] '') @ its @ map Plain (map chr (END_COLOR @ [CHR 0x0A]))"

lemma line_items_fmt:
  assumes "concat (map item_fmt its) = map chr s"
  shows "concat (map item_fmt (line_items lit color fl fn line its)) = map chr (line_fmt color s)"
  using assms unfolding line_items_def line_fmt_def map_append concat_append plain_items(1)
  by (simp add: field_bytes_none)

lemma line_items_args:
  "concat (map item_args (line_items lit color fl fn line its)) = [lit fl, lit fn, line] @ concat (map item_args its)"
  unfolding line_items_def map_append concat_append plain_items(2) by (simp add: num_args_ucast)

lemma word_of_sint_byte: "map word_of_int (map sint bs) = (bs :: byte list)"
  by (induction bs) simp_all

lemma line_items_text:
  "map word_of_int (concat (map item_text (line_items lit color fl fn line its)))
    = map chr (color @ ''['' @ fl @ ''#'' @ fn @ '':'') @ map word_of_int (int_text Blank 0 (sint line))
      @ map chr ''] '' @ map word_of_int (concat (map item_text its)) @ map chr (END_COLOR @ [CHR 0x0A])"
proof -
  have "str_text Blank 0 bs = map sint bs" for bs by (simp add: str_text_def)
  moreover have "sint (num_signed 0 (ucast line)) = sint line"
    by (simp add: num_signed_def ucast_ucast_64 sint_scast_64)
  ultimately show ?thesis
    unfolding line_items_def map_append concat_append plain_items(3) by (simp add: word_of_sint_byte del: map_map)
qed

text \<open>A string literal in its place.\<close>

definition placed :: "mem \<Rightarrow> (string \<Rightarrow> u32) \<Rightarrow> string \<Rightarrow> bool" where
  "placed m lit t \<longleftrightarrow> lit t \<noteq> 0 \<and> str_at UNIV m (lit t) (map chr t) \<and> length t < 1000000"

lemma plain_literals: "plain ''[''" "plain ''#''" "plain '':''" "plain ''] ''" "plain (END_COLOR @ [CHR 0x0A])" "plain LOG_COLOR"
  by (simp_all add: plain_def chr_def END_COLOR_def LOG_COLOR_def)

lemma plain_append: "plain (a @ b) \<longleftrightarrow> plain a \<and> plain b"
  by (auto simp: plain_def)

lemma line_items_ok:
  assumes "plain color" "placed m lit fl" "placed m lit fn" "\<forall>it \<in> set its. item_ok UNIV m it"
  shows "\<forall>it \<in> set (line_items lit color fl fn line its). item_ok UNIV m it"
proof -
  have t: "item_ok UNIV m (Text Blank 0 (lit t) (map chr t))" if "placed m lit t" for t
    using that by (simp add: placed_def)
  have n: "item_ok UNIV m (Signed Blank 0 0 x)" for x by simp
  have "plain (color @ ''['')" using assms(1) by (simp add: plain_append plain_literals)
  note p = plain_items(4) [OF this] plain_items(4) [OF plain_literals(2)] plain_items(4) [OF plain_literals(3)]
    plain_items(4) [OF plain_literals(4)] plain_items(4) [OF plain_literals(5)]
  show ?thesis
    unfolding line_items_def set_append ball_Un list.set ball_simps
    using p t [OF assms(2)] t [OF assms(3)] n assms(4) by blast
qed

lemma line_sent:
  assumes "uart_open dv sent ctl d" "lits_ok UNIV m lit" "placed m lit fl" "placed m lit fn"
    and "placed m lit (line_fmt color s)" and color: "plain color" "length color < 100"
    and "concat (map item_fmt its) = map chr s" "\<forall>it \<in> set its. item_ok UNIV m it" "length (concat (map item_text its)) < 1000000000"
  shows "\<exists>n d'. serial_printf dv lit m (lit (line_fmt color s)) ([lit fl, lit fn, line] @ concat (map item_args its)) d = Some (Inr (n, d'))
    \<and> sent d' = sent d @ map chr (color @ ''['' @ fl @ ''#'' @ fn @ '':'') @ map word_of_int (int_text Blank 0 (sint line))
      @ map chr ''] '' @ map word_of_int (concat (map item_text its)) @ map chr (END_COLOR @ [CHR 0x0A]) \<and> ctl d' = ctl d"
proof -
  let ?its = "line_items lit color fl fn line its"
  have "length (digits 10 (nat \<bar>sint line\<bar>)) \<le> 32"
    using sint_greater_eq [of line] sint_less [of line] by (intro digits_length) simp_all
  then have "length (int_text Blank 0 (sint line)) \<le> 33"
    by (cases "sint line < 0") (simp_all add: int_text_def num_text_def)
  moreover have "length (fmt_text ?its) = length (map word_of_int (concat (map item_text ?its)) :: byte list)"
    by (simp add: fmt_text_def)
  ultimately have len: "length (fmt_text ?its) < 2147483648"
    unfolding line_items_text using assms(3,4,10) color(2) by (simp add: placed_def END_COLOR_def)
  have "fmt_ok UNIV m lit (lit (line_fmt color s)) ?its"
    using assms(2,5) line_items_ok [OF color(1) assms(3,4,9)]
    unfolding fmt_ok_def line_items_fmt [OF assms(8)] placed_def by blast
  from serial_printf_spec [OF assms(1) this len, of "[]"] show ?thesis
    unfolding fmt_args_def line_items_args fmt_text_def line_items_text by auto
qed

lemma log_items:
  assumes "uart_open dv sent ctl d" "lits_ok UNIV m lit" "placed m lit fl" "placed m lit fn"
    and "placed m lit (line_fmt LOG_COLOR s)"
    and "concat (map item_fmt its) = map chr s" "\<forall>it \<in> set its. item_ok UNIV m it" "length (concat (map item_text its)) < 1000000000"
  shows "\<exists>n d'. LOG dv lit m fl fn line s (concat (map item_args its)) d = Some (Inr (n, d'))
    \<and> sent d' = sent d @ map chr (LOG_COLOR @ ''['' @ fl @ ''#'' @ fn @ '':'') @ map word_of_int (int_text Blank 0 (sint line))
      @ map chr ''] '' @ map word_of_int (concat (map item_text its)) @ map chr (END_COLOR @ [CHR 0x0A]) \<and> ctl d' = ctl d"
  unfolding LOG_def using assms(8) by (intro line_sent assms plain_literals) (simp_all add: LOG_COLOR_def)

text \<open>The two forms of line, each with its own text.\<close>

lemma plain_line_sent:
  assumes "uart_open dv sent ctl d" and "lits_ok UNIV m lit" and "placed m lit fl" and "placed m lit fn"
    and "placed m lit (line_fmt color s)" and "plain s" and "plain color" and "length color < 100"
  shows "\<exists>n d'. serial_printf dv lit m (lit (line_fmt color s)) [lit fl, lit fn, line] d = Some (Inr (n, d'))
    \<and> sent d' = sent d @ map chr (color @ ''['' @ fl @ ''#'' @ fn @ '':'') @ map word_of_int (int_text Blank 0 (sint line))
      @ map chr (''] '' @ s @ END_COLOR @ [CHR 0x0A]) \<and> ctl d' = ctl d"
proof -
  let ?its = "map Plain (map chr s)"
  note it = plain_items(1) [of s] plain_items(4) [OF assms(6), of UNIV m] plain_items(2) [of "map chr s"] plain_items(3) [of "map chr s"]
  have "length (concat (map item_text ?its)) = length s"
    by (metis it(4) length_map)
  then have len: "length (concat (map item_text ?its)) < 1000000000"
    using assms(5) by (simp add: placed_def line_fmt_def)
  from line_sent [OF assms(1-5,7,8) it(1,2) len, of line] show ?thesis unfolding it(3,4) by simp
qed

lemma log_line_sent:
  assumes "uart_open dv sent ctl d" and "lits_ok UNIV m lit" and "placed m lit fl" and "placed m lit fn"
    and "placed m lit (line_fmt LOG_COLOR s)" and "plain s"
  shows "\<exists>n d'. LOG dv lit m fl fn line s [] d = Some (Inr (n, d'))
    \<and> sent d' = sent d @ map chr (LOG_COLOR @ ''['' @ fl @ ''#'' @ fn @ '':'') @ map word_of_int (int_text Blank 0 (sint line))
      @ map chr (''] '' @ s @ END_COLOR @ [CHR 0x0A]) \<and> ctl d' = ctl d"
  unfolding LOG_def append_Nil2 by (intro plain_line_sent assms plain_literals) (simp add: LOG_COLOR_def)

lemma panic_sent:
  assumes "uart_open dv sent ctl d" and "lits_ok UNIV m lit" and "placed m lit fl" and "placed m lit fn"
    and "placed m lit (line_fmt PANIC_COLOR s)" and "plain s"
  shows "\<exists>d'. PANIC dv lit m fl fn line s [] d = Some (Inr d')
    \<and> sent d' = sent d @ map chr (PANIC_COLOR @ ''['' @ fl @ ''#'' @ fn @ '':'') @ map word_of_int (int_text Blank 0 (sint line))
      @ map chr (''] '' @ s @ END_COLOR @ [CHR 0x0A]) \<and> ctl d' = ctl d"
proof -
  have "plain PANIC_COLOR" "length PANIC_COLOR < 100" by (simp_all add: PANIC_COLOR_def plain_def chr_def)
  from plain_line_sent [OF assms this, of line] show ?thesis unfolding PANIC_def append_Nil2 by auto
qed

lemma log_expr_sent:
  assumes "uart_open dv sent ctl d" and "lits_ok UNIV m lit" and "placed m lit fl" and "placed m lit fn"
    and "placed m lit (line_fmt LOG_COLOR (ex @ '' is 0x%x''))" and "plain ex"
  shows "\<exists>n d'. LOG_EXPR dv lit m fl fn line ex v d = Some (Inr (n, d'))
    \<and> sent d' = sent d @ map chr (LOG_COLOR @ ''['' @ fl @ ''#'' @ fn @ '':'') @ map word_of_int (int_text Blank 0 (sint line))
      @ map chr (''] '' @ ex @ '' is 0x'') @ map (\<lambda>d. chr (dchar d)) (digits 16 (unat v)) @ map chr (END_COLOR @ [CHR 0x0A]) \<and> ctl d' = ctl d"
proof -
  let ?its = "map Plain (map chr (ex @ '' is 0x'')) @ [Hex Blank 0 0 (ucast v)]"
  have "plain (ex @ '' is 0x'')" using assms(6) by (simp add: plain_append) (simp add: plain_def chr_def)
  note ok = plain_items(4) [OF this]
  have fmt: "concat (map item_fmt ?its) = map chr (ex @ '' is 0x%x'')"
    unfolding map_append [of item_fmt] concat_append plain_items(1) by (simp add: field_bytes_none)
  have args: "concat (map item_args ?its) = [v]"
    unfolding map_append [of item_args] concat_append plain_items(2) by (simp add: num_args_ucast)
  have "num_unsigned 0 (ucast v) = ucast v" by (simp add: num_unsigned_def ucast_ucast_64)
  then have tx: "map word_of_int (concat (map item_text ?its)) = map chr (ex @ '' is 0x'') @ map (\<lambda>d. chr (dchar d)) (digits 16 (unat v))"
    unfolding map_append [of item_text] concat_append map_append [of word_of_int] plain_items(3)
    by (simp add: num_text_def unat_ucast_64 chr_of_ic)
  have "length (digits 16 (unat v)) \<le> 32"
    using unat_lt32 [of v] by (intro digits_length) (simp_all del: unat_lt32)
  moreover have "length (concat (map item_text ?its)) = length (map word_of_int (concat (map item_text ?its)) :: byte list)" by simp
  ultimately have len: "length (concat (map item_text ?its)) < 1000000000"
    unfolding tx using assms(5) by (simp add: placed_def line_fmt_def)
  have "\<forall>it \<in> set ?its. item_ok UNIV m it" using ok by simp
  from log_items [OF assms(1-5) fmt this len, of line] show ?thesis
    unfolding LOG_EXPR_def args tx by simp
qed

section \<open>Properties\<close>

text \<open>C38: on a UART whose line is open, \<open>serial_printf\<close> returns, sends the text of the format, complete
  and in order, and returns the number of characters sent. The UART takes a byte only when its
  transmitter is empty, so this needs the wait before every byte.\<close>

theorem serial_printf_sends:
  assumes "uart_laws dv sent ctl" and "line_open (ctl d)" and "fmt_ok UNIV m lit fmt its" and "length (fmt_text its) < 2147483648"
  shows "\<exists>d'. serial_printf dv lit m fmt (fmt_args its @ ap) d = Some (Inr (int (length (fmt_text its)), d'))
    \<and> sent d' = sent d @ map word_of_int (fmt_text its) \<and> ctl d' = ctl d"
  by (rule serial_printf_spec [OF _ assms(3,4)]) (simp add: uart_open_def assms(1,2))

text \<open>After \<open>init_serial\<close>, on the UART that loses what is written to it while it is busy.\<close>

theorem serial_printf_sends_witness:
  "\<exists>d'. serial_printf sim_uart (str_slot demo_strings) (slot_mem demo_strings) (str_slot demo_strings ''%5d|%-6s|%e'')
       (fmt_args demo_items @ []) (init_serial sim_uart uart_start) = Some (Inr (27, d'))
    \<and> u_sent d' = map chr ''-   42|ok    |out of memory''"
proof -
  have "length (fmt_text demo_items) = 27" unfolding demo_text by simp
  then show ?thesis
    using serial_printf_sends [OF sim_uart_laws uart_ready_state(3) fmt_ok_mono [OF demo_fmt_ok subset_UNIV], of "[]"] uart_ready_state(1)
    unfolding demo_text uart_ready_def by (auto simp: chr_def)
qed

text \<open>A \<open>LOG_EXPR\<close> line returns and goes out as the coloured text
  \<open>[file#function:line] expr is 0x...\<close>, with the line in decimal, the value in hexadecimal, the
  colour reset and a newline, for every expression without a percent sign in its source text
  (one that has a percent sign would be taken for a conversion).\<close>

lemma log_expr_line:
  assumes "uart_open dv sent ctl d" and "lits_ok UNIV m lit" and "placed m lit fl" and "placed m lit fn"
    and "placed m lit (line_fmt LOG_COLOR (ex @ '' is 0x%x''))" and "plain ex"
  shows "\<exists>n d'. LOG_EXPR dv lit m fl fn line ex v d = Some (Inr (n, d'))
    \<and> sent d' = sent d @ map chr (LOG_COLOR @ ''['' @ fl @ ''#'' @ fn @ '':'') @ map word_of_int (int_text Blank 0 (sint line))
      @ map chr (''] '' @ ex @ '' is 0x'') @ map (\<lambda>d. chr (dchar d)) (digits 16 (unat v)) @ map chr (END_COLOR @ [CHR 0x0A]) \<and> ctl d' = ctl d"
  by (rule log_expr_sent [OF assms])

text \<open>The line that \<open>init_page\<close> prints for the start of the kernel.\<close>

definition log_strings :: "string list" where
  "log_strings = literals @ [''kernel/page.c'', ''init_page'', line_fmt LOG_COLOR ''start is 0x%x'']"

lemma log_placed:
  assumes "t \<in> set log_strings"
  shows "placed (slot_mem log_strings) (str_slot log_strings) t"
proof -
  have l: "length t < 64" "\<forall>c \<in> set t. chr c \<noteq> 0" "length log_strings < 1000"
    using assms by (auto simp: log_strings_def literals_def line_fmt_def LOG_COLOR_def END_COLOR_def chr_def)
  have "length t < 1000000" by (rule less_trans [OF l(1)]) simp
  then show ?thesis using slot_str [OF assms l(1,3,2)] str_at_mono [OF _ subset_UNIV] unfolding placed_def by blast
qed

lemma log_expr_line_witness:
  "\<exists>n d'. LOG_EXPR sim_uart (str_slot log_strings) (slot_mem log_strings) ''kernel/page.c'' ''init_page'' 61 ''start'' 0x100000 uart_ready
       = Some (Inr (n, d'))
    \<and> u_sent d' = map chr (LOG_COLOR @ ''[kernel/page.c#init_page:61] start is 0x100000'' @ END_COLOR @ [CHR 0x0A])"
proof -
  have lits: "lits_ok UNIV (slot_mem log_strings) (str_slot log_strings)"
    using log_placed unfolding lits_ok_def placed_def by (simp add: log_strings_def)
  have p: "placed (slot_mem log_strings) (str_slot log_strings) ''kernel/page.c''"
    "placed (slot_mem log_strings) (str_slot log_strings) ''init_page''"
    "placed (slot_mem log_strings) (str_slot log_strings) (line_fmt LOG_COLOR (''start'' @ '' is 0x%x''))"
    by (rule log_placed, simp add: log_strings_def)+
  have pl: "plain ''start''" by (simp add: plain_def chr_def)
  have "int_text Blank 0 61 = map ic ''61''" by (simp add: int_text_def num_text_def digits_ge digits_lt dchar_def)
  moreover have "map (\<lambda>d. chr (dchar d)) (digits 16 0x100000) = map chr ''100000''"
    by (simp add: digits_ge digits_lt dchar_def)
  ultimately show ?thesis
    using log_expr_line [OF uart_ready_open lits p pl, of 61 "0x100000"] uart_ready_state(1)
    by (auto simp: chr_def)
qed

end
