(* ===== verification/Cpu.thy ===== *)
theory Cpu
  imports Video
begin

text \<open>
  The processor's registers as \<open>inc/x86.h\<close> reads and writes them, with the flags of
  \<open>inc/mmu.h\<close>, and the translation cache (TLB) that stands between an access and the page
  tables: an entry of the cache stays in use until \<open>cr3\<close> is loaded or \<open>invlpg\<close> drops it,
  and only translations that exist are cached. The kernel changes page tables after paging is on
  without flushing, and this theory shows when that is safe.
\<close>

section \<open>Flags\<close>

definition CR0_PE :: u32 where "CR0_PE = 0x00000001"

definition FL_CF :: u32 where "FL_CF = 0x00000001"
definition FL_PF :: u32 where "FL_PF = 0x00000004"
definition FL_AF :: u32 where "FL_AF = 0x00000010"
definition FL_ZF :: u32 where "FL_ZF = 0x00000040"
definition FL_SF :: u32 where "FL_SF = 0x00000080"
definition FL_TF :: u32 where "FL_TF = 0x00000100"
definition FL_IF :: u32 where "FL_IF = 0x00000200"
definition FL_DF :: u32 where "FL_DF = 0x00000400"
definition FL_OF :: u32 where "FL_OF = 0x00000800"
definition FL_IOPL_MASK :: u32 where "FL_IOPL_MASK = 0x00003000"
definition FL_NT :: u32 where "FL_NT = 0x00004000"
definition FL_RF :: u32 where "FL_RF = 0x00010000"
definition FL_VM :: u32 where "FL_VM = 0x00020000"
definition FL_AC :: u32 where "FL_AC = 0x00040000"
definition FL_ID :: u32 where "FL_ID = 0x00200000"

lemmas FL_defs = FL_CF_def FL_PF_def FL_AF_def FL_ZF_def FL_SF_def FL_TF_def FL_IF_def FL_DF_def FL_OF_def
  FL_IOPL_MASK_def FL_NT_def FL_RF_def FL_VM_def FL_AC_def FL_ID_def

text \<open>What \<open>popfl\<close> changes in ring 0.\<close>

definition fl_writable :: u32 where
  "fl_writable = FL_CF OR FL_PF OR FL_AF OR FL_ZF OR FL_SF OR FL_TF OR FL_IF OR FL_DF OR FL_OF OR FL_IOPL_MASK
     OR FL_NT OR FL_AC OR FL_ID"

lemma fl_writable_val: "fl_writable = 0x00247FD5"
  by (simp add: fl_writable_def FL_defs)

section \<open>Registers\<close>

record regs =
  x_cr0 :: u32
  x_cr2 :: u32
  x_cr3 :: u32
  x_cr4 :: u32
  x_eflags :: u32
  x_ebp :: u32
  x_esp :: u32
  x_ldtr :: u16
  x_gdtr :: "u16 \<times> u32"
  x_idtr :: "u16 \<times> u32"
  x_tsc :: u64
  x_tlb :: "u32 \<Rightarrow> u32 option"
  x_mem :: mem

definition breakpoint :: "(nat \<Rightarrow> 's \<Rightarrow> 's) \<Rightarrow> 's \<Rightarrow> 's" where
  "breakpoint trap s = trap 3 s"

definition invlpg :: "u32 \<Rightarrow> regs \<Rightarrow> regs" where
  "invlpg addr s = s\<lparr>x_tlb := (x_tlb s)(PGNUM addr := None)\<rparr>"

definition lidt :: "u32 \<Rightarrow> regs \<Rightarrow> regs" where
  "lidt p s = s\<lparr>x_idtr := (load16 (x_mem s) p, load32 (x_mem s) (p + 2))\<rparr>"

definition lgdt :: "u32 \<Rightarrow> regs \<Rightarrow> regs" where
  "lgdt p s = s\<lparr>x_gdtr := (load16 (x_mem s) p, load32 (x_mem s) (p + 2))\<rparr>"

definition lldt :: "u16 \<Rightarrow> regs \<Rightarrow> regs" where
  "lldt sel s = s\<lparr>x_ldtr := sel\<rparr>"

text \<open>A change of the paging bit empties the translation cache.\<close>

definition lcr0 :: "u32 \<Rightarrow> regs \<Rightarrow> regs" where
  "lcr0 val s = s\<lparr>x_cr0 := val, x_tlb := (if (val XOR x_cr0 s) AND CR0_PG = 0 then x_tlb s else (\<lambda>_. None))\<rparr>"

definition rcr0 :: "regs \<Rightarrow> u32" where "rcr0 s = x_cr0 s"
definition rcr2 :: "regs \<Rightarrow> u32" where "rcr2 s = x_cr2 s"

definition lcr3 :: "u32 \<Rightarrow> regs \<Rightarrow> regs" where
  "lcr3 val s = s\<lparr>x_cr3 := val, x_tlb := (\<lambda>_. None)\<rparr>"

definition rcr3 :: "regs \<Rightarrow> u32" where "rcr3 s = x_cr3 s"

definition lcr4 :: "u32 \<Rightarrow> regs \<Rightarrow> regs" where
  "lcr4 val s = s\<lparr>x_cr4 := val, x_tlb := (\<lambda>_. None)\<rparr>"

definition rcr4 :: "regs \<Rightarrow> u32" where "rcr4 s = x_cr4 s"

definition tlbflush :: "regs \<Rightarrow> regs" where
  "tlbflush s = (let cr3 = rcr3 s in lcr3 cr3 s)"

text \<open>\<open>pushfl\<close> stores the flags without the virtual-8086 and resume flags; \<open>popfl\<close> keeps the
  former and clears the latter.\<close>

definition read_eflags :: "regs \<Rightarrow> u32" where
  "read_eflags s = x_eflags s AND NOT (FL_VM OR FL_RF)"

definition write_eflags :: "u32 \<Rightarrow> regs \<Rightarrow> regs" where
  "write_eflags eflags s = s\<lparr>x_eflags := (eflags AND fl_writable) OR (x_eflags s AND FL_VM) OR 2\<rparr>"

definition read_ebp :: "regs \<Rightarrow> u32" where "read_ebp s = x_ebp s"
definition read_esp :: "regs \<Rightarrow> u32" where "read_esp s = x_esp s"

text \<open>The processor's identification is a parameter.\<close>

definition cpuid :: "(u32 \<Rightarrow> u32 \<times> u32 \<times> u32 \<times> u32) \<Rightarrow> u32 \<Rightarrow> u32 \<Rightarrow> u32 \<Rightarrow> u32 \<Rightarrow> u32 \<Rightarrow> mem \<Rightarrow> mem" where
  "cpuid ident info eaxp ebxp ecxp edxp m =
     (let (eax, ebx, ecx, edx) = ident info;
          m = (if eaxp \<noteq> 0 then store32 m eaxp eax else m);
          m = (if ebxp \<noteq> 0 then store32 m ebxp ebx else m);
          m = (if ecxp \<noteq> 0 then store32 m ecxp ecx else m);
          m = (if edxp \<noteq> 0 then store32 m edxp edx else m)
      in m)"

definition read_tsc :: "regs \<Rightarrow> u64" where "read_tsc s = x_tsc s"

definition xchg :: "u32 \<Rightarrow> u32 \<Rightarrow> mem \<Rightarrow> u32 \<times> mem" where
  "xchg addr newval m = (load32 m addr, store32 m addr newval)"

section \<open>What the register functions do\<close>

text \<open>Flags: a word that was read can be written back, and the flags that ring 0 may change
  read back as written.\<close>

definition eflags_wf :: "u32 \<Rightarrow> bool" where
  "eflags_wf x \<longleftrightarrow> x AND NOT (fl_writable OR FL_VM) = 2"

lemma and_zero_bit: "x AND y = 0 \<Longrightarrow> bit (x :: 'a::len word) n \<Longrightarrow> \<not> bit y n"
proof
  assume z: "x AND y = 0" and b: "bit x n" "bit y n"
  have "bit (x AND y) n" unfolding bit_and_iff using b by (rule conjI)
  then show False unfolding z by simp
qed

lemma eflags_roundtrip:
  assumes "eflags_wf (x_eflags s)"
  shows "write_eflags (read_eflags s) s = s"
proof -
  have vm: "fl_writable AND FL_VM = 0" "fl_writable AND FL_RF = 0" by (simp_all add: fl_writable_val FL_defs)
  have "bit ((read_eflags s AND fl_writable) OR (x_eflags s AND FL_VM) OR 2) n = bit (x_eflags s) n" for n
  proof -
    have w: "bit (x_eflags s) n \<and> \<not> bit fl_writable n \<and> \<not> bit FL_VM n \<longleftrightarrow> bit (2 :: u32) n" if "n < 32"
      using assms that unfolding eflags_wf_def bit_eq_iff by (auto simp: bit_simps)
    have "bit fl_writable n \<Longrightarrow> \<not> bit FL_VM n" "bit fl_writable n \<Longrightarrow> \<not> bit FL_RF n"
      using and_zero_bit [OF vm(1)] and_zero_bit [OF vm(2)] by blast+
    then show ?thesis
      using w by (cases "n < 32") (auto simp: read_eflags_def bit_simps dest: bit_imp_le_length)
  qed
  then have "(read_eflags s AND fl_writable) OR (x_eflags s AND FL_VM) OR 2 = x_eflags s"
    by (intro bit_word_eqI) blast
  then show ?thesis by (simp add: write_eflags_def)
qed

lemma eflags_written: "read_eflags (write_eflags x s) AND fl_writable = x AND fl_writable"
proof -
  have f: "fl_writable AND 2 = 0" "fl_writable AND FL_VM = 0" "fl_writable AND FL_RF = 0"
    by (simp_all add: fl_writable_val FL_defs)
  have "bit (read_eflags (write_eflags x s) AND fl_writable) n = bit (x AND fl_writable) n" for n
    using f unfolding bit_eq_iff by (auto simp: read_eflags_def write_eflags_def bit_simps dest: bit_imp_le_length)
  then show ?thesis by (intro bit_word_eqI) blast
qed

text \<open>A word used as a lock: of two that take it by exchange, the first gets it.\<close>

lemma xchg_lock:
  assumes "load32 m lk = 0" and "(r1, m1) = xchg lk 1 m" and "(r2, m2) = xchg lk 1 m1" and "(r3, m3) = xchg lk 0 m2"
  shows "r1 = 0 \<and> r2 = 1 \<and> load32 m3 lk = 0"
  using assms by (simp add: xchg_def load32_store32_same)

text \<open>Every result pointer of \<open>cpuid\<close> may be null.\<close>

lemma cpuid_null: "cpuid ident info 0 0 0 0 m = m"
  by (simp add: cpuid_def split: prod.split)

lemma cpuid_eax:
  assumes "eaxp \<noteq> 0"
  shows "load32 (cpuid ident info eaxp 0 0 0 m) eaxp = fst (ident info)"
  using assms by (simp add: cpuid_def load32_store32_same split: prod.split)

section \<open>The translation cache\<close>

text \<open>An access translates by the cache if it has the page, and otherwise by the tables, and
  then the translation is cached.\<close>

definition access :: "u32 \<Rightarrow> regs \<Rightarrow> (u32 \<times> regs) option" where
  "access la s =
     (if x_cr0 s AND CR0_PG = 0 then Some (la, s)
      else case x_tlb s (PGNUM la) of
             Some fr \<Rightarrow> Some (fr OR PGOFF la, s)
           | None \<Rightarrow>
               (case translate (x_mem s) (x_cr3 s) la of
                  None \<Rightarrow> None
                | Some a \<Rightarrow> Some (a, s\<lparr>x_tlb := (x_tlb s)(PGNUM la \<mapsto> PTE_ADDR a)\<rparr>)))"

definition coherent :: "regs \<Rightarrow> bool" where
  "coherent s \<longleftrightarrow> (\<forall>la fr. x_tlb s (PGNUM la) = Some fr \<longrightarrow> translate (x_mem s) (x_cr3 s) la = Some (fr OR PGOFF la))"

lemma pgnum_dir_tab:
  assumes "PGNUM la = PGNUM lb"
  shows "PDX la = PDX lb" "PTX la = PTX lb"
proof -
  have n: "unat la div 4096 = unat lb div 4096" using assms unat_PGNUM [of la] unat_PGNUM [of lb] by simp
  then have "unat (PTX la) = unat (PTX lb)" unfolding unat_PTX by simp
  then show "PTX la = PTX lb" by (simp only: word_unat_eq_iff)
  have "unat la div 4096 div 1024 = unat lb div 4096 div 1024" using n by simp
  then have "unat (PDX la) = unat (PDX lb)" unfolding unat_PDX by (simp add: div_mult2_eq [symmetric])
  then show "PDX la = PDX lb" by (simp only: word_unat_eq_iff)
qed

lemma page_addr_or: "PTE_ADDR (PTE_ADDR x OR PGOFF la) = PTE_ADDR x"
  by (rule bit_word_eqI) (auto simp: PTE_ADDR_def PGOFF_def masks bit_simps)

lemma translate_page:
  assumes "translate m r la = Some a" and "PGNUM lb = PGNUM la"
  shows "translate m r lb = Some (PTE_ADDR a OR PGOFF lb)"
  using assms(1) unfolding translate_def Let_def pgnum_dir_tab [OF assms(2)]
  by (auto simp: page_addr_or split: if_splits)

text \<open>With a coherent cache an access finds what the tables say, and the cache stays
  coherent.\<close>

lemma access_coherent:
  assumes "coherent s" and "x_cr0 s AND CR0_PG \<noteq> 0"
  shows "map_option fst (access la s) = translate (x_mem s) (x_cr3 s) la
    \<and> (\<forall>a s'. access la s \<noteq> Some (a, s') \<or> coherent s' \<and> x_mem s' = x_mem s \<and> x_cr3 s' = x_cr3 s)"
proof (cases "x_tlb s (PGNUM la)")
  case (Some fr)
  then have "translate (x_mem s) (x_cr3 s) la = Some (fr OR PGOFF la)" using assms(1) by (simp add: coherent_def)
  moreover have "access la s = Some (fr OR PGOFF la, s)" using assms(2) Some by (simp add: access_def)
  ultimately show ?thesis using assms(1) by simp
next
  case None
  show ?thesis
  proof (cases "translate (x_mem s) (x_cr3 s) la")
    case miss: None
    then show ?thesis using assms(2) None by (simp add: access_def)
  next
    case hit: (Some a)
    let ?s = "s\<lparr>x_tlb := (x_tlb s)(PGNUM la \<mapsto> PTE_ADDR a)\<rparr>"
    have "coherent ?s"
      using assms(1) translate_page [OF hit] by (auto simp: coherent_def)
    moreover have "access la s = Some (a, ?s)" using assms(2) None hit by (simp add: access_def)
    ultimately show ?thesis using hit by simp
  qed
qed

lemma lcr3_coherent: "coherent (lcr3 v s)" "coherent (tlbflush s)"
  by (simp_all add: coherent_def lcr3_def tlbflush_def)

lemma tlbflush_keeps: "x_cr3 (tlbflush s) = x_cr3 s" "x_mem (tlbflush s) = x_mem s"
  by (simp_all add: tlbflush_def lcr3_def rcr3_def)

text \<open>New translations need no flush; a page whose translation changes must be dropped.\<close>

lemma grow_coherent:
  assumes "coherent s" and "\<And>la a. translate (x_mem s) (x_cr3 s) la = Some a \<Longrightarrow> translate m (x_cr3 s) la = Some a"
  shows "coherent (s\<lparr>x_mem := m\<rparr>)"
  using assms by (simp add: coherent_def)

lemma invlpg_coherent:
  assumes "coherent s" and "\<And>lb. PGNUM lb \<noteq> PGNUM la \<Longrightarrow> translate m (x_cr3 s) lb = translate (x_mem s) (x_cr3 s) lb"
  shows "coherent (invlpg la (s\<lparr>x_mem := m\<rparr>))"
  using assms by (auto simp: coherent_def invlpg_def)

lemma lcr0_pages: "x_cr0 s AND CR0_PG = 0 \<Longrightarrow> coherent (lcr0 (x_cr0 s OR CR0_PG) s)"
proof -
  assume "x_cr0 s AND CR0_PG = 0"
  then have "((x_cr0 s OR CR0_PG) XOR x_cr0 s) AND CR0_PG = CR0_PG"
    by (intro bit_word_eqI) (auto simp: bit_simps dest: and_zero_bit)
  moreover have "CR0_PG \<noteq> 0" by (simp add: CR0_PG_def)
  ultimately have "((x_cr0 s OR CR0_PG) XOR x_cr0 s) AND CR0_PG \<noteq> 0" by simp
  then show ?thesis by (simp add: lcr0_def coherent_def)
qed

text \<open>C11: the frame buffer is mapped while paging is on, and without a flush. It is safe: when
  the directory in use maps every address to itself or not at all, every translation that
  may be cached stays as it was, so a coherent cache is still coherent afterwards and an
  access to any address goes where the new tables say.\<close>

theorem init_video_keeps_tlb:
  fixes vs :: vstate
  assumes "mi = ModeInfoBlock_at (vmemory vs) 0xf000"
    and "pages_inv (kpages (kern vs)) (xs @ ys)" and "tables_ok (vmemory vs) (kpgdir (kern vs)) (xs @ ys)"
    and "unat (physbase mi) mod 4194304 = 0" and "4194304 \<le> unat (physbase mi)"
    and "unat (physbase mi) + unat (Yres mi) * unat (pitch mi) < 4294967296"
    and "sz = of_nat (unat (Yres mi) * unat (pitch mi))"
    and "length xs = Suc (unat (PDX (physbase mi + sz))) - unat (PDX (physbase mi))"
    and "coherent s" and "x_mem s = vmemory vs" and "x_cr3 s = kpgdir (kern vs)" and "x_cr0 s AND CR0_PG \<noteq> 0"
    and "\<forall>la. translate (vmemory vs) (kpgdir (kern vs)) la \<in> {None, Some la}"
  shows "\<exists>vs'. init_video vs = Inr vs' \<and> coherent (s\<lparr>x_mem := vmemory vs'\<rparr>)
    \<and> (\<forall>la. map_option fst (access la (s\<lparr>x_mem := vmemory vs'\<rparr>)) = translate (vmemory vs') (kpgdir (kern vs)) la)"
proof -
  obtain vs' where run: "init_video vs = Inr vs'"
    and tr: "\<forall>la. translate (vmemory vs') (kpgdir (kern vs)) la =
        (if PDX (physbase mi) \<le> PDX la \<and> PDX la \<le> PDX (physbase mi + sz) then Some la
         else translate (vmemory vs) (kpgdir (kern vs)) la)"
    using init_video_spec [OF assms(1-8)] by blast
  have grow: "translate (vmemory vs') (kpgdir (kern vs)) la = Some a"
    if "translate (vmemory vs) (kpgdir (kern vs)) la = Some a" for la a
    using tr [rule_format, of la] assms(13) [rule_format, of la] that by (auto split: if_splits)
  have coh: "coherent (s\<lparr>x_mem := vmemory vs'\<rparr>)"
    by (rule grow_coherent [OF assms(9)]) (use grow assms(10,11) in simp)
  then have "map_option fst (access la (s\<lparr>x_mem := vmemory vs'\<rparr>)) = translate (vmemory vs') (kpgdir (kern vs)) la" for la
    using access_coherent [OF coh, of la] assms(11,12) by simp
  with run coh show ?thesis by blast
qed

lemma vbe_unmapped: "translate (vmemory vbe_state) (kpgdir (kern vbe_state)) la = None"
proof -
  have "unat (PDX la) < 1024" using unat_PDX [of la] unat_lt32 [of la] by linarith
  from vbe_directory [OF this] have "load32 vbe_mem (0x2000 + 4 * PDX la) = 0" by (simp add: slot_def)
  moreover have "PTE_ADDR 0x2000 = 0x2000" by (simp add: PTE_ADDR_def)
  ultimately show ?thesis by (simp add: translate_def vbe_state_def)
qed

theorem init_video_keeps_tlb_witness:
  "\<exists>vs' a s'. init_video vbe_state = Inr vs'
    \<and> access 0xFD000123 (lcr3 0x2000 \<lparr>x_cr0 = CR0_PG, x_cr2 = 0, x_cr3 = 0, x_cr4 = 0, x_eflags = 2, x_ebp = 0, x_esp = 0,
        x_ldtr = 0, x_gdtr = (0, 0), x_idtr = (0, 0), x_tsc = 0, x_tlb = (\<lambda>_. Some 0), x_mem = vmemory vs'\<rparr>) = Some (a, s')"
proof -
  let ?s = "lcr3 0x2000 \<lparr>x_cr0 = CR0_PG, x_cr2 = 0, x_cr3 = 0, x_cr4 = 0, x_eflags = 2, x_ebp = 0, x_esp = 0,
        x_ldtr = 0, x_gdtr = (0, 0), x_idtr = (0, 0), x_tsc = 0, x_tlb = (\<lambda>_. Some 0), x_mem = vmemory vbe_state\<rparr>"
  have regs: "x_mem ?s = vmemory vbe_state" "x_cr3 ?s = kpgdir (kern vbe_state)" "x_cr0 ?s AND CR0_PG \<noteq> 0"
    by (simp_all add: lcr3_def vbe_state_def CR0_PG_def)
  have unmapped: "\<forall>la. translate (vmemory vbe_state) (kpgdir (kern vbe_state)) la \<in> {None, Some la}"
    using vbe_unmapped by simp
  obtain vs' where vs': "init_video vbe_state = Inr vs'"
    and acc: "\<forall>la. map_option fst (access la (?s\<lparr>x_mem := vmemory vs'\<rparr>)) = translate (vmemory vs') (kpgdir (kern vbe_state)) la"
    using init_video_keeps_tlb [OF refl vbe_ok(1,2), unfolded vbe_mode, OF vbe_ok(4-7,3) lcr3_coherent(1) regs unmapped] by blast
  obtain vs2 where "init_video vbe_state = Inr vs2"
    and tr: "\<forall>la. translate (vmemory vs2) (kpgdir (kern vbe_state)) la =
        (if PDX 0xFD000000 \<le> PDX la \<and> PDX la \<le> PDX (0xFD000000 + 1440000) then Some la
         else translate (vmemory vbe_state) (kpgdir (kern vbe_state)) la)"
    using init_video_spec [OF refl vbe_ok(1,2), unfolded vbe_mode, OF vbe_ok(4-7,3)] by blast
  then have "translate (vmemory vs') (kpgdir (kern vbe_state)) 0xFD000123 = Some 0xFD000123"
    using vs' by (simp add: PDX_def PDXSHIFT_def)
  with acc have "map_option fst (access 0xFD000123 (?s\<lparr>x_mem := vmemory vs'\<rparr>)) = Some 0xFD000123" by simp
  then show ?thesis using vs' by (auto simp: lcr3_def)
qed

end
