(* ===== verification/TextMode.thy ===== *)
theory TextMode
  imports CString MMU
begin

text \<open>
  The text mode greeting \<open>kernel/text.c\<close>, which the kernel keeps for reference and does not
  call: the attribute byte as a union of bit fields, and \<open>hello_world\<close>, which writes
  characters and attributes in turn into the frame buffer of the text mode.
\<close>

type_synonym Attribute = byte

definition attr_set_fg :: "Attribute \<Rightarrow> byte \<Rightarrow> Attribute" where "attr_set_fg a x = bf_set 0 4 a x"
definition attr_set_bg :: "Attribute \<Rightarrow> byte \<Rightarrow> Attribute" where "attr_set_bg a x = bf_set 4 3 a x"
definition attr_set_blink :: "Attribute \<Rightarrow> byte \<Rightarrow> Attribute" where "attr_set_blink a x = bf_set 7 1 a x"

definition hello_attr :: Attribute where
  "hello_attr = attr_set_blink (attr_set_bg (attr_set_fg 0 0x2) 0x5) 0x0"

text \<open>\<open>while (*str)\<close>; \<open>str\<close> and \<open>input\<close> are the two pointers.\<close>

partial_function (option) hello_loop :: "u32 \<Rightarrow> u32 \<Rightarrow> mem \<Rightarrow> mem option" where
  "hello_loop str input m =
     (if m str \<noteq> 0
      then hello_loop (str + 1) (input + 2) (m(input := m str, input + 1 := hello_attr))
      else Some m)"

text \<open>The literal lies where the linker put it.\<close>

definition hello_world :: "u32 \<Rightarrow> mem \<Rightarrow> mem option" where
  "hello_world str m = hello_loop str 0xB8000 m"

definition cells :: "byte list \<Rightarrow> byte list" where
  "cells xs = concat (map (\<lambda>x. [x, hello_attr]) xs)"

lemma cells_simps [simp]: "cells [] = []" "cells (x # xs) = x # hello_attr # cells xs" "length (cells xs) = 2 * length xs"
  by (induction xs) (simp_all add: cells_def)

text \<open>The loop writes the cells when the text lies off them.\<close>

lemma hello_loop_writes:
  "cstr m str xs \<Longrightarrow> length xs < 1000000
    \<Longrightarrow> (\<forall>i \<le> length xs. \<forall>j < 2 * length xs. str + of_nat i \<noteq> input + of_nat j)
    \<Longrightarrow> hello_loop str input m = Some (mem_write m input (cells xs))"
proof (induction xs arbitrary: str input m)
  case Nil
  then show ?case by (subst hello_loop.simps) simp
next
  case (Cons x xs)
  have off: "str + of_nat (Suc i) \<noteq> input" "str + of_nat (Suc i) \<noteq> input + 1" if "i \<le> length xs" for i
    using Cons.prems(3) [rule_format, of "Suc i" 0] Cons.prems(3) [rule_format, of "Suc i" 1] that by simp_all
  let ?m = "m(input := x, input + 1 := hello_attr)"
  have "cstr m q ys \<Longrightarrow> (\<forall>i \<le> length ys. q + of_nat i \<noteq> input \<and> q + of_nat i \<noteq> input + 1) \<Longrightarrow> cstr ?m q ys" for q ys
  proof (induction ys arbitrary: q)
    case Nil
    then show ?case using Nil.prems(2) [rule_format, of 0] by simp
  next
    case (Cons y ys)
    have "\<forall>i \<le> length ys. q + 1 + of_nat i \<noteq> input \<and> q + 1 + of_nat i \<noteq> input + 1"
    proof (intro allI impI)
      fix i assume "i \<le> length ys"
      then show "q + 1 + of_nat i \<noteq> input \<and> q + 1 + of_nat i \<noteq> input + 1"
        using Cons.prems(2) [rule_format, of "Suc i"] by (simp add: add.assoc)
    qed
    then show ?case using Cons Cons.prems(2) [rule_format, of 0] by simp
  qed
  moreover have "\<forall>i \<le> length xs. str + 1 + of_nat i \<noteq> input \<and> str + 1 + of_nat i \<noteq> input + 1"
    using off by (simp add: add.assoc)
  ultimately have c1: "cstr ?m (str + 1) xs" using Cons.prems(1) by simp
  have o1: "\<forall>i \<le> length xs. \<forall>j < 2 * length xs. str + 1 + of_nat i \<noteq> input + 2 + of_nat j"
  proof (intro allI impI)
    fix i j assume "i \<le> length xs" "j < 2 * length xs"
    then show "str + 1 + of_nat i \<noteq> input + 2 + of_nat j"
      using Cons.prems(3) [rule_format, of "Suc i" "Suc (Suc j)"] by (simp add: add.assoc)
  qed
  have "hello_loop (str + 1) (input + 2) ?m = Some (mem_write ?m (input + 2) (cells xs))"
    by (rule Cons.IH [OF c1 _ o1]) (use Cons.prems(2) in simp)
  then show ?case
    using Cons.prems(1) by (subst hello_loop.simps) (simp add: add.assoc)
qed

text \<open>The screen shows the greeting in green on magenta, and nothing else changes.\<close>

lemma hello_world_shows:
  assumes "cstr m str (map chr ''Hello World'')" and "unat str < 0xB0000"
  shows "hello_attr = 0x52
    \<and> hello_world str m = Some (mem_write m 0xB8000 (cells (map chr ''Hello World'')))"
proof
  show "hello_attr = 0x52"
    by (simp add: hello_attr_def attr_set_fg_def attr_set_bg_def attr_set_blink_def bf_set_def mask_eq_exp_minus_1)
  have "str + of_nat i \<noteq> 0xB8000 + of_nat j" if "i \<le> 11" "j < 22" for i j
  proof
    assume e: "str + of_nat i = 0xB8000 + of_nat j"
    have "unat (str + of_nat i) = unat str + i" using assms(2) that unat_of_nat32 [of i] by (simp add: unat_add_word)
    moreover have "unat (0xB8000 + of_nat j :: u32) = 0xB8000 + j" using that unat_of_nat32 [of j] by (simp add: unat_add_word)
    ultimately show False using e assms(2) that by simp
  qed
  then show "hello_world str m = Some (mem_write m 0xB8000 (cells (map chr ''Hello World'')))"
    unfolding hello_world_def by (intro hello_loop_writes [OF assms(1)]) simp_all
qed

end
