(* ===== verification/Memlayout.thy ===== *)
theory Memlayout
  imports MMU
begin

text \<open>
  The address map of \<open>inc/memlayout.h\<close>. The kernel does not use it; the constants are
  checked against the picture in the header's comment.
\<close>

definition PGSIZE :: u32 where "PGSIZE = 4096"
definition PTSIZE :: u32 where "PTSIZE = PGSIZE * of_nat NPTENTRIES"

definition KERNBASE :: u32 where "KERNBASE = 0xF0000000"
definition IOPHYSMEM :: u32 where "IOPHYSMEM = 0x0A0000"
definition EXTPHYSMEM :: u32 where "EXTPHYSMEM = 0x100000"
definition KSTACKTOP :: u32 where "KSTACKTOP = KERNBASE"
definition KSTKSIZE :: u32 where "KSTKSIZE = 8 * PGSIZE"
definition KSTKGAP :: u32 where "KSTKGAP = 8 * PGSIZE"
definition MMIOLIM :: u32 where "MMIOLIM = KSTACKTOP - PTSIZE"
definition MMIOBASE :: u32 where "MMIOBASE = MMIOLIM - PTSIZE"
definition ULIM :: u32 where "ULIM = MMIOBASE"
definition UVPT :: u32 where "UVPT = ULIM - PTSIZE"
definition UPAGES :: u32 where "UPAGES = UVPT - PTSIZE"
definition UENVS :: u32 where "UENVS = UPAGES - PTSIZE"
definition UTOP :: u32 where "UTOP = UENVS"
definition UXSTACKTOP :: u32 where "UXSTACKTOP = UTOP"
definition USTACKTOP :: u32 where "USTACKTOP = UTOP - 2 * PGSIZE"
definition UTEXT :: u32 where "UTEXT = 2 * PTSIZE"
definition UTEMP :: u32 where "UTEMP = PTSIZE"
definition PFTEMP :: u32 where "PFTEMP = UTEMP + PTSIZE - PGSIZE"
definition USTABDATA :: u32 where "USTABDATA = PTSIZE div 2"

text \<open>The addresses are those of the picture, each region is a whole number of page tables
  apart, and the regions ascend.\<close>

lemma layout_picture:
  "MMIOLIM = 0xefc00000" "MMIOBASE = 0xef800000" "ULIM = 0xef800000" "UVPT = 0xef400000" "UPAGES = 0xef000000"
  "UENVS = 0xeec00000" "UTOP = 0xeec00000" "UXSTACKTOP = 0xeec00000" "UXSTACKTOP - PGSIZE = 0xeebff000"
  "USTACKTOP = 0xeebfe000" "USTACKTOP - PGSIZE = 0xeebfd000" "UTEXT = 0x00800000" "UTEMP = 0x00400000"
  "USTABDATA = 0x00200000" "PFTEMP = 0x007ff000"
  by (simp_all add: MMIOLIM_def MMIOBASE_def ULIM_def UVPT_def UPAGES_def UENVS_def UTOP_def UXSTACKTOP_def USTACKTOP_def
      UTEXT_def UTEMP_def USTABDATA_def PFTEMP_def KSTACKTOP_def KERNBASE_def PTSIZE_def PGSIZE_def NPTENTRIES_def)

lemma layout_ascends:
  "sorted_wrt (<) [USTABDATA, UTEMP, PFTEMP, UTEXT, USTACKTOP, UTOP, UPAGES, UVPT, ULIM, MMIOLIM, KERNBASE]"
  unfolding layout_picture by (simp add: KERNBASE_def)

text \<open>With every CPU's stack and guard below \<open>KSTACKTOP\<close>, 64 of them fit above \<open>MMIOLIM\<close>.\<close>

lemma stacks_fit: "KSTACKTOP - MMIOLIM = 64 * (KSTKSIZE + KSTKGAP)"
  unfolding layout_picture by (simp add: KSTACKTOP_def KERNBASE_def KSTKSIZE_def KSTKGAP_def PGSIZE_def)

end
