(* ===== verification/Hardware.thy ===== *)
theory Hardware
  imports Cpu Interrupt Memlayout
begin

text \<open>
  The rest of \<open>inc/mmu.h\<close> and of the selectors of \<open>inc/memlayout.h\<close>: the bits of page table entries,
  control registers and flags, the descriptor types, the pseudo-descriptor; and what ties them
  to the bit fields, selectors and numbers that the kernel's code spells out itself.
\<close>

section \<open>inc/mmu.h\<close>

definition PGSHIFT :: nat where "PGSHIFT = 12"
definition PTSHIFT :: nat where "PTSHIFT = 22"

definition PTE_PWT :: u32 where "PTE_PWT = 0x008"
definition PTE_PCD :: u32 where "PTE_PCD = 0x010"
definition PTE_A :: u32 where "PTE_A = 0x020"
definition PTE_D :: u32 where "PTE_D = 0x040"
definition PTE_PS :: u32 where "PTE_PS = 0x080"
definition PTE_G :: u32 where "PTE_G = 0x100"
definition PTE_AVAIL :: u32 where "PTE_AVAIL = 0xE00"
definition PTE_SYSCALL :: u32 where "PTE_SYSCALL = PTE_AVAIL OR PTE_P OR PTE_W OR PTE_U"

definition CR0_MP :: u32 where "CR0_MP = 0x00000002"
definition CR0_EM :: u32 where "CR0_EM = 0x00000004"
definition CR0_TS :: u32 where "CR0_TS = 0x00000008"
definition CR0_ET :: u32 where "CR0_ET = 0x00000010"
definition CR0_NE :: u32 where "CR0_NE = 0x00000020"
definition CR0_WP :: u32 where "CR0_WP = 0x00010000"
definition CR0_AM :: u32 where "CR0_AM = 0x00040000"
definition CR0_NW :: u32 where "CR0_NW = 0x20000000"
definition CR0_CD :: u32 where "CR0_CD = 0x40000000"

definition CR4_PCE :: u32 where "CR4_PCE = 0x00000100"
definition CR4_MCE :: u32 where "CR4_MCE = 0x00000040"
definition CR4_PSE :: u32 where "CR4_PSE = 0x00000010"
definition CR4_DE :: u32 where "CR4_DE = 0x00000008"
definition CR4_TSD :: u32 where "CR4_TSD = 0x00000004"
definition CR4_PVI :: u32 where "CR4_PVI = 0x00000002"
definition CR4_VME :: u32 where "CR4_VME = 0x00000001"

definition FL_IOPL_0 :: u32 where "FL_IOPL_0 = 0x00000000"
definition FL_IOPL_1 :: u32 where "FL_IOPL_1 = 0x00001000"
definition FL_IOPL_2 :: u32 where "FL_IOPL_2 = 0x00002000"
definition FL_IOPL_3 :: u32 where "FL_IOPL_3 = 0x00003000"
definition FL_VIF :: u32 where "FL_VIF = 0x00080000"
definition FL_VIP :: u32 where "FL_VIP = 0x00100000"

definition FEC_PR :: u32 where "FEC_PR = 0x1"
definition FEC_WR :: u32 where "FEC_WR = 0x2"
definition FEC_U :: u32 where "FEC_U = 0x4"

definition STA_E :: u32 where "STA_E = 0x4"
definition STA_C :: u32 where "STA_C = 0x4"
definition STA_A :: u32 where "STA_A = 0x1"
definition STS_T16A :: u32 where "STS_T16A = 0x1"
definition STS_LDT :: u32 where "STS_LDT = 0x2"
definition STS_T16B :: u32 where "STS_T16B = 0x3"
definition STS_CG16 :: u32 where "STS_CG16 = 0x4"
definition STS_TG :: u32 where "STS_TG = 0x5"
definition STS_IG16 :: u32 where "STS_IG16 = 0x6"
definition STS_TG16 :: u32 where "STS_TG16 = 0x7"
definition STS_T32A :: u32 where "STS_T32A = 0x9"
definition STS_T32B :: u32 where "STS_T32B = 0xB"

definition SEG_FAULT :: Segdesc where
  "SEG_FAULT = Segdesc_init [0, 0, 0, 0, 1, 0, 1, 0, 0, 0, 1, 0, 0]"

text \<open>Packed: six bytes in memory.\<close>

record Pseudodesc =
  pd_lim :: u16
  pd_base :: u32

definition Pseudodesc_at :: "mem \<Rightarrow> u32 \<Rightarrow> Pseudodesc" where
  "Pseudodesc_at m a = \<lparr>pd_lim = load16 m a, pd_base = load32 m (a + 2)\<rparr>"

section \<open>inc/memlayout.h\<close>

definition GD_KT :: u16 where "GD_KT = 0x08"
definition GD_KD :: u16 where "GD_KD = 0x10"
definition GD_UT :: u16 where "GD_UT = 0x18"
definition GD_UD :: u16 where "GD_UD = 0x20"
definition GD_TSS0 :: u16 where "GD_TSS0 = 0x28"

section \<open>Agreement with the code\<close>

text \<open>The bit fields of \<open>PTE\<close> in \<open>kernel/page.h\<close> are the flags, and the flags leave the frame alone.\<close>

lemma set_field_1: "bf_set n 1 (e :: u32) 1 = e OR 2 ^ n" if "n < 32" for n
  using that by (intro bit_eqI) (auto simp: bit_bf_set bit_or_iff bit_exp_iff bit_1_iff dest: bit_imp_le_length)

lemma pte_fields_flags:
  "pte_set_p e 1 = e OR PTE_P" "pte_set_rw e 1 = e OR PTE_W" "pte_set_us e 1 = e OR PTE_U"
  using set_field_1 [of 0 e] set_field_1 [of 1 e] set_field_1 [of 2 e]
  by (simp_all add: pte_set_p_def pte_set_rw_def pte_set_us_def PTE_P_def PTE_W_def PTE_U_def)

lemma pte_flags_partition:
  "PTE_P OR PTE_W OR PTE_U OR PTE_PWT OR PTE_PCD OR PTE_A OR PTE_D OR PTE_PS OR PTE_G OR PTE_AVAIL = 0xFFF"
  "PTE_P + PTE_W + PTE_U + PTE_PWT + PTE_PCD + PTE_A + PTE_D + PTE_PS + PTE_G + PTE_AVAIL = 0xFFF"
  by (simp_all add: PTE_P_def PTE_W_def PTE_U_def PTE_PWT_def PTE_PCD_def PTE_A_def PTE_D_def PTE_PS_def PTE_G_def PTE_AVAIL_def)

lemma pte_addr_flags: "PTE_ADDR (pte OR fl) = PTE_ADDR pte" if "fl AND NOT 0xFFF = 0"
  using that by (simp add: PTE_ADDR_def bit.conj_disj_distrib2)

text \<open>An entry that \<open>mm_continous_map\<close> makes from a cleared one has only the flags of a system call.\<close>

lemma entry_flags: "entry 0 fr AND 0xFFF = PTE_P OR PTE_W OR PTE_U"
proof -
  have "entry 0 fr AND 0xFFF = bf_get 0 12 (entry 0 fr)" unfolding masks bf_get_def by simp
  also have "\<dots> = bf_get 0 12 (PTE_P OR PTE_W OR PTE_U)"
    unfolding entry_def pte_set_frame_def pte_fields_flags by (simp add: bf_get_set_other or.assoc)
  also have "\<dots> = PTE_P OR PTE_W OR PTE_U"
    by (simp add: bf_get_def PTE_P_def PTE_W_def PTE_U_def flip: masks)
  finally show ?thesis .
qed

text \<open>Segment and gate types: the 32-bit types are the 16-bit ones with bit 3 set.\<close>

lemma gate_types:
  "STS_T32A = STS_T16A OR 8" "STS_T32B = STS_T16B OR 8" "STS_CG32 = STS_CG16 OR 8" "STS_IG32 = STS_IG16 OR 8"
  "STS_TG32 = STS_TG16 OR 8" "STS_T32B = STS_T32A OR 2"
  by (simp_all add: STS_T32A_def STS_T16A_def STS_T32B_def STS_T16B_def STS_CG32_def STS_CG16_def STS_IG32_def STS_IG16_def
      STS_TG32_def STS_TG16_def)

text \<open>The four privilege levels are the values of the two-bit field under the mask.\<close>

lemma io_privilege:
  "[FL_IOPL_0, FL_IOPL_1, FL_IOPL_2, FL_IOPL_3] = map (\<lambda>i. push_bit 12 (of_nat i)) [0..<4]"
  "bf_get 12 2 FL_IOPL_MASK = 3"
  by (simp_all add: FL_IOPL_0_def FL_IOPL_1_def FL_IOPL_2_def FL_IOPL_3_def FL_IOPL_MASK_def push_bit_eq_mult upt_rec
    bf_get_def drop_bit_eq_div mask_eq_exp_minus_1)

text \<open>The kernel's selectors for code and data are those of the header, and so is the code segment
  of the frame that starts the game; the task register holds \<open>GD_UT\<close>, since the kernel's table ends where
  the header puts the user's segments.\<close>

lemma kernel_selectors:
  "GD_KT = 8 * 1" "GD_KD = 8 * 2" "push_bit 3 3 = GD_UT" "tr (init_gdt g t s) = GD_UT" "GD_TSS0 \<noteq> GD_UT"
  by (simp_all add: GD_KT_def GD_KD_def GD_UT_def GD_TSS0_def push_bit_eq_mult init_gdt_def ltr_def Let_def)

text \<open>\<open>SEG_FAULT\<close> is present, reads as a segment of one byte and can be loaded; it can not be written.\<close>

lemma SEG_FAULT_reads:
  "f_get sd_p SEG_FAULT = 1" "f_get sd_s SEG_FAULT = 1" "desc_base SEG_FAULT = 0" "desc_limit SEG_FAULT = 0"
  "f_get sd_type SEG_FAULT = 0"
  by (simp_all add: SEG_FAULT_def Segdesc_init_def desc_base_def desc_limit_def desc_simps)

end
