(* ===== verification/Start.thy ===== *)
theory Start
  imports Boot Segment
begin

text \<open>
  The first code that runs, \<open>boot/boot.S\<close>: it sets the video mode with two BIOS calls, opens
  the A20 gate, switches to protected mode with a flat descriptor table and calls
  \<open>bootmain\<close>. The descriptors are assembled by the macros of \<open>inc/mmu.h\<close>.

  The BIOS is a parameter, a function on the registers, the memory and the devices; what
  is relied on is stated as \<open>vbe_laws\<close>: the mode query of a supported mode writes 256 bytes at
  \<open>es:di\<close>, both calls keep every register but \<open>ax\<close>, and both may write to memory that is the
  BIOS's own, such as its data area, the display and the stack that it is called on. What is relied
  on from the keyboard controller is \<open>kbc_laws\<close>: it takes a byte only while its input buffer is empty.
\<close>

section \<open>The assembler's descriptor macros\<close>

definition asm_word :: "u32 \<Rightarrow> byte list" where
  "asm_word x = [ucast x, ucast (drop_bit 8 x)]"

definition asm_long :: "u32 \<Rightarrow> byte list" where
  "asm_long x = [ucast x, ucast (drop_bit 8 x), ucast (drop_bit 16 x), ucast (drop_bit 24 x)]"

definition asm_SEG_NULL :: "byte list" where
  "asm_SEG_NULL = asm_word 0 @ asm_word 0 @ [0, 0, 0, 0]"

definition asm_SEG :: "u32 \<Rightarrow> u32 \<Rightarrow> u32 \<Rightarrow> byte list" where
  "asm_SEG type base lim =
     asm_word (drop_bit 12 lim AND 0xffff) @ asm_word (base AND 0xffff)
     @ [ucast (drop_bit 16 base AND 0xff), ucast (0x90 OR type),
        ucast (0xC0 OR (drop_bit 28 lim AND 0xf)), ucast (drop_bit 24 base AND 0xff)]"

definition boot_gdt :: "byte list" where
  "boot_gdt = asm_SEG_NULL @ asm_SEG (STA_X OR STA_R) 0 0xffffffff @ asm_SEG STA_W 0 0xffffffff"

definition gdtdesc :: "u32 \<Rightarrow> byte list" where
  "gdtdesc gdt_a = asm_word 0x17 @ asm_long gdt_a"

section \<open>boot/boot.S\<close>

definition PROT_MODE_CSEG :: u16 where "PROT_MODE_CSEG = 0x8"
definition PROT_MODE_DSEG :: u16 where "PROT_MODE_DSEG = 0x10"
definition CR0_PE_ON :: u32 where "CR0_PE_ON = 0x1"

record cpu =
  c_if :: bool
  c_df :: bool
  c_ax :: u16
  c_bx :: u16
  c_cx :: u16
  c_di :: u16
  c_cs :: u16
  c_ds :: u16
  c_es :: u16
  c_fs :: u16
  c_gs :: u16
  c_ss :: u16
  c_esp :: u32
  c_cr0 :: u32
  c_gdtr :: DTR

type_synonym 'd bios = "cpu \<Rightarrow> mem \<times> 'd \<Rightarrow> cpu \<times> mem \<times> 'd"

definition real_setup :: "cpu \<Rightarrow> cpu" where
  "real_setup c =
     (let c = c\<lparr>c_if := False\<rparr>;
          c = c\<lparr>c_df := False\<rparr>;
          c = c\<lparr>c_ax := 0\<rparr>;
          c = c\<lparr>c_ds := c_ax c\<rparr>;
          c = c\<lparr>c_es := c_ax c\<rparr>;
          c = c\<lparr>c_ss := c_ax c\<rparr>
      in c)"

definition set_video_mode :: "'d bios \<Rightarrow> cpu \<times> mem \<times> 'd \<Rightarrow> cpu \<times> mem \<times> 'd" where
  "set_video_mode int10 s =
     (let (c, m, d) = s;
          c = c\<lparr>c_ax := 0x4f01, c_cx := 0x0115, c_di := 0xf000\<rparr>;
          (c, m, d) = int10 c (m, d);
          c = c\<lparr>c_ax := 0x4f02, c_bx := 0x0115\<rparr>
      in int10 c (m, d))"

definition seta20 :: "'d device \<Rightarrow> 'd \<Rightarrow> 'd option" where
  "seta20 dv d =
     (case poll (\<lambda>x. x AND 0x2 = 0) dv 0x64 d of
        None \<Rightarrow> None
      | Some d \<Rightarrow>
          (let d = outb dv 0x64 0xd1 d
           in case poll (\<lambda>x. x AND 0x2 = 0) dv 0x64 d of
                None \<Rightarrow> None
              | Some d \<Rightarrow> Some (outb dv 0x60 0xdf d)))"

text \<open>In 16-bit code \<open>lgdt\<close> loads 24 bits of the base.\<close>

definition lgdt16 :: "mem \<Rightarrow> u32 \<Rightarrow> cpu \<Rightarrow> cpu" where
  "lgdt16 m a c = c\<lparr>c_gdtr := \<lparr>dtr_limit = load16 m a, dtr_base = load32 m (a + 2) AND 0xFFFFFF\<rparr>\<rparr>"

definition protect :: "mem \<Rightarrow> u32 \<Rightarrow> cpu \<Rightarrow> cpu" where
  "protect m desc_a c =
     (let c = lgdt16 m desc_a c;
          c = c\<lparr>c_cr0 := c_cr0 c OR CR0_PE_ON\<rparr>
      in c\<lparr>c_cs := PROT_MODE_CSEG\<rparr>)"

definition protcseg :: "cpu \<Rightarrow> cpu" where
  "protcseg c =
     (let c = c\<lparr>c_ax := PROT_MODE_DSEG\<rparr>;
          c = c\<lparr>c_ds := c_ax c, c_es := c_ax c, c_fs := c_ax c, c_gs := c_ax c, c_ss := c_ax c\<rparr>
      in c\<lparr>c_esp := 0xffff\<rparr>)"

definition start :: "'d bios \<Rightarrow> 'd device \<Rightarrow> u32 \<Rightarrow> cpu \<times> mem \<times> 'd \<Rightarrow> (cpu \<times> mem \<times> 'd) option" where
  "start int10 dv desc_a s =
     (let (c, m, d) = s;
          (c, m, d) = set_video_mode int10 (real_setup c, m, d)
      in case seta20 dv d of
           None \<Rightarrow> None
         | Some d \<Rightarrow> Some (protcseg (protect m desc_a c), m, d))"

section \<open>Descriptors in memory\<close>

definition bytes_at :: "mem \<Rightarrow> u32 \<Rightarrow> byte list \<Rightarrow> bool" where
  "bytes_at m a bs \<longleftrightarrow> (\<forall>i < length bs. m (a + of_nat i) = bs ! i)"

lemma bytes_at_append:
  "bytes_at m a (xs @ ys) \<longleftrightarrow> bytes_at m a xs \<and> bytes_at m (a + of_nat (length xs)) ys"
proof
  assume l: "bytes_at m a (xs @ ys)"
  have "m (a + of_nat (length xs) + of_nat i) = ys ! i" if "i < length ys" for i
    using l [unfolded bytes_at_def, rule_format, of "length xs + i"] that by (simp add: add.assoc)
  moreover have "m (a + of_nat i) = xs ! i" if "i < length xs" for i
    using l [unfolded bytes_at_def, rule_format, of i] that by (simp add: nth_append)
  ultimately show "bytes_at m a xs \<and> bytes_at m (a + of_nat (length xs)) ys" by (simp add: bytes_at_def)
next
  assume r: "bytes_at m a xs \<and> bytes_at m (a + of_nat (length xs)) ys"
  show "bytes_at m a (xs @ ys)" unfolding bytes_at_def
  proof (intro allI impI)
    fix i assume i: "i < length (xs @ ys)"
    show "m (a + of_nat i) = (xs @ ys) ! i"
    proof (cases "i < length xs")
      case True
      then show ?thesis using r by (simp add: bytes_at_def nth_append)
    next
      case False
      then have "i - length xs < length ys" using i by simp
      then have "m (a + of_nat (length xs) + of_nat (i - length xs)) = ys ! (i - length xs)"
        by (rule r [unfolded bytes_at_def, THEN conjunct2, rule_format])
      moreover have "a + of_nat (length xs) + of_nat (i - length xs) = a + of_nat (length xs + (i - length xs))"
        by (simp only: of_nat_add add.assoc)
      then have "a + of_nat (length xs) + of_nat (i - length xs) = a + of_nat i" using False by simp
      moreover have "(xs @ ys) ! i = ys ! (i - length xs)" using False by (simp add: nth_append)
      ultimately show ?thesis by simp
    qed
  qed
qed

lemma bytes_at_Cons [simp]: "bytes_at m a (b # bs) \<longleftrightarrow> m a = b \<and> bytes_at m (a + 1) bs"
  using bytes_at_append [of m a "[b]" bs] by (simp add: bytes_at_def)

lemma bytes_at_Nil [simp]: "bytes_at m a []"
  by (simp add: bytes_at_def)

definition load64 :: "mem \<Rightarrow> u32 \<Rightarrow> u64" where
  "load64 m a = ucast (load32 m a) OR push_bit 32 (ucast (load32 m (a + 4)))"

text \<open>The descriptor that a selector names.\<close>

definition descriptor :: "mem \<Rightarrow> DTR \<Rightarrow> u16 \<Rightarrow> Segdesc option" where
  "descriptor m r sel =
     (let off = unat (sel AND 0xFFF8)
      in if off + 7 \<le> unat (dtr_limit r) then Some (load64 m (dtr_base r + of_nat off)) else None)"


lemma bit_load32:
  "bit (load32 m a) n \<longleftrightarrow> (if n < 8 then bit (m a) n else if n < 16 then bit (m (a + 1)) (n - 8)
     else if n < 24 then bit (m (a + 2)) (n - 16) else n < 32 \<and> bit (m (a + 3)) (n - 24))"
  by (auto simp: load32_def bit_simps)

lemma bit_load64:
  "bit (load64 m a) n \<longleftrightarrow> (if n < 32 then bit (load32 m a) n else n < 64 \<and> bit (load32 m (a + 4)) (n - 32))"
  by (auto simp: load64_def bit_simps dest: bit_imp_le_length)

lemma load16_bytes: "bytes_at m a (asm_word x @ bs) \<Longrightarrow> load16 m a = ucast x"
  by (intro bit_word_eqI) (auto simp: load16_def asm_word_def bit_simps)

lemma load32_bytes: "bytes_at m a (asm_long x @ bs) \<Longrightarrow> load32 m a = x"
  by (intro bit_word_eqI) (auto simp: bit_load32 asm_long_def bit_simps add.assoc split: if_splits)

text \<open>The bytes of the assembler's macro are the bytes of the descriptor that the C macro
  initialises.\<close>

lemma asm_SEG_loads:
  assumes "bytes_at m a (asm_SEG type base lim @ bs)" and "unat type < 16"
  shows "load64 m a = SEG type base lim 0"
proof (rule bit_word_eqI)
  have t: "\<not> bit type n" if "4 \<le> n" for n
  proof -
    have "type = take_bit 4 type"
      using assms(2) by (simp add: word_unat_eq_iff unsigned_take_bit_eq take_bit_nat_eq_self)
    then show ?thesis using that by (metis bit_take_bit_iff not_le)
  qed
  have b: "m a = ucast (drop_bit 12 lim AND 0xffff)" "m (a + 1) = ucast (drop_bit 8 (drop_bit 12 lim AND 0xffff))"
    "m (a + 2) = ucast (base AND 0xffff)" "m (a + 3) = ucast (drop_bit 8 (base AND 0xffff))"
    "m (a + 4) = ucast (drop_bit 16 base AND 0xff)" "m (a + 5) = ucast (0x90 OR type)"
    "m (a + 6) = ucast (0xC0 OR (drop_bit 28 lim AND 0xf))" "m (a + 7) = ucast (drop_bit 24 base AND 0xff)"
    using assms(1) by (simp_all add: asm_SEG_def asm_word_def add.assoc)
  note b = b b [unfolded add.commute [of a]]
  fix n :: nat assume n: "n < LENGTH(64)"
  have r: "bit (SEG type base lim 0) n \<longleftrightarrow>
      (if n < 16 then bit (drop_bit 12 lim) n else if n < 32 then bit base (n - 16) else if n < 40 then bit base (n - 16)
       else if n < 44 then bit type (n - 40) else if n = 44 then True else if n < 47 then False else if n = 47 then True
       else if n < 52 then bit (drop_bit 28 lim) (n - 48) else if n < 54 then False else if n < 56 then True
       else bit base (n - 32))"
    using n
    by (simp add: SEG_def Segdesc_init_def f_set_def bit_bf_set sd_fields field_masks bit_simps) (use n in auto)
  from n consider "n < 8" | "8 \<le> n \<and> n < 16" | "16 \<le> n \<and> n < 24" | "24 \<le> n \<and> n < 32" | "32 \<le> n \<and> n < 40"
    | "40 \<le> n \<and> n < 48" | "48 \<le> n \<and> n < 56" | "56 \<le> n \<and> n < 64" by fastforce
  then show "bit (load64 m a) n = bit (SEG type base lim 0) n"
  proof cases
    case 6
    then have "n = 40 \<or> n = 41 \<or> n = 42 \<or> n = 43 \<or> n = 44 \<or> n = 45 \<or> n = 46 \<or> n = 47" by linarith
    then show ?thesis unfolding r bit_load64 bit_load32
      by (elim disjE; hypsubst; simp add: b t bit_or_iff bit_and_iff bit_ucast_iff bit_drop_bit_eq)
  next
    case 7
    then have "n = 48 \<or> n = 49 \<or> n = 50 \<or> n = 51 \<or> n = 52 \<or> n = 53 \<or> n = 54 \<or> n = 55" by linarith
    then show ?thesis unfolding r bit_load64 bit_load32
      by (elim disjE; hypsubst; simp add: b t bit_or_iff bit_and_iff bit_ucast_iff bit_drop_bit_eq)
  qed (unfold r bit_load64 bit_load32, auto simp: b field_masks bit_simps)
qed

section \<open>What the BIOS and the keyboard controller do\<close>

definition seg_addr :: "u16 \<Rightarrow> u16 \<Rightarrow> u32" where
  "seg_addr sel off = 16 * ucast sel + ucast off"

text \<open>\<open>modes\<close> are the supported video modes, \<open>info\<close> is the mode information block of a mode, \<open>own\<close> the memory
  that the BIOS may write when it is called with a stack, given by segment and pointer; \<open>vmode\<close> is the mode
  that is set and \<open>keep\<close> any part of the devices' state that these two calls do not change, such as the
  disk. Nothing is said of an unsupported mode.\<close>

definition vbe_laws :: "'d bios \<Rightarrow> u16 set \<Rightarrow> (u16 \<Rightarrow> byte list) \<Rightarrow> (u16 \<Rightarrow> u32 \<Rightarrow> u32 set) \<Rightarrow> ('d \<Rightarrow> u16) \<Rightarrow> ('d \<Rightarrow> 'o) \<Rightarrow> bool" where
  "vbe_laws int10 modes info own vmode keep \<longleftrightarrow>
     (\<forall>mode \<in> modes. length (info mode) = 256)
   \<and> (\<forall>c m d. c_ax c = 0x4f01 \<longrightarrow> c_cx c \<in> modes \<longrightarrow>
        (\<exists>m' d'. int10 c (m, d) = (c\<lparr>c_ax := 0x4f\<rparr>, m', d')
          \<and> (\<forall>a. a \<in> own (c_ss c) (c_esp c) \<or> m' a = mem_write m (seg_addr (c_es c) (c_di c)) (info (c_cx c)) a)
          \<and> keep d' = keep d))
   \<and> (\<forall>c m d. c_ax c = 0x4f02 \<longrightarrow> c_bx c \<in> modes \<longrightarrow>
        (\<exists>m' d'. int10 c (m, d) = (c\<lparr>c_ax := 0x4f\<rparr>, m', d')
          \<and> (\<forall>a. a \<in> own (c_ss c) (c_esp c) \<or> m' a = m a) \<and> vmode d' = c_bx c \<and> keep d' = keep d))"

text \<open>\<open>pend\<close> says that the controller has taken the command to write its output port and waits for the byte,
  \<open>a20\<close> is the gate in the last output port byte that it has taken. When the status says that the
  input buffer is empty, which it does after finitely many looks, the controller takes the next byte;
  of a byte that is written without looking nothing is said.\<close>

definition kbc_laws :: "'d device \<Rightarrow> ('d \<Rightarrow> bool) \<Rightarrow> ('d \<Rightarrow> bool) \<Rightarrow> ('d \<Rightarrow> 'o) \<Rightarrow> bool" where
  "kbc_laws dv pend a20 keep \<longleftrightarrow> (\<exists>empty.
     (\<forall>d. \<exists>xs y d'. answers dv 0x64 (xs @ [y]) d d' \<and> (\<forall>x \<in> set xs. x AND 2 \<noteq> 0) \<and> y AND 2 = 0
        \<and> empty d' \<and> pend d' = pend d \<and> a20 d' = a20 d \<and> keep d' = keep d)
   \<and> (\<forall>d. empty d \<longrightarrow> pend (outb dv 0x64 0xd1 d) \<and> keep (outb dv 0x64 0xd1 d) = keep d)
   \<and> (\<forall>d x. empty d \<longrightarrow> pend d \<longrightarrow> a20 (outb dv 0x60 x d) = bit x 1 \<and> keep (outb dv 0x60 x d) = keep d))"

lemma seta20_opens:
  assumes "kbc_laws dv pend a20 keep"
  shows "\<exists>d'. seta20 dv d = Some d' \<and> a20 d' \<and> keep d' = keep d"
proof -
  obtain empty where look: "\<forall>d. \<exists>xs y d'. answers dv 0x64 (xs @ [y]) d d' \<and> (\<forall>x \<in> set xs. x AND 2 \<noteq> 0) \<and> y AND 2 = 0
        \<and> empty d' \<and> pend d' = pend d \<and> a20 d' = a20 d \<and> keep d' = keep d"
    and cmd: "\<forall>d. empty d \<longrightarrow> pend (outb dv 0x64 0xd1 d) \<and> keep (outb dv 0x64 0xd1 d) = keep d"
    and dat: "\<forall>d x. empty d \<longrightarrow> pend d \<longrightarrow> a20 (outb dv 0x60 x d) = bit x 1 \<and> keep (outb dv 0x60 x d) = keep d"
    using assms unfolding kbc_laws_def by (elim exE conjE)
  have wait: "\<exists>d'. poll (\<lambda>x. x AND 0x2 = 0) dv 0x64 d = Some d' \<and> empty d' \<and> pend d' = pend d \<and> keep d' = keep d" for d
  proof -
    obtain xs y d' where "answers dv 0x64 (xs @ [y]) d d'" "\<forall>x \<in> set xs. x AND 2 \<noteq> 0" "y AND 2 = 0"
      and k: "empty d'" "pend d' = pend d" "keep d' = keep d"
      using spec [OF look, of d] by (elim exE conjE)
    then have "poll (\<lambda>x. x AND 0x2 = 0) dv 0x64 d = Some d'" by (intro poll_returns)
    with k show ?thesis by blast
  qed
  obtain d1 where d1: "poll (\<lambda>x. x AND 0x2 = 0) dv 0x64 d = Some d1" "empty d1" "keep d1 = keep d"
    using wait by blast
  obtain d2 where d2: "poll (\<lambda>x. x AND 0x2 = 0) dv 0x64 (outb dv 0x64 0xd1 d1) = Some d2" "empty d2"
    "pend d2 = pend (outb dv 0x64 0xd1 d1)" "keep d2 = keep (outb dv 0x64 0xd1 d1)"
    using wait by blast
  have "pend d2 \<and> keep d2 = keep d" using cmd d1(2,3) d2(3,4) by simp
  then have "a20 (outb dv 0x60 0xdf d2) = bit (0xdf :: byte) 1 \<and> keep (outb dv 0x60 0xdf d2) = keep d"
    using dat d2(2) by auto
  then show ?thesis using d1(1) d2(1) by (simp add: seta20_def Let_def)
qed

lemma set_video_mode_sets:
  assumes "vbe_laws int10 modes info own vmode keep" and "0x115 \<in> modes" and "c_es c = 0"
  shows "\<exists>m' d'. set_video_mode int10 (c, m, d) = (c\<lparr>c_ax := 0x4f, c_bx := 0x115, c_cx := 0x115, c_di := 0xf000\<rparr>, m', d')
    \<and> (\<forall>a. a \<in> own (c_ss c) (c_esp c) \<or> m' a = mem_write m 0xf000 (info 0x115) a)
    \<and> vmode d' = 0x115 \<and> keep d' = keep d"
proof -
  have query: "\<forall>c m d. c_ax c = 0x4f01 \<longrightarrow> c_cx c \<in> modes \<longrightarrow>
        (\<exists>m' d'. int10 c (m, d) = (c\<lparr>c_ax := 0x4f\<rparr>, m', d')
          \<and> (\<forall>a. a \<in> own (c_ss c) (c_esp c) \<or> m' a = mem_write m (seg_addr (c_es c) (c_di c)) (info (c_cx c)) a)
          \<and> keep d' = keep d)"
    and set_mode: "\<forall>c m d. c_ax c = 0x4f02 \<longrightarrow> c_bx c \<in> modes \<longrightarrow>
        (\<exists>m' d'. int10 c (m, d) = (c\<lparr>c_ax := 0x4f\<rparr>, m', d')
          \<and> (\<forall>a. a \<in> own (c_ss c) (c_esp c) \<or> m' a = m a) \<and> vmode d' = c_bx c \<and> keep d' = keep d)"
    using assms(1) unfolding vbe_laws_def by - (elim conjE, assumption)+
  let ?c = "c\<lparr>c_ax := 0x4f01, c_cx := 0x0115, c_di := 0xf000\<rparr>"
  have a: "seg_addr (c_es ?c) (c_di ?c) = 0xf000" using assms(3) by (simp add: seg_addr_def)
  have k: "c_ss ?c = c_ss c" "c_esp ?c = c_esp c" "c_cx ?c = 0x115" by simp_all
  have c1: "c_ax ?c = 0x4f01" "c_cx ?c \<in> modes" using assms(2) by simp_all
  obtain m1 d1 where s1: "int10 ?c (m, d) = (?c\<lparr>c_ax := 0x4f\<rparr>, m1, d1)"
    "\<forall>a. a \<in> own (c_ss ?c) (c_esp ?c) \<or> m1 a = mem_write m (seg_addr (c_es ?c) (c_di ?c)) (info (c_cx ?c)) a" "keep d1 = keep d"
    using query [rule_format, OF c1, of m d] by (elim exE conjE)
  let ?c2 = "?c\<lparr>c_ax := 0x4f\<rparr>\<lparr>c_ax := 0x4f02, c_bx := 0x0115\<rparr>"
  have k2: "c_ss ?c2 = c_ss c" "c_esp ?c2 = c_esp c" "c_bx ?c2 = 0x115" by simp_all
  have c2: "c_ax ?c2 = 0x4f02" "c_bx ?c2 \<in> modes" using assms(2) by simp_all
  obtain m2 d2 where s2: "int10 ?c2 (m1, d1) = (?c2\<lparr>c_ax := 0x4f\<rparr>, m2, d2)"
    "\<forall>a. a \<in> own (c_ss ?c2) (c_esp ?c2) \<or> m2 a = m1 a" "vmode d2 = c_bx ?c2" "keep d2 = keep d1"
    using set_mode [rule_format, OF c2, of m1 d1] by (elim exE conjE)
  have "set_video_mode int10 (c, m, d) = (?c2\<lparr>c_ax := 0x4f\<rparr>, m2, d2)"
    unfolding set_video_mode_def Let_def prod.case s1(1) s2(1) ..
  moreover have "?c2\<lparr>c_ax := 0x4f\<rparr> = c\<lparr>c_ax := 0x4f, c_bx := 0x115, c_cx := 0x115, c_di := 0xf000\<rparr>" by (cases c) simp
  ultimately have "set_video_mode int10 (c, m, d)
      = (c\<lparr>c_ax := 0x4f, c_bx := 0x115, c_cx := 0x115, c_di := 0xf000\<rparr>, m2, d2)"
    by (simp only:)
  moreover have "a \<in> own (c_ss c) (c_esp c) \<or> m2 a = mem_write m 0xf000 (info 0x115) a" for a
    using s1(2) [unfolded a k] s2(2) [unfolded k2] by metis
  moreover have "vmode d2 = 0x115" "keep d2 = keep d" using s1(3) s2(3,4) by simp_all
  ultimately show ?thesis by blast
qed

section \<open>Protected mode\<close>

definition flat :: "u32 \<Rightarrow> Segdesc \<Rightarrow> bool" where
  "flat type d \<longleftrightarrow> desc_base d = 0 \<and> desc_limit d = 0xFFFFFFFF \<and> f_get sd_type d = ucast type \<and> f_get sd_s d = 1
     \<and> f_get sd_dpl d = 0 \<and> f_get sd_p d = 1 \<and> f_get sd_db d = 1"

lemma flat_SEG: "unat type < 16 \<Longrightarrow> flat type (SEG type 0 0xffffffff 0)"
proof -
  assume "unat type < 16"
  then have "type = take_bit 4 type"
    by (simp add: word_unat_eq_iff unsigned_take_bit_eq take_bit_nat_eq_self)
  then have "ucast type AND mask 4 = (ucast type :: u64)"
    by (metis take_bit_eq_mask unsigned_take_bit_eq)
  then show ?thesis
    unfolding flat_def set_descriptor_SEG [where d = 0, symmetric]
    by (simp add: set_descriptor_base set_descriptor_limit flat_limit set_descriptor_fields)
qed

text \<open>The register after \<open>lgdt\<close> covers the null descriptor and the two segments.\<close>

lemma boot_descriptors:
  assumes "bytes_at m gdt_a boot_gdt" and "bytes_at m desc_a (gdtdesc gdt_a)" and "unat gdt_a < 0x1000000"
    and "r = c_gdtr (lgdt16 m desc_a c)"
  shows "dtr_limit r = 23" "dtr_base r = gdt_a"
    "descriptor m r 0x8 = Some (SEG (STA_X OR STA_R) 0 0xffffffff 0)"
    "descriptor m r 0x10 = Some (SEG STA_W 0 0xffffffff 0)"
    "descriptor m r 0x18 = None"
proof -
  have "gdt_a = take_bit 24 gdt_a"
    using assms(3) by (simp add: word_unat_eq_iff unsigned_take_bit_eq take_bit_nat_eq_self)
  then have low: "gdt_a AND 0xFFFFFF = gdt_a" by (simp add: take_bit_eq_mask mask_eq_exp_minus_1)
  have "bytes_at m desc_a (asm_word 0x17 @ asm_long gdt_a)" "bytes_at m (desc_a + 2) (asm_long gdt_a @ [])"
    using assms(2) bytes_at_append [of m desc_a "asm_word 0x17" "asm_long gdt_a"]
    by (simp_all add: gdtdesc_def asm_word_def)
  then show r: "dtr_limit r = 23" "dtr_base r = gdt_a"
    using load16_bytes [of m desc_a "0x17" "asm_long gdt_a"] load32_bytes [of m "desc_a + 2" gdt_a "[]"]
    by (simp_all add: assms(4) lgdt16_def low)
  have g: "bytes_at m (gdt_a + 8) (asm_SEG (STA_X OR STA_R) 0 0xffffffff @ asm_SEG STA_W 0 0xffffffff)"
    using assms(1) unfolding boot_gdt_def bytes_at_append by (simp add: asm_SEG_NULL_def asm_word_def asm_SEG_def)
  then have g2: "bytes_at m (gdt_a + 16) (asm_SEG STA_W 0 0xffffffff @ [])"
    unfolding bytes_at_append by (simp add: asm_SEG_def asm_word_def add.assoc)
  have t: "unat (STA_X OR STA_R) < 16" "unat STA_W < 16" by (simp_all add: STA_X_def STA_R_def STA_W_def)
  have "load64 m (gdt_a + 8) = SEG (STA_X OR STA_R) 0 0xffffffff 0" by (rule asm_SEG_loads [OF g t(1)])
  moreover have "load64 m (gdt_a + 16) = SEG STA_W 0 0xffffffff 0" by (rule asm_SEG_loads [OF g2 t(2)])
  ultimately show "descriptor m r 0x8 = Some (SEG (STA_X OR STA_R) 0 0xffffffff 0)"
    "descriptor m r 0x10 = Some (SEG STA_W 0 0xffffffff 0)" "descriptor m r 0x18 = None"
    by (simp_all add: descriptor_def r Let_def)
qed

lemma bytes_at_cong:
  assumes "bytes_at m a bs" "\<And>i. i < length bs \<Longrightarrow> m' (a + of_nat i) = m (a + of_nat i)"
  shows "bytes_at m' a bs"
  using assms by (simp add: bytes_at_def)

text \<open>The table and its descriptor lie in the boot sector, and the mode information elsewhere. The BIOS's memory
  lies beside both: the boot sector is loaded where the BIOS promises not to write.\<close>

definition in_sector :: "u32 \<Rightarrow> nat \<Rightarrow> bool" where
  "in_sector a n \<longleftrightarrow> 0x7c00 \<le> unat a \<and> unat a + n \<le> 0x7e00"

definition bios_beside :: "u32 set \<Rightarrow> bool" where
  "bios_beside own \<longleftrightarrow> (\<forall>a \<in> own. \<not> in_reg 0x7c00 512 a \<and> \<not> in_reg 0xf000 256 a)"

text \<open>What the two BIOS calls leave of memory.\<close>

definition after_bios :: "u32 set \<Rightarrow> byte list \<Rightarrow> mem \<Rightarrow> mem \<Rightarrow> bool" where
  "after_bios own info m m' \<longleftrightarrow> (\<forall>a. a \<in> own \<or> m' a = mem_write m 0xf000 info a)"

lemma sector_kept:
  assumes "bytes_at m a bs" "in_sector a (length bs)" "length xs = 256" "bios_beside own" "after_bios own xs m m'"
  shows "bytes_at m' a bs"
proof (rule bytes_at_cong [OF assms(1)])
  fix i assume i: "i < length bs"
  have n: "unat (a + of_nat i) = unat a + i"
    using i assms(2) unat_of_nat32 [of i] by (simp add: in_sector_def unat_add_word)
  then have "\<not> in_reg 0xf000 (length xs) (a + of_nat i)"
    using i assms(2,3) by (simp add: in_sector_def in_reg_nat)
  then have w: "mem_write m 0xf000 xs (a + of_nat i) = m (a + of_nat i)"
    using assms(3) by (intro mem_write_outside) simp_all
  have "in_reg 0x7c00 512 (a + of_nat i)" using n i assms(2) by (simp add: in_sector_def in_reg_nat)
  then have "a + of_nat i \<notin> own" using assms(4) unfolding bios_beside_def by blast
  then show "m' (a + of_nat i) = m (a + of_nat i)" using assms(5) w unfolding after_bios_def by metis
qed

lemma start_runs:
  assumes vbe: "vbe_laws int10 modes info own vmode keep" "0x115 \<in> modes" "bios_beside (own 0 (c_esp c))"
    and kbc: "kbc_laws dv pend a20 (\<lambda>d. (vmode d, keep d))"
    and gdt: "bytes_at m gdt_a boot_gdt" "in_sector gdt_a 24"
    and dsc: "bytes_at m desc_a (gdtdesc gdt_a)" "in_sector desc_a 6"
  shows "\<exists>c' m1 d'. start int10 dv desc_a (c, m, d) = Some (c', m1, d') \<and> after_bios (own 0 (c_esp c)) (info 0x115) m m1
    \<and> c_cr0 c' = c_cr0 c OR CR0_PE_ON \<and> \<not> c_if c' \<and> \<not> c_df c' \<and> c_esp c' = 0xffff
    \<and> c_cs c' = 0x8 \<and> set [c_ds c', c_es c', c_fs c', c_gs c', c_ss c'] = {0x10}
    \<and> (\<exists>e. descriptor m1 (c_gdtr c') 0x8 = Some e \<and> flat 0xA e)
    \<and> (\<exists>e. descriptor m1 (c_gdtr c') 0x10 = Some e \<and> flat 0x2 e)
    \<and> descriptor m1 (c_gdtr c') 0x18 = None
    \<and> a20 d' \<and> vmode d' = 0x115 \<and> keep d' = keep d"
proof -
  have real: "c_es (real_setup c) = 0" "c_ss (real_setup c) = 0" "c_esp (real_setup c) = c_esp c" by (simp_all add: real_setup_def)
  let ?b = "(real_setup c)\<lparr>c_ax := 0x4f, c_bx := 0x115, c_cx := 0x115, c_di := 0xf000\<rparr>"
  obtain m1 d1 where vm: "set_video_mode int10 (real_setup c, m, d) = (?b, m1, d1)"
    and m1: "after_bios (own 0 (c_esp c)) (info 0x115) m m1" and d1: "vmode d1 = 0x115" "keep d1 = keep d"
    using set_video_mode_sets [OF vbe(1,2) real(1), of m d] unfolding real after_bios_def by blast
  obtain d2 where a: "seta20 dv d1 = Some d2" "a20 d2" "(vmode d2, keep d2) = (vmode d1, keep d1)"
    using seta20_opens [OF kbc] by blast
  have l: "length (info 0x115) = 256" using vbe(1,2) by (simp add: vbe_laws_def)
  have lens: "length boot_gdt = 24" "length (gdtdesc gdt_a) = 6"
    by (simp_all add: boot_gdt_def asm_SEG_NULL_def asm_SEG_def asm_word_def gdtdesc_def asm_long_def)
  have g: "bytes_at m1 gdt_a boot_gdt" "bytes_at m1 desc_a (gdtdesc gdt_a)"
    using sector_kept [OF gdt(1) _ l vbe(3) m1] sector_kept [OF dsc(1) _ l vbe(3) m1] gdt(2) dsc(2) lens by simp_all
  have "unat gdt_a < 0x1000000" using gdt(2) by (simp add: in_sector_def)
  note ds = boot_descriptors [OF g this refl, of ?b]
  have f: "flat 0xA (SEG (STA_X OR STA_R) 0 0xffffffff 0)" "flat 0x2 (SEG STA_W 0 0xffffffff 0)"
    using flat_SEG [of "STA_X OR STA_R"] flat_SEG [of STA_W] by (simp_all add: STA_X_def STA_R_def STA_W_def)
  let ?c = "protcseg (protect m1 desc_a ?b)"
  have gr: "c_gdtr ?c = c_gdtr (lgdt16 m1 desc_a ?b)"
    by (simp add: protcseg_def protect_def Let_def lgdt16_def)
  have "start int10 dv desc_a (c, m, d) = Some (?c, m1, d2)"
    unfolding start_def Let_def prod.case vm a(1) option.case ..
  moreover have "c_cr0 ?c = c_cr0 c OR CR0_PE_ON" "\<not> c_if ?c" "\<not> c_df ?c" "c_esp ?c = 0xffff" "c_cs ?c = 0x8"
    "set [c_ds ?c, c_es ?c, c_fs ?c, c_gs ?c, c_ss ?c] = {0x10}"
    by (simp_all add: protcseg_def protect_def Let_def lgdt16_def real_setup_def PROT_MODE_CSEG_def PROT_MODE_DSEG_def)
  ultimately show ?thesis
    using ds(3-5) f a(2,3) d1 m1 gr by (intro exI [of _ ?c] exI [of _ m1] exI [of _ d2]) simp
qed

section \<open>Properties\<close>

text \<open>C10: the boot sector's first half ends, whatever the state of the processor was, in 32-bit
  protected mode: the protection bit is set, interrupts are off, strings go upwards, the
  stack pointer is set, the code selector names a flat 4 GB code segment and all data
  selectors a flat 4 GB data segment of ring 0 in the table that the assembler laid out,
  which has no further entry; the A20 gate is open; video mode 0x115 is set and its mode
  information lies at 0xf000; memory has changed there and in the BIOS's own memory only; the rest of
  the devices (\<open>keep\<close>) is untouched. This holds for a BIOS that supports the mode and whose own memory
  lies beside the boot sector and the mode information, and for a keyboard controller that takes a
  byte only while its input buffer is empty.\<close>

theorem start_enters:
  assumes "vbe_laws int10 modes info own vmode keep" and "0x115 \<in> modes" and "bios_beside (own 0 (c_esp c))"
    and "kbc_laws dv pend a20 (\<lambda>d. (vmode d, keep d))"
    and "bytes_at m gdt_a boot_gdt" and "in_sector gdt_a 24"
    and "bytes_at m desc_a (gdtdesc gdt_a)" and "in_sector desc_a 6"
  shows "\<exists>c' m1 d'. start int10 dv desc_a (c, m, d) = Some (c', m1, d') \<and> after_bios (own 0 (c_esp c)) (info 0x115) m m1
    \<and> c_cr0 c' = c_cr0 c OR CR0_PE_ON \<and> \<not> c_if c' \<and> \<not> c_df c' \<and> c_esp c' = 0xffff
    \<and> c_cs c' = 0x8 \<and> set [c_ds c', c_es c', c_fs c', c_gs c', c_ss c'] = {0x10}
    \<and> (\<exists>e. descriptor m1 (c_gdtr c') 0x8 = Some e \<and> flat 0xA e)
    \<and> (\<exists>e. descriptor m1 (c_gdtr c') 0x10 = Some e \<and> flat 0x2 e)
    \<and> descriptor m1 (c_gdtr c') 0x18 = None
    \<and> a20 d' \<and> vmode d' = 0x115 \<and> keep d' = keep d"
  by (rule start_runs [OF assms])

text \<open>A keyboard controller that is busy for one look after every byte and loses what it is given meanwhile,
  and a video BIOS that supports one mode, pushes its return frame and counts its calls at 0x449 in its
  data area.\<close>

record ctl =
  ctl_busy :: bool
  ctl_pend :: bool
  ctl_a20 :: bool
  ctl_mode :: u16

definition ctl_out :: "u16 \<Rightarrow> byte \<Rightarrow> ctl \<Rightarrow> ctl" where
  "ctl_out port x d =
     (if ctl_busy d then d
      else if port = 0x64 then d\<lparr>ctl_busy := True, ctl_pend := x = 0xd1\<rparr>
      else if port = 0x60 \<and> ctl_pend d then d\<lparr>ctl_busy := True, ctl_pend := False, ctl_a20 := bit x 1\<rparr>
      else d)"

definition sim_ctl :: "ctl device" where
  "sim_ctl = \<lparr>dev_in = (\<lambda>w port d. ((if ctl_busy d then 2 else 0), d\<lparr>ctl_busy := False\<rparr>)),
     dev_out = (\<lambda>w port x d. ctl_out port (ucast x) d)\<rparr>"

definition bios_own :: "u16 \<Rightarrow> u32 \<Rightarrow> u32 set" where
  "bios_own sel p = {a. in_reg 0x400 0x200 a \<or> in_reg (seg_addr sel (ucast p) - 64) 64 a}"

definition bios_call :: "cpu \<Rightarrow> mem \<Rightarrow> mem" where
  "bios_call c m = (store32 m (seg_addr (c_ss c) (ucast (c_esp c)) - 4) 0xF000E2F3)(0x449 := m 0x449 + 1)"

definition bios_info :: "u16 \<Rightarrow> byte list" where
  "bios_info mode = (replicate 256 0)[0x10 := 0x60, 0x11 := 0x09, 0x12 := 0x20, 0x13 := 0x03, 0x14 := 0x58, 0x15 := 0x02, 0x2B := 0xFD]"

text \<open>The video service, on any devices of which it sets the mode.\<close>

definition sim_bios :: "(u16 \<Rightarrow> 'd \<Rightarrow> 'd) \<Rightarrow> 'd bios" where
  "sim_bios set_mode c s =
     (let m = bios_call c (fst s)
      in if c_ax c = 0x4f01 \<and> c_cx c = 0x115 then (c\<lparr>c_ax := 0x4f\<rparr>, mem_write m (seg_addr (c_es c) (c_di c)) (bios_info (c_cx c)), snd s)
         else if c_ax c = 0x4f02 \<and> c_bx c = 0x115 then (c\<lparr>c_ax := 0x4f\<rparr>, m, set_mode (c_bx c) (snd s))
         else (c\<lparr>c_ax := 0x14f\<rparr>, m, snd s))"

lemma bios_call_own: "a \<in> bios_own (c_ss c) (c_esp c) \<or> bios_call c m a = m a"
proof -
  let ?p = "seg_addr (c_ss c) (ucast (c_esp c))"
  have "in_reg (?p - 64) 64 a" if "in_reg (?p - 4) 4 a"
  proof -
    have "in_reg (?p - 64 + of_nat 60) 4 a" using that by (simp add: algebra_simps)
    then show ?thesis using in_reg_add [of 60 4 "?p - 64" a] by simp
  qed
  moreover have "in_reg 0x400 0x200 0x449" by (simp add: in_reg_def)
  ultimately show ?thesis
    by (auto simp: bios_own_def bios_call_def store32_apply in_reg_def [of _ 4])
qed

lemma sim_bios_laws:
  assumes "\<And>x d. vmode (set_mode x d) = x" and "\<And>x d. keep (set_mode x d) = keep d"
  shows "vbe_laws (sim_bios set_mode) {0x115} bios_info bios_own vmode keep"
proof -
  have l: "length (bios_info mode) = 256" for mode by (simp add: bios_info_def)
  have w: "a \<in> bios_own (c_ss c) (c_esp c) \<or> mem_write (bios_call c m) b (bios_info x) a = mem_write m b (bios_info x) a" for a b c m x
  proof (cases "in_reg b 256 a")
    case True
    then obtain i where "i < 256" "a = b + of_nat i" by (auto simp: in_reg_def intro: that [of "unat (a - b)"])
    then show ?thesis using l by (simp add: mem_write_nth)
  next
    case False
    then show ?thesis using bios_call_own [of a c m] l by (simp add: mem_write_outside)
  qed
  show ?thesis
    unfolding vbe_laws_def using l w bios_call_own assms by (simp add: sim_bios_def Let_def)
qed

lemma ctl_looks:
  "answers sim_ctl 0x64 ((if ctl_busy d then [2] else []) @ [0]) d (d\<lparr>ctl_busy := False\<rparr>)"
  by (simp add: sim_ctl_def inb_def)

lemma sim_ctl_laws: "kbc_laws sim_ctl ctl_pend ctl_a20 (\<lambda>d. (ctl_mode d, ()))"
proof -
  have "\<exists>xs y d'. answers sim_ctl 0x64 (xs @ [y]) d d' \<and> (\<forall>x \<in> set xs. x AND 2 \<noteq> 0) \<and> y AND 2 = 0
        \<and> \<not> ctl_busy d' \<and> ctl_pend d' = ctl_pend d \<and> ctl_a20 d' = ctl_a20 d \<and> (ctl_mode d', ()) = (ctl_mode d, ())" for d
    using ctl_looks [of d]
    by (intro exI [of _ "if ctl_busy d then [2] else []"] exI [of _ 0] exI [of _ "d\<lparr>ctl_busy := False\<rparr>"]) simp
  moreover have "ucast (ucast x :: u32) = (x :: byte)" for x
    by (rule bit_word_eqI) (auto simp: bit_simps)
  ultimately show ?thesis
    unfolding kbc_laws_def by (intro exI [of _ "\<lambda>d. \<not> ctl_busy d"]) (simp add: sim_ctl_def outb_def ctl_out_def)
qed

lemma bios_beside_stack:
  "bios_beside (bios_own 0 0x7c00)"
  by (auto simp: bios_beside_def bios_own_def seg_addr_def in_reg_nat)

definition start_cpu :: cpu where
  "start_cpu = \<lparr>c_if = True, c_df = True, c_ax = 1, c_bx = 2, c_cx = 3, c_di = 4, c_cs = 0, c_ds = 5,
     c_es = 6, c_fs = 7, c_gs = 8, c_ss = 0, c_esp = 0x7c00, c_cr0 = 0x10, c_gdtr = \<lparr>dtr_limit = 0, dtr_base = 0\<rparr>\<rparr>"

theorem start_enters_witness:
  "\<exists>c' m1 d'. start (sim_bios (\<lambda>x d. d\<lparr>ctl_mode := x\<rparr>)) sim_ctl 0x7D20 (start_cpu,
       mem_write (\<lambda>_. 0) 0x7D08 (boot_gdt @ gdtdesc 0x7D08),
       \<lparr>ctl_busy = True, ctl_pend = False, ctl_a20 = False, ctl_mode = 3\<rparr>) = Some (c', m1, d')
    \<and> c_cr0 c' = 0x11 \<and> \<not> c_if c' \<and> c_cs c' = 8 \<and> ctl_a20 d' \<and> ctl_mode d' = 0x115 \<and> m1 0xf02b = 0xFD"
proof -
  let ?m = "mem_write (\<lambda>_. 0) 0x7D08 (boot_gdt @ gdtdesc 0x7D08)"
  have g: "length boot_gdt = 24" "length (gdtdesc 0x7D08) = 6"
    by (simp_all add: boot_gdt_def asm_SEG_NULL_def asm_SEG_def asm_word_def gdtdesc_def asm_long_def)
  have "bytes_at ?m 0x7D08 (boot_gdt @ gdtdesc 0x7D08)"
    unfolding bytes_at_def using g by (simp add: mem_write_nth)
  then have b: "bytes_at ?m 0x7D08 boot_gdt" "bytes_at ?m 0x7D20 (gdtdesc 0x7D08)"
    unfolding bytes_at_append g by simp_all
  have sec: "in_sector 0x7D08 24" "in_sector 0x7D20 6" by (simp_all add: in_sector_def)
  have sp: "c_esp start_cpu = 0x7c00" "c_cr0 start_cpu OR CR0_PE_ON = 0x11" by (simp_all add: start_cpu_def CR0_PE_ON_def)
  have laws: "vbe_laws (sim_bios (\<lambda>x d. d\<lparr>ctl_mode := x\<rparr>)) {0x115} bios_info bios_own ctl_mode (\<lambda>_. ())"
    by (rule sim_bios_laws) simp_all
  note run = start_enters [where c = start_cpu, unfolded sp, OF laws _ bios_beside_stack sim_ctl_laws b(1) sec(1) b(2) sec(2), simplified,
      of "\<lparr>ctl_busy = True, ctl_pend = False, ctl_a20 = False, ctl_mode = 3\<rparr>"]
  have "m1 0xf02b = 0xFD" if "after_bios (bios_own 0 0x7c00) (bios_info 0x115) ?m m1" for m1
  proof -
    have "0xf02b \<notin> bios_own 0 0x7c00" by (simp add: bios_own_def seg_addr_def in_reg_nat)
    moreover have "mem_write ?m 0xf000 (bios_info 0x115) (0xf000 + of_nat 43) = bios_info 0x115 ! 43"
      by (rule mem_write_nth) (simp_all add: bios_info_def)
    then have "mem_write ?m 0xf000 (bios_info 0x115) 0xf02b = 0xFD" by (simp add: bios_info_def)
    ultimately show ?thesis using that unfolding after_bios_def by metis
  qed
  then show ?thesis using run by blast
qed

end
