(* ===== verification/Kbdreg.thy ===== *)
theory Kbdreg
  imports Keyboard Start
begin

text \<open>
  The numbers of \<open>inc/kbdreg.h\<close>: ports, status bits, commands and answers of the keyboard controller
  and of the keyboard. No file of the repository includes the header; the boot code and the
  keyboard driver write the numbers out. The lemmas say which of them they are.
\<close>

section \<open>inc/kbdreg.h\<close>

definition KEY_HOME :: byte where "KEY_HOME = 0xE0"
definition KEY_END :: byte where "KEY_END = 0xE1"
definition KEY_UP_kbd :: byte where "KEY_UP_kbd = 0xE2"
definition KEY_DN :: byte where "KEY_DN = 0xE3"
definition KEY_LF :: byte where "KEY_LF = 0xE4"
definition KEY_RT :: byte where "KEY_RT = 0xE5"
definition KEY_PGUP :: byte where "KEY_PGUP = 0xE6"
definition KEY_PGDN :: byte where "KEY_PGDN = 0xE7"
definition KEY_INS :: byte where "KEY_INS = 0xE8"
definition KEY_DEL :: byte where "KEY_DEL = 0xE9"

definition KBSTATP :: u16 where "KBSTATP = 0x64"
definition KBS_DIB :: byte where "KBS_DIB = 0x01"
definition KBS_IBF :: byte where "KBS_IBF = 0x02"
definition KBS_WARM :: byte where "KBS_WARM = 0x04"
definition KBS_OCMD :: byte where "KBS_OCMD = 0x08"
definition KBS_NOSEC :: byte where "KBS_NOSEC = 0x10"
definition KBS_TERR :: byte where "KBS_TERR = 0x20"
definition KBS_RERR :: byte where "KBS_RERR = 0x40"
definition KBS_PERR :: byte where "KBS_PERR = 0x80"
definition KBCMDP :: u16 where "KBCMDP = 0x64"
definition KBC_RAMREAD :: byte where "KBC_RAMREAD = 0x20"
definition KBC_RAMWRITE :: byte where "KBC_RAMWRITE = 0x60"
definition KBC_AUXDISABLE :: byte where "KBC_AUXDISABLE = 0xa7"
definition KBC_AUXENABLE :: byte where "KBC_AUXENABLE = 0xa8"
definition KBC_AUXTEST :: byte where "KBC_AUXTEST = 0xa9"
definition KBC_KBDECHO :: byte where "KBC_KBDECHO = 0xd2"
definition KBC_AUXECHO :: byte where "KBC_AUXECHO = 0xd3"
definition KBC_AUXWRITE :: byte where "KBC_AUXWRITE = 0xd4"
definition KBC_SELFTEST :: byte where "KBC_SELFTEST = 0xaa"
definition KBC_KBDTEST :: byte where "KBC_KBDTEST = 0xab"
definition KBC_KBDDISABLE :: byte where "KBC_KBDDISABLE = 0xad"
definition KBC_KBDENABLE :: byte where "KBC_KBDENABLE = 0xae"
definition KBC_PULSE0 :: byte where "KBC_PULSE0 = 0xfe"
definition KBC_PULSE1 :: byte where "KBC_PULSE1 = 0xfd"
definition KBC_PULSE2 :: byte where "KBC_PULSE2 = 0xfb"
definition KBC_PULSE3 :: byte where "KBC_PULSE3 = 0xf7"
definition KBDATAP :: u16 where "KBDATAP = 0x60"
definition KBOUTP :: u16 where "KBOUTP = 0x60"

definition K_RDCMDBYTE :: byte where "K_RDCMDBYTE = 0x20"
definition K_LDCMDBYTE :: byte where "K_LDCMDBYTE = 0x60"
definition KC8_TRANS :: byte where "KC8_TRANS = 0x40"
definition KC8_MDISABLE :: byte where "KC8_MDISABLE = 0x20"
definition KC8_KDISABLE :: byte where "KC8_KDISABLE = 0x10"
definition KC8_IGNSEC :: byte where "KC8_IGNSEC = 0x08"
definition KC8_CPU :: byte where "KC8_CPU = 0x04"
definition KC8_MENABLE :: byte where "KC8_MENABLE = 0x02"
definition KC8_KENABLE :: byte where "KC8_KENABLE = 0x01"
definition CMDBYTE :: byte where "CMDBYTE = KC8_TRANS OR KC8_CPU OR KC8_MENABLE OR KC8_KENABLE"

definition KBC_RESET :: byte where "KBC_RESET = 0xFF"
definition KBC_RESEND :: byte where "KBC_RESEND = 0xFE"
definition KBC_SETDEFAULT :: byte where "KBC_SETDEFAULT = 0xF6"
definition KBC_DISABLE :: byte where "KBC_DISABLE = 0xF5"
definition KBC_ENABLE :: byte where "KBC_ENABLE = 0xF4"
definition KBC_TYPEMATIC :: byte where "KBC_TYPEMATIC = 0xF3"
definition KBC_SETTABLE :: byte where "KBC_SETTABLE = 0xF0"
definition KBC_MODEIND :: byte where "KBC_MODEIND = 0xED"
definition KBC_ECHO :: byte where "KBC_ECHO = 0xEE"

definition KBR_EXTENDED :: byte where "KBR_EXTENDED = 0xE0"
definition KBR_RESEND :: byte where "KBR_RESEND = 0xFE"
definition KBR_ACK :: byte where "KBR_ACK = 0xFA"
definition KBR_OVERRUN :: byte where "KBR_OVERRUN = 0x00"
definition KBR_FAILURE :: byte where "KBR_FAILURE = 0xFD"
definition KBR_BREAK :: byte where "KBR_BREAK = 0xF0"
definition KBR_RSTDONE :: byte where "KBR_RSTDONE = 0xAA"
definition KBR_ECHO :: byte where "KBR_ECHO = 0xEE"

section \<open>Agreement with the code\<close>

text \<open>\<open>seta20\<close> waits for the input buffer with the status port, writes a command that the header does
  not have (write the output port) and its data.\<close>

lemma seta20_ports:
  "seta20 dv d =
     (case poll (\<lambda>x. x AND KBS_IBF = 0) dv KBSTATP d of
        None \<Rightarrow> None
      | Some d \<Rightarrow>
          (case poll (\<lambda>x. x AND KBS_IBF = 0) dv KBSTATP (outb dv KBCMDP 0xd1 d) of
             None \<Rightarrow> None
           | Some d \<Rightarrow> Some (outb dv KBOUTP 0xdf d)))"
  unfolding seta20_def Let_def KBS_IBF_def KBSTATP_def KBCMDP_def KBOUTP_def by (rule refl)

text \<open>\<open>get_key\<close> reads the data port without looking at \<open>KBS_DIB\<close>. It reads both bytes of an extended
  key; a code is a release when the bit that \<open>KBR_BREAK\<close> stands for in the keyboard's own codes is
  set in the translated ones.\<close>

lemma read_code_port:
  "read_code dv d =
     (let (c, d) = inb dv KBDATAP d
      in if c = KBR_EXTENDED then (let (c', d) = inb dv KBDATAP d in (push_bit 8 (ucast c) OR ucast c', d)) else (ucast c, d))"
proof -
  have "(ucast c :: u32) = 0xE0 \<longleftrightarrow> c = 0xE0" for c :: byte
    using unsigned_less [where 'a = nat, of c] by (simp add: word_unat_eq_iff unsigned_ucast_eq take_bit_eq_mod)
  then show ?thesis by (simp add: read_code_def Let_def KBDATAP_def KBR_EXTENDED_def split: prod.split)
qed

text \<open>The status bits are one each, and make up the byte; the mode of the controller leaves the keyboard and
  the mouse enabled.\<close>

lemma status_bits:
  "KBS_DIB + KBS_IBF + KBS_WARM + KBS_OCMD + KBS_NOSEC + KBS_TERR + KBS_RERR + KBS_PERR = 0xFF"
  "KBS_DIB OR KBS_IBF OR KBS_WARM OR KBS_OCMD OR KBS_NOSEC OR KBS_TERR OR KBS_RERR OR KBS_PERR = 0xFF"
  "CMDBYTE = 0x47" "CMDBYTE AND (KC8_MDISABLE OR KC8_KDISABLE) = 0"
  by (simp_all add: KBS_DIB_def KBS_IBF_def KBS_WARM_def KBS_OCMD_def KBS_NOSEC_def KBS_TERR_def KBS_RERR_def KBS_PERR_def
    CMDBYTE_def KC8_TRANS_def KC8_CPU_def KC8_MENABLE_def KC8_KENABLE_def KC8_MDISABLE_def KC8_KDISABLE_def)

text \<open>Each of the four pulse commands clears one of the low bits of the output port.\<close>

lemma pulse_bits: "[KBC_PULSE0, KBC_PULSE1, KBC_PULSE2, KBC_PULSE3] = map (\<lambda>i. NOT (2 ^ i)) [0..<4]"
  by (simp add: KBC_PULSE0_def KBC_PULSE1_def KBC_PULSE2_def KBC_PULSE3_def upt_rec)

end
