(* ===== verification/Stab.thy ===== *)
theory Stab
  imports Prelude
begin

text \<open>
  The debug symbols of \<open>inc/stab.h\<close>: symbol types and the entry of a symbol table in memory. No file of
  the repository reads them.
\<close>

section \<open>inc/stab.h\<close>

definition N_GSYM :: byte where "N_GSYM = 0x20"
definition N_FNAME :: byte where "N_FNAME = 0x22"
definition N_FUN :: byte where "N_FUN = 0x24"
definition N_STSYM :: byte where "N_STSYM = 0x26"
definition N_LCSYM :: byte where "N_LCSYM = 0x28"
definition N_MAIN :: byte where "N_MAIN = 0x2a"
definition N_PC :: byte where "N_PC = 0x30"
definition N_RSYM :: byte where "N_RSYM = 0x40"
definition N_SLINE :: byte where "N_SLINE = 0x44"
definition N_DSLINE :: byte where "N_DSLINE = 0x46"
definition N_BSLINE :: byte where "N_BSLINE = 0x48"
definition N_SSYM :: byte where "N_SSYM = 0x60"
definition N_SO :: byte where "N_SO = 0x64"
definition N_LSYM :: byte where "N_LSYM = 0x80"
definition N_BINCL :: byte where "N_BINCL = 0x82"
definition N_SOL :: byte where "N_SOL = 0x84"
definition N_PSYM :: byte where "N_PSYM = 0xa0"
definition N_EINCL :: byte where "N_EINCL = 0xa2"
definition N_ENTRY :: byte where "N_ENTRY = 0xa4"
definition N_LBRAC :: byte where "N_LBRAC = 0xc0"
definition N_EXCL :: byte where "N_EXCL = 0xc2"
definition N_RBRAC :: byte where "N_RBRAC = 0xe0"
definition N_BCOMM :: byte where "N_BCOMM = 0xe2"
definition N_ECOMM :: byte where "N_ECOMM = 0xe4"
definition N_ECOML :: byte where "N_ECOML = 0xe8"
definition N_LENG :: byte where "N_LENG = 0xfe"

record Stab =
  n_strx :: u32
  n_type :: byte
  n_other :: byte
  n_desc :: u16
  n_value :: u32

definition Stab_at :: "mem \<Rightarrow> u32 \<Rightarrow> Stab" where
  "Stab_at m a = \<lparr>n_strx = load32 m a, n_type = m (a + 4), n_other = m (a + 5), n_desc = load16 m (a + 6),
     n_value = load32 m (a + 8)\<rparr>"

section \<open>Entries and types\<close>

text \<open>An entry is its twelve bytes: there is no padding.\<close>

lemma Stab_at_cong:
  assumes "\<And>i. i < 12 \<Longrightarrow> m (a + of_nat i) = m' (a + of_nat i)"
  shows "Stab_at m a = Stab_at m' a"
proof -
  have b: "m (a + of_nat i) = m' (a + of_nat i)" if "i < 12" for i using assms that .
  show ?thesis
    using b [of 0] b [of 1] b [of 2] b [of 3] b [of 4] b [of 5] b [of 6] b [of 7] b [of 8] b [of 9] b [of 10] b [of 11]
    by (simp add: Stab_at_def load32_def load16_def add.assoc)
qed

text \<open>A symbol type is told apart from every other one by its byte; all of them are even, the low bit being
  the mark of an external symbol.\<close>

definition stab_types :: "byte list" where
  "stab_types =
     [N_GSYM, N_FNAME, N_FUN, N_STSYM, N_LCSYM, N_MAIN, N_PC, N_RSYM, N_SLINE, N_DSLINE, N_BSLINE, N_SSYM,
      N_SO, N_LSYM, N_BINCL, N_SOL, N_PSYM, N_EINCL, N_ENTRY, N_LBRAC, N_EXCL, N_RBRAC, N_BCOMM, N_ECOMM,
      N_ECOML, N_LENG]"

lemma stab_types_distinct: "distinct stab_types" "\<forall>t \<in> set stab_types. t AND 1 = 0"
  by (simp_all add: stab_types_def
    N_GSYM_def N_FNAME_def N_FUN_def N_STSYM_def N_LCSYM_def N_MAIN_def N_PC_def N_RSYM_def N_SLINE_def
    N_DSLINE_def N_BSLINE_def N_SSYM_def N_SO_def N_LSYM_def N_BINCL_def N_SOL_def N_PSYM_def N_EINCL_def
    N_ENTRY_def N_LBRAC_def N_EXCL_def N_RBRAC_def N_BCOMM_def N_ECOMM_def N_ECOML_def N_LENG_def)

end
