(* ===== verification/KernelLog.thy ===== *)
theory KernelLog
  imports PageMap Print
begin

text \<open>
  The kernel's log on the serial port: the trace of executed log macros that the kernel state
  carries (\<open>PageMap\<close>) is sent with the macros of \<open>kernel/debug.h\<close> (\<open>Print\<close>). The components
  that log use no device, so their lines may be sent when they have returned.
\<close>

section \<open>Sending the trace\<close>

fun send_call :: "'d device \<Rightarrow> (string \<Rightarrow> u32) \<Rightarrow> mem \<Rightarrow> log_call \<Rightarrow> 'd \<Rightarrow> (int \<times> 'd) result option" where
  "send_call dv lit m (LogLine fl fn line s) d = LOG dv lit m fl fn line s [] d"
| "send_call dv lit m (LogExpr fl fn line e v) d = LOG_EXPR dv lit m fl fn line e v d"

fun send_log :: "'d device \<Rightarrow> (string \<Rightarrow> u32) \<Rightarrow> mem \<Rightarrow> log_call list \<Rightarrow> 'd \<Rightarrow> 'd result option" where
  "send_log dv lit m [] d = Some (Inr d)"
| "send_log dv lit m (c # cs) d = and_then (send_call dv lit m c d) (\<lambda>(n, d). send_log dv lit m cs d)"

section \<open>The text of the trace\<close>

definition line_text :: "string \<Rightarrow> string \<Rightarrow> u32 \<Rightarrow> string \<Rightarrow> string" where
  "line_text fl fn line s = LOG_COLOR @ ''['' @ fl @ ''#'' @ fn @ '':'' @ dec_text (unat line) @ ''] '' @ s @ END_COLOR @ [CHR 0x0A]"

fun call_text :: "log_call \<Rightarrow> string" where
  "call_text (LogLine fl fn line s) = line_text fl fn line s"
| "call_text (LogExpr fl fn line e v) = line_text fl fn line (e @ '' is 0x'' @ hex_text (unat v))"

definition log_text :: "log_call list \<Rightarrow> string" where
  "log_text cs = concat (map call_text cs)"

lemma log_text_simps [simp]: "log_text [] = []" "log_text (c # cs) = call_text c @ log_text cs"
  "log_text (cs @ ds) = log_text cs @ log_text ds"
  by (simp_all add: log_text_def)

text \<open>The literals of a call, and the calls whose text is taken literally: no percent sign in
  what the macro pastes into its format, and a line number that is not negative.\<close>

fun call_strings :: "log_call \<Rightarrow> string set" where
  "call_strings (LogLine fl fn line s) = {fl, fn, line_fmt LOG_COLOR s}"
| "call_strings (LogExpr fl fn line e v) = {fl, fn, line_fmt LOG_COLOR (e @ '' is 0x%x'')}"

fun call_ok :: "log_call \<Rightarrow> bool" where
  "call_ok (LogLine fl fn line s) \<longleftrightarrow> plain s \<and> unat line < 2147483648"
| "call_ok (LogExpr fl fn line e v) \<longleftrightarrow> plain e \<and> unat line < 2147483648"

lemma line_number_text:
  assumes "unat (line :: u32) < 2147483648"
  shows "map word_of_int (int_text Blank 0 (sint line)) = (map chr (dec_text (unat line)) :: byte list)"
proof -
  have "sint line = int (unat line)" 
    using sint_small [of line] assms by simp
  then show ?thesis by (simp add: int_text_def num_text_def dec_text_def chr_of_ic)
qed

lemma send_call_sends:
  assumes "uart_open dv sent ctl d" and "lits_ok UNIV m lit" and "\<forall>t \<in> call_strings c. placed m lit t" and "call_ok c"
  shows "\<exists>n d'. send_call dv lit m c d = Some (Inr (n, d')) \<and> sent d' = sent d @ map chr (call_text c) \<and> ctl d' = ctl d"
proof (cases c)
  case (LogLine fl fn line s)
  then have "unat line < 2147483648" using assms(4) by simp
  from line_number_text [OF this] show ?thesis
    using log_line_sent [OF assms(1,2), of fl fn s line] assms(3,4) LogLine by (auto simp: line_text_def)
next
  case (LogExpr fl fn line e v)
  then have "unat line < 2147483648" using assms(4) by simp
  from line_number_text [OF this] show ?thesis
    using log_expr_sent [OF assms(1,2), of fl fn e line v] assms(3,4) LogExpr by (auto simp: line_text_def hex_text_def)
qed

lemma send_log_sends:
  assumes "lits_ok UNIV m lit" and "\<forall>c \<in> set cs. (\<forall>t \<in> call_strings c. placed m lit t) \<and> call_ok c"
  shows "uart_open dv sent ctl d \<Longrightarrow>
    \<exists>d'. send_log dv lit m cs d = Some (Inr d') \<and> sent d' = sent d @ map chr (log_text cs) \<and> ctl d' = ctl d"
  using assms(2)
proof (induction cs arbitrary: d)
  case Nil
  then show ?case by simp
next
  case (Cons c cs)
  then have c: "\<forall>t \<in> call_strings c. placed m lit t" "call_ok c" by simp_all
  obtain n d1 where d1: "send_call dv lit m c d = Some (Inr (n, d1))" "sent d1 = sent d @ map chr (call_text c)" "ctl d1 = ctl d"
    using send_call_sends [OF Cons.prems(1) assms(1) c] by blast
  obtain d2 where "send_log dv lit m cs d1 = Some (Inr d2)" "sent d2 = sent d1 @ map chr (log_text cs)" "ctl d2 = ctl d1"
    using Cons.IH [OF uart_open_kept [OF Cons.prems(1) d1(3)]] Cons.prems by auto
  then show ?case using d1 by auto
qed

section \<open>Panics\<close>

text \<open>A panic that a component has reached is the macro's line on the serial port, before it spins.\<close>

fun halt :: "'d device \<Rightarrow> (string \<Rightarrow> u32) \<Rightarrow> mem \<Rightarrow> fault \<Rightarrow> 'd \<Rightarrow> 'd result option" where
  "halt dv lit m (Panic ((fl, fn, line), s)) d = PANIC dv lit m fl fn line s [] d"
| "halt dv lit m OutOfBounds d = Some (Inl OutOfBounds)"

definition panic_text :: "site \<times> string \<Rightarrow> string" where
  "panic_text c = (case c of ((fl, fn, line), s) \<Rightarrow>
     PANIC_COLOR @ ''['' @ fl @ ''#'' @ fn @ '':'' @ dec_text (unat line) @ ''] '' @ s @ END_COLOR @ [CHR 0x0A])"

lemma halt_sends:
  assumes "uart_open dv sent ctl d" and "lits_ok UNIV m lit" and "placed m lit fl" and "placed m lit fn"
    and "placed m lit (line_fmt PANIC_COLOR s)" and "plain s" and "unat line < 2147483648"
  shows "\<exists>d'. halt dv lit m (Panic ((fl, fn, line), s)) d = Some (Inr d')
    \<and> sent d' = sent d @ map chr (panic_text ((fl, fn, line), s)) \<and> ctl d' = ctl d"
  using panic_sent [OF assms(1-6), of line] line_number_text [OF assms(7)] by (auto simp: panic_text_def)

end
