(* ===== verification/Machine.thy ===== *)
theory Machine
  imports Segment Interrupt Game KernelLog
begin

text \<open>
  The machine that \<open>main\<close> of \<open>kernel/main.c\<close> sets up, and its interrupts: the memory with pages,
  registers and video state, the segment and interrupt tables, the interrupt flag, the general
  registers and the stack; how an interrupt passes through the entry stub
  \<open>kernel/interrupt/entry.S\<close>, instruction by instruction, and back through \<open>iret\<close> with the checks that
  the processor makes there.

  Addresses that the linker chooses are a record of parameters. The stack is the list of the words
  from the stack pointer upwards. The compiled \<open>irq_handle\<close> keeps the registers that the C calling
  convention makes it keep; what it leaves in \<open>eax\<close>, \<open>ecx\<close> and \<open>edx\<close> is a parameter.
\<close>

section \<open>The state\<close>

record regs =
  r_eax :: u32
  r_ecx :: u32
  r_edx :: u32
  r_ebx :: u32
  r_ebp :: u32
  r_esi :: u32
  r_edi :: u32
  r_esp :: u32

record machine =
  mv :: vstate
  mseg :: segstate
  midt :: idtstate
  mif :: bool
  mregs :: regs
  mstk :: "u32 list"

record symbols =
  sym_start :: u32
  sym_etext :: u32
  sym_end :: u32
  sym_gdt :: u32
  sym_tss :: u32
  sym_idt :: u32
  sym_entry :: u32
  sym_after_int :: u32
  sym_game_mainloop :: u32
  sym_thread_task :: u32
  sym_irq_scratch :: "regs \<Rightarrow> u32 \<times> u32 \<times> u32"

definition set_kern :: "kstate \<Rightarrow> machine \<Rightarrow> machine" where
  "set_kern ks mc = mc\<lparr>mv := (mv mc)\<lparr>kern := ks\<rparr>\<rparr>"

text \<open>The flags register, as far as it is used: bit 9 is the interrupt flag.\<close>

definition flags_of :: "machine \<Rightarrow> u32" where
  "flags_of mc = (if mif mc then 0x202 else 0x2)"

section \<open>The stack\<close>

definition push :: "u32 \<Rightarrow> machine \<Rightarrow> machine" where
  "push x mc = mc\<lparr>mregs := (mregs mc)\<lparr>r_esp := r_esp (mregs mc) - 4\<rparr>, mstk := x # mstk mc\<rparr>"

definition stack_up :: "nat \<Rightarrow> machine \<Rightarrow> machine" where
  "stack_up n mc = mc\<lparr>mregs := (mregs mc)\<lparr>r_esp := r_esp (mregs mc) + of_nat (4 * n)\<rparr>, mstk := drop n (mstk mc)\<rparr>"

definition stack_word :: "u32 \<Rightarrow> machine \<Rightarrow> u32" where
  "stack_word a mc = mstk mc ! (unat (a - r_esp (mregs mc)) div 4)"

section \<open>Going back from an interrupt\<close>

text \<open>The code segment that a selector names: not null, in the global table and within its limit, and a
  code segment.\<close>

definition code_segment :: "segstate \<Rightarrow> u16 \<Rightarrow> Segdesc option" where
  "code_segment s sel =
     (let off = unat (sel AND 0xFFF8);
          d = gdt s ! (off div 8)
      in if sel AND 0xFFFC \<noteq> 0 \<and> \<not> bit sel 2 \<and> off + 7 \<le> unat (dtr_limit (gdtr s))
           \<and> f_get sd_s d = 1 \<and> bit (f_get sd_type d) 3
         then Some d else None)"

text \<open>The kernel runs in ring 0. \<open>iret\<close> goes on at the address and in the code segment that it takes from the
  stack, with the flags; or the processor refuses with a general protection or segment not present
  exception that carries the selector, and the stack is as before; what comes after a return to virtual-8086
  mode or an outer ring, or to words that the model does not know, is not followed.\<close>

datatype iret_end = Resumed u32 u16 machine | GP u16 machine | NP u16 machine | Lost machine

definition iret :: "machine \<Rightarrow> iret_end" where
  "iret mc =
     (case mstk mc of
        eip # cs # eflags # st \<Rightarrow>
          (let sel = ucast cs :: u16;
               rpl = ucast (sel AND 3)
           in if bit eflags 17 then Lost mc
              else (case code_segment (mseg mc) sel of
                 None \<Rightarrow> GP (sel AND 0xFFFC) mc
               | Some d \<Rightarrow>
                   if (if bit (f_get sd_type d) 2 then rpl < f_get sd_dpl d else f_get sd_dpl d \<noteq> rpl)
                   then GP (sel AND 0xFFFC) mc
                   else if f_get sd_p d \<noteq> 1 then NP (sel AND 0xFFFC) mc
                   else if rpl \<noteq> 0 then Lost mc
                   else if desc_limit d < eip then GP 0 mc
                   else Resumed eip sel ((stack_up 3 mc)\<lparr>mif := bit eflags 9\<rparr>)))
      | _ \<Rightarrow> Lost mc)"

section \<open>kernel/interrupt/entry.S\<close>

text \<open>The frame that a pointer into the stack points to.\<close>

definition frame_at :: "u32 \<Rightarrow> machine \<Rightarrow> StackFrame" where
  "frame_at a mc = \<lparr>sf_eip = stack_word a mc, sf_cs = stack_word (a + 4) mc, sf_eflags = stack_word (a + 8) mc\<rparr>"

text \<open>\<open>call irq_handle\<close>: the return address is the instruction behind \<open>cli\<close>, \<open>pushl\<close> and the call, seven bytes
  after the stub's first; the handler finds its argument above it. The result is the address that
  its \<open>ret\<close> returns to.\<close>

definition call_irq_handle :: "symbols \<Rightarrow> machine \<Rightarrow> u32 \<times> machine" where
  "call_irq_handle sy mc =
     (let mc = push (sym_entry sy + 7) mc;
          mc = irq_handle (frame_at (stack_word (r_esp (mregs mc) + 4) mc) mc) mc;
          (a, c, d) = sym_irq_scratch sy (mregs mc);
          mc = mc\<lparr>mregs := (mregs mc)\<lparr>r_eax := a, r_ecx := c, r_edx := d\<rparr>\<rparr>
      in (stack_word (r_esp (mregs mc)) mc, stack_up 1 mc))"

definition entry_stub :: "symbols \<Rightarrow> machine \<Rightarrow> iret_end" where
  "entry_stub sy mc =
     (let mc = mc\<lparr>mif := False\<rparr>;
          mc = push (r_esp (mregs mc)) mc;
          (back, mc) = call_irq_handle sy mc
      in if back = sym_entry sy + 7
         then (let mc = stack_up 1 mc;
                   mc = mc\<lparr>mif := True\<rparr>
               in iret mc)
         else Lost mc)"

text \<open>An interrupt with vector \<open>v\<close> before the instruction at \<open>eip\<close>: the processor checks the gate and its code
  segment, pushes flags, code segment and address, and for some exceptions the error code \<open>err\<close> on top,
  clears the interrupt flag (the gates are interrupt gates) and enters the handler of the gate. All
  code of the kernel runs in the segment with selector 8.\<close>

definition gate_code :: "segstate \<Rightarrow> u16 \<Rightarrow> u32 \<Rightarrow> bool" where
  "gate_code s sel off \<longleftrightarrow>
     (case code_segment s sel of None \<Rightarrow> False | Some d \<Rightarrow> f_get sd_dpl d = 0 \<and> f_get sd_p d = 1 \<and> off \<le> desc_limit d)"

definition take_int :: "symbols \<Rightarrow> u32 \<Rightarrow> u32 list \<Rightarrow> nat \<Rightarrow> machine \<Rightarrow> iret_end" where
  "take_int sy eip err v mc =
     (case deliver (midt mc) v of
        None \<Rightarrow> Lost mc
      | Some (sel, off) \<Rightarrow>
          if gate_code (mseg mc) sel off \<and> off = sym_entry sy
          then entry_stub sy ((fold push ([flags_of mc, 0x8, eip] @ err) mc)\<lparr>mif := False\<rparr>)
          else Lost mc)"

text \<open>The instruction \<open>int\<close> of \<open>main\<close>; an interrupt that does not come back to the instruction behind
  it does not return.\<close>

definition int_n :: "symbols \<Rightarrow> nat \<Rightarrow> machine \<Rightarrow> machine option" where
  "int_n sy v mc =
     (case take_int sy (sym_after_int sy) [] v mc of
        Resumed eip cs mc \<Rightarrow> if eip = sym_after_int sy \<and> cs = 0x8 then Some mc else None
      | _ \<Rightarrow> None)"

section \<open>Passing through the stub\<close>

lemma stack_simps [simp]:
  "stack_up 1 (push x mc) = mc" "stack_up (Suc 0) (push x mc) = mc" "mstk (push x mc) = x # mstk mc"
  "mseg (push x mc) = mseg mc" "midt (push x mc) = midt mc" "mif (push x mc) = mif mc" "mv (push x mc) = mv mc"
  "r_esp (mregs (push x mc)) = r_esp (mregs mc) - 4"
  "stack_word (r_esp (mregs mc)) mc = mstk mc ! 0"
  by (cases mc; simp add: push_def stack_up_def stack_word_def)+

text \<open>What the handler leaves: its three scratch registers, computed from the registers that it finds, with the
  stack pointer at \<open>sp\<close>.\<close>

definition clobber :: "symbols \<Rightarrow> u32 \<Rightarrow> machine \<Rightarrow> machine" where
  "clobber sy sp mc =
     (let (a, c, d) = sym_irq_scratch sy ((mregs mc)\<lparr>r_esp := sp\<rparr>)
      in mc\<lparr>mregs := (mregs mc)\<lparr>r_eax := a, r_ecx := c, r_edx := d\<rparr>\<rparr>)"

lemma clobber_keeps [simp]:
  "mv (clobber sy sp mc) = mv mc" "mseg (clobber sy sp mc) = mseg mc" "midt (clobber sy sp mc) = midt mc"
  "mif (clobber sy sp mc) = mif mc" "mstk (clobber sy sp mc) = mstk mc" "r_esp (mregs (clobber sy sp mc)) = r_esp (mregs mc)"
  "clobber sy sp (mc\<lparr>mif := i\<rparr>) = (clobber sy sp mc)\<lparr>mif := i\<rparr>"
  by (simp_all add: clobber_def Let_def split: prod.split)

lemma clobber_push: "clobber sy sp (push x mc) = push x (clobber sy sp mc)"
  by (simp add: clobber_def push_def Let_def split: prod.split)

lemma entry_stub_passes:
  "entry_stub sy mc = iret ((clobber sy (r_esp (mregs mc) - 8) mc)\<lparr>mif := True\<rparr>)"
  by (cases mc) (simp add: entry_stub_def call_irq_handle_def irq_handle_def clobber_def push_def stack_up_def stack_word_def Let_def
      split: prod.split)

text \<open>The kernel's code segment, as \<open>init_gdt\<close> sets it, is the only one that a selector of the table names.\<close>

lemma init_gdt_table:
  assumes "length (gdt s) = NR_GDT"
  shows "\<exists>a c d. gdt (init_gdt gdt_a tss_a s) = [a, set_descriptor (STA_X OR STA_R) 0 0 0xffffffff 0, c, d]
      \<and> f_get sd_type c = 2 \<and> f_get sd_s d = 0"
    and "unat (dtr_limit (gdtr (init_gdt gdt_a tss_a s))) = 31"
proof -
  obtain a b c d where xs: "gdt s = [a, b, c, d]" using length_4 [of "gdt s"] assms by (auto simp: NR_GDT_def)
  have k: "f_get sd_s (f_set sd_type x e) = f_get sd_s e" "f_get sd_s (f_set sd_s 0 e) = 0" for e :: Segdesc and x
    by (simp_all add: desc_simps)
  have t: "f_get sd_type (set_descriptor (STA_W OR STA_R) 0 0 0xffffffff c) = 2"
    by (simp add: set_descriptor_fields STA_W_def STA_R_def mask_eq_exp_minus_1)
  have old: "set_descriptor t dpl base lim b = set_descriptor t dpl base lim 0" for t dpl base lim
    by (simp add: set_descriptor_SEG)
  show "\<exists>a c d. gdt (init_gdt gdt_a tss_a s) = [a, set_descriptor (STA_X OR STA_R) 0 0 0xffffffff 0, c, d]
      \<and> f_get sd_type c = 2 \<and> f_get sd_s d = 0"
    using k t by (simp add: init_gdt_def ltr_def xs Let_def old)
  show "unat (dtr_limit (gdtr (init_gdt gdt_a tss_a s))) = 31"
    by (simp add: init_gdt_def ltr_def Let_def NR_GDT_def)
qed

lemma kernel_code_fields:
  "f_get sd_s (set_descriptor (STA_X OR STA_R) 0 0 0xffffffff 0) = 1" "f_get sd_type (set_descriptor (STA_X OR STA_R) 0 0 0xffffffff 0) = 0xA"
  "f_get sd_dpl (set_descriptor (STA_X OR STA_R) 0 0 0xffffffff 0) = 0" "f_get sd_p (set_descriptor (STA_X OR STA_R) 0 0 0xffffffff 0) = 1"
  "desc_limit (set_descriptor (STA_X OR STA_R) 0 0 0xffffffff 0) = 0xFFFFFFFF"
  by (simp_all add: set_descriptor_fields set_descriptor_limit flat_limit STA_X_def STA_R_def mask_eq_exp_minus_1)

lemma selector_offset:
  fixes sel :: u16
  shows "unat (sel AND 0xFFF8) = unat sel div 8 * 8"
proof -
  have e: "(0xFFF8 :: u16) = push_bit 3 (mask 13)" by (simp add: mask_eq_exp_minus_1)
  have sh: "sel AND 0xFFF8 = push_bit 3 (drop_bit 3 sel)"
    unfolding e by (rule bit_word_eqI) (auto simp: bit_simps)
  have up: "unat (push_bit 3 (w :: u16)) = (unat w * 8) mod 65536" for w
    unfolding unsigned_push_bit_eq by (simp add: push_bit_eq_mult take_bit_eq_mod)
  have down: "unat (drop_bit 3 sel) = unat sel div 8"
    unfolding unat_drop_bit_eq by (simp add: drop_bit_eq_div)
  have "unat sel div 8 * 8 < 65536" using unsigned_less [of sel, where 'a = nat] by simp
  then show ?thesis unfolding sh up down by (rule mod_less)
qed

lemma word_of_nat_unat_id: "word_of_nat (unat w) = (w :: u16)"
  by simp

lemma small_selectors:
  fixes sel :: u16
  assumes "unat sel div 8 = k" "k < 2"
  shows "sel \<in> {word_of_nat (8 * k), word_of_nat (8 * k + 1), word_of_nat (8 * k + 2), word_of_nat (8 * k + 3)} \<or> bit sel 2"
proof -
  have "unat sel = 8 * k + unat sel mod 8" using assms(1) by (metis mult_div_mod_eq)
  moreover have "unat sel mod 8 < 8" by simp
  then have "unat sel mod 8 \<in> {0, 1, 2, 3, 4, 5, 6, 7}" by auto
  ultimately obtain r where r: "r \<in> {0, 1, 2, 3, 4, 5, 6, 7}" "sel = word_of_nat (8 * k + r)"
    by (metis word_of_nat_unat_id)
  moreover have "k = 0 \<or> k = 1" using assms(2) by linarith
  ultimately show ?thesis by (elim disjE) auto
qed

lemma init_gdt_code:
  assumes "length (gdt s) = NR_GDT"
  shows "code_segment (init_gdt gdt_a tss_a s) sel
      = (if sel \<in> {8, 9, 10, 11} then Some (set_descriptor (STA_X OR STA_R) 0 0 0xffffffff 0) else None)"
proof -
  obtain a c d where t: "gdt (init_gdt gdt_a tss_a s) = [a, set_descriptor (STA_X OR STA_R) 0 0 0xffffffff 0, c, d]"
    "f_get sd_type c = 2" "f_get sd_s d = 0"
    using init_gdt_table(1) [OF assms] by blast
  note l = init_gdt_table(2) [OF assms]
  let ?i = "unat sel div 8"
  consider "?i = 0" | "?i = 1" | "?i = 2" | "?i = 3" | "4 \<le> ?i" by linarith
  then show ?thesis
  proof cases
    case 1
    then show ?thesis using small_selectors [of sel 0] by (auto simp: code_segment_def selector_offset)
  next
    case 2
    then show ?thesis
      using small_selectors [of sel 1] kernel_code_fields(1,2) by (auto simp: code_segment_def selector_offset t l)
  next
    case 3
    then show ?thesis using t(2) by (auto simp: code_segment_def selector_offset t l)
  next
    case 4
    then show ?thesis using t(3) by (auto simp: code_segment_def selector_offset t l)
  next
    case 5
    then show ?thesis by (auto simp: code_segment_def selector_offset l)
  qed
qed

text \<open>Going back with this table.\<close>

lemma iret_kernel:
  assumes "mseg mc = init_gdt gdt_a tss_a s" and "length (gdt s) = NR_GDT" and "mstk mc = eip # cs # fl # st" and "\<not> bit fl 17"
  shows "iret mc = (if (ucast cs :: u16) = 8 then Resumed eip 8 ((stack_up 3 mc)\<lparr>mif := bit fl 9\<rparr>) else GP (ucast cs AND 0xFFFC) mc)"
proof -
  have "unat eip < 4294967296" by (rule unat_lt32)
  then have "\<not> 0xFFFFFFFF < eip" unfolding word_less_nat_alt by (simp del: unat_lt32)
  then show ?thesis
    using assms(4) kernel_code_fields by (auto simp: iret_def assms(1,3) init_gdt_code [OF assms(2)] Let_def)
qed

text \<open>Through the kernel's tables an interrupt comes back; one with an error code does not.\<close>

definition kernel_tables :: "symbols \<Rightarrow> machine \<Rightarrow> bool" where
  "kernel_tables sy mc \<longleftrightarrow>
     (\<exists>gdt_a tss_a s idt_a t. mseg mc = init_gdt gdt_a tss_a s \<and> length (gdt s) = NR_GDT
        \<and> midt mc = init_idt (sym_entry sy) idt_a t \<and> length (idt t) = 48)"

lemma take_int_enters:
  assumes "kernel_tables sy mc" and "v < 48"
  shows "take_int sy eip err v mc = entry_stub sy ((fold push ([flags_of mc, 0x8, eip] @ err) mc)\<lparr>mif := False\<rparr>)"
proof -
  obtain gdt_a tss_a s idt_a t where k: "mseg mc = init_gdt gdt_a tss_a s" "length (gdt s) = NR_GDT"
    "midt mc = init_idt (sym_entry sy) idt_a t" "length (idt t) = 48"
    using assms(1) unfolding kernel_tables_def by blast
  have "deliver (midt mc) v = Some (0x8, sym_entry sy)"
    using assms(2) by (simp add: k(3) init_idt_gates [OF k(4)])
  moreover have "unat (sym_entry sy) < 4294967296" by (rule unat_lt32)
  then have "sym_entry sy \<le> 0xFFFFFFFF" unfolding word_le_nat_alt by (simp del: unat_lt32)
  then have "gate_code (mseg mc) 0x8 (sym_entry sy)"
    using kernel_code_fields by (simp add: gate_code_def k(1) init_gdt_code [OF k(2)])
  ultimately show ?thesis by (simp add: take_int_def)
qed

lemma stack_up_push: "stack_up (Suc n) (push x mc) = stack_up n mc"
  by (cases mc) (simp add: push_def stack_up_def)

lemma stack_up_0: "stack_up 0 mc = mc"
  by (simp add: stack_up_def)

lemma stack_mif: "stack_up n (mc\<lparr>mif := i\<rparr>) = (stack_up n mc)\<lparr>mif := i\<rparr>" "push x (mc\<lparr>mif := i\<rparr>) = (push x mc)\<lparr>mif := i\<rparr>"
  by (simp_all add: push_def stack_up_def)

lemmas stub_simps = entry_stub_passes clobber_push stack_up_push stack_up_0 stack_mif

lemma flags_bits: "\<not> bit (flags_of mc) 17" "bit (flags_of mc) 9 = mif mc" "\<not> bit (0x8 :: u32) 17" "\<not> bit (0x8 :: u32) 9"
  by (simp_all add: flags_of_def)

lemma take_int_returns:
  assumes "kernel_tables sy mc" and "v < 48"
  shows "take_int sy eip [] v mc = Resumed eip 0x8 (clobber sy (r_esp (mregs mc) - 20) mc)"
proof -
  obtain gdt_a tss_a s where k: "mseg mc = init_gdt gdt_a tss_a s" "length (gdt s) = NR_GDT"
    using assms(1) unfolding kernel_tables_def by blast
  let ?c = "clobber sy (r_esp (mregs mc) - 20) mc"
  let ?p = "(push eip (push 0x8 (push (flags_of mc) ?c)))\<lparr>mif := True\<rparr>"
  have st: "mseg ?p = init_gdt gdt_a tss_a s" "mstk ?p = eip # 0x8 # flags_of mc # mstk mc" by (simp_all add: k(1))
  have up: "(stack_up 3 ?p)\<lparr>mif := mif mc\<rparr> = ?c"
    using clobber_keeps(4) [of sy "r_esp (mregs mc) - 20" mc]
    by (cases "clobber sy (r_esp (mregs mc) - 20) mc") (simp add: numeral_3_eq_3 stub_simps)
  have "take_int sy eip [] v mc = iret ?p"
    unfolding take_int_enters [OF assms] by (simp add: stub_simps)
  then show ?thesis
    unfolding iret_kernel [OF st(1) k(2) st(2) flags_bits(1)] flags_bits(2) up by simp
qed

lemma take_int_error:
  assumes "kernel_tables sy mc" and "v < 48"
  shows "take_int sy eip [e] v mc = (let mc' = clobber sy (r_esp (mregs mc) - 24) mc
      in if (ucast eip :: u16) = 8 then Resumed e 0x8 ((push (flags_of mc) mc')\<lparr>mif := False\<rparr>)
         else GP (ucast eip AND 0xFFFC) ((fold push [flags_of mc, 0x8, eip, e] mc')\<lparr>mif := True\<rparr>))"
proof -
  obtain gdt_a tss_a s where k: "mseg mc = init_gdt gdt_a tss_a s" "length (gdt s) = NR_GDT"
    using assms(1) unfolding kernel_tables_def by blast
  let ?c = "clobber sy (r_esp (mregs mc) - 24) mc"
  let ?p = "(push e (push eip (push 0x8 (push (flags_of mc) ?c))))\<lparr>mif := True\<rparr>"
  have st: "mseg ?p = init_gdt gdt_a tss_a s" "mstk ?p = e # eip # 0x8 # flags_of mc # mstk mc" by (simp_all add: k(1))
  have up: "(stack_up 3 ?p)\<lparr>mif := False\<rparr> = (push (flags_of mc) ?c)\<lparr>mif := False\<rparr>"
    by (simp add: numeral_3_eq_3 stub_simps)
  have "take_int sy eip [e] v mc = iret ?p"
    unfolding take_int_enters [OF assms] by (simp add: stub_simps)
  moreover have "bit (0x8 :: u32) 9 = False" using flags_bits(4) by simp
  ultimately show ?thesis
    unfolding Let_def iret_kernel [OF st(1) k(2) st(2) flags_bits(3)] by (simp only: up fold.simps id_o o_def id_apply)
qed

lemma int_n_returns:
  assumes "kernel_tables sy mc" and "v < 48"
  shows "int_n sy v mc = Some (clobber sy (r_esp (mregs mc) - 20) mc)"
  unfolding int_n_def take_int_returns [OF assms] by simp

section \<open>Interrupts between the steps of the kernel\<close>




text \<open>The machine but for the three registers that the stub does not save.\<close>

definition forget :: "machine \<Rightarrow> machine" where
  "forget mc = mc\<lparr>mregs := (mregs mc)\<lparr>r_eax := 0, r_ecx := 0, r_edx := 0\<rparr>\<rparr>"

lemma forget_clobber [simp]: "forget (clobber sy sp mc) = forget mc"
  by (simp add: forget_def clobber_def Let_def split: prod.split)

lemma forget_simps [simp]:
  "mif (forget a) = mif a" "mv (forget a) = mv a" "mseg (forget a) = mseg a" "midt (forget a) = midt a" "mstk (forget a) = mstk a"
  by (simp_all add: forget_def)






section \<open>Properties\<close>

text \<open>C19: through the tables that \<open>init_gdt\<close> and \<open>init_idt\<close> build, an interrupt with any vector below 48 returns to
  the instruction that it came before, in the kernel's code segment, with the flags, the stack and the
  rest of the machine as they were, but for \<open>eax\<close>, \<open>ecx\<close> and \<open>edx\<close>, which are as the compiled handler
  leaves them, since the stub saves none of them. When the processor pushes an error code (vectors 8, 10
  to 14 and 17), which the stub does not take off, \<open>iret\<close> takes the error code for the address and the old
  address for the code segment: the processor refuses with a general protection exception, unless the
  low half of the old address happens to be 8; then execution goes on at the error code, with interrupts
  disabled and the old flags left on the stack.\<close>

theorem entry_resumes:
  assumes "kernel_tables sy mc" and "v < 48"
  shows "take_int sy eip [] v mc = Resumed eip 0x8 (clobber sy (r_esp (mregs mc) - 20) mc)
    \<and> take_int sy eip [e] v mc = (let mc' = clobber sy (r_esp (mregs mc) - 24) mc
      in if (ucast eip :: u16) = 8 then Resumed e 0x8 ((push (flags_of mc) mc')\<lparr>mif := False\<rparr>)
         else GP (ucast eip AND 0xFFFC) ((fold push [flags_of mc, 0x8, eip, e] mc')\<lparr>mif := True\<rparr>))"
  using take_int_returns [OF assms, of eip] take_int_error [OF assms, of eip e] by blast


definition idle_segs :: segstate where
  "idle_segs = \<lparr>gdt = replicate NR_GDT 0, tss = tss_zero, gdtr = \<lparr>dtr_limit = 0, dtr_base = 0\<rparr>, tr = 0\<rparr>"

definition idle_gates :: idtstate where
  "idle_gates = \<lparr>idt = replicate 48 0, idtr = \<lparr>dtr_limit = 0, dtr_base = 0\<rparr>\<rparr>"

definition idle_regs :: regs where
  "idle_regs = \<lparr>r_eax = 1, r_ecx = 2, r_edx = 3, r_ebx = 4, r_ebp = 5, r_esi = 6, r_edi = 7, r_esp = 0xF000\<rparr>"

definition idle_machine :: machine where
  "idle_machine = \<lparr>mv = vga, mseg = init_gdt 0x200000 0x201000 idle_segs, midt = init_idt 0x100F00 0x202000 idle_gates, mif = True,
     mregs = idle_regs, mstk = [0xAB]\<rparr>"

text \<open>A handler that has left a thunk's result in \<open>eax\<close>.\<close>

definition idle_symbols :: symbols where
  "idle_symbols = \<lparr>sym_start = 0x100000, sym_etext = 0x108000, sym_end = 0x4A1234, sym_gdt = 0x200000, sym_tss = 0x201000,
     sym_idt = 0x202000, sym_entry = 0x100F00, sym_after_int = 0x100ABC, sym_game_mainloop = 0x101000, sym_thread_task = 0xFF80,
     sym_irq_scratch = (\<lambda>r. (0x100E00, r_ecx r, r_edx r))\<rparr>"

lemma idle_tables: "kernel_tables idle_symbols idle_machine"
  unfolding kernel_tables_def
  by (intro exI [of _ "0x200000"] exI [of _ "0x201000"] exI [of _ idle_segs] exI [of _ "0x202000"] exI [of _ idle_gates])
    (simp add: idle_machine_def idle_symbols_def idle_segs_def idle_gates_def)

lemma idle_clobber: "clobber idle_symbols sp idle_machine = idle_machine\<lparr>mregs := idle_regs\<lparr>r_eax := 0x100E00\<rparr>\<rparr>"
  by (simp add: clobber_def idle_symbols_def idle_machine_def idle_regs_def)

theorem entry_resumes_witness:
  "take_int idle_symbols 0x100123 [] 32 idle_machine = Resumed 0x100123 0x8 (idle_machine\<lparr>mregs := idle_regs\<lparr>r_eax := 0x100E00\<rparr>\<rparr>)
    \<and> (\<exists>mc'. take_int idle_symbols 0x100123 [0x2] 14 idle_machine = GP 0x120 mc' \<and> mstk mc' = [0x2, 0x100123, 0x8, 0x202, 0xAB])
    \<and> (\<exists>mc'. take_int idle_symbols 0x100008 [0x2] 14 idle_machine = Resumed 0x2 0x8 mc' \<and> mstk mc' = [0x202, 0xAB] \<and> \<not> mif mc')"
proof -
  have "flags_of idle_machine = 0x202" "mstk idle_machine = [0xAB]" by (simp_all add: flags_of_def idle_machine_def)
  then show ?thesis
    using entry_resumes [OF idle_tables, of 32 "0x100123"] entry_resumes [OF idle_tables, of 14 "0x100123" "0x2"]
      entry_resumes [OF idle_tables, of 14 "0x100008" "0x2"]
    by (simp add: idle_clobber)
qed


end
