(* ===== verification/KernelMain.thy ===== *)
theory KernelMain
  imports Machine
begin

text \<open>
  The kernel's \<open>main\<close> in \<open>kernel/main.c\<close>: the order in which the components are set up, the
  switch to the game, and the composition of what each component guarantees, down to the
  text on the serial line and the picture on the screen.
\<close>

section \<open>The code\<close>

text \<open>A fault stops the machine with the device as it is then.\<close>

definition at_dev :: "'d \<Rightarrow> 'a result option \<Rightarrow> ('d, 'a) attempt option" where
  "at_dev d x = map_option (map_sum (\<lambda>e. (e, d)) id) x"

lemma at_dev_simps [simp]:
  "at_dev d None = None" "at_dev d (Some (Inr a)) = Some (Inr a)" "at_dev d (Some (Inl e)) = Some (Inl (e, d))"
  by (simp_all add: at_dev_def)

text \<open>A panic sends its line before the machine spins.\<close>

definition stop :: "'d device \<Rightarrow> (string \<Rightarrow> u32) \<Rightarrow> mem \<Rightarrow> fault \<Rightarrow> 'd \<Rightarrow> ('d, 'a) attempt option" where
  "stop dv lit m e d =
     (case halt dv lit m e d of
        None \<Rightarrow> None
      | Some (Inl e) \<Rightarrow> Some (Inl (e, d))
      | Some (Inr d) \<Rightarrow> Some (Inl (e, d)))"

text \<open>The lines that a component has logged go out when it has returned or stopped, in their order.\<close>

definition flush_log :: "'d device \<Rightarrow> (string \<Rightarrow> u32) \<Rightarrow> machine \<Rightarrow> 'd \<Rightarrow> ('d, machine \<times> 'd) attempt option" where
  "flush_log dv lit mc d =
     and_then (at_dev d (send_log dv lit (vmemory (mv mc)) (klog (kern (mv mc))) d))
       (\<lambda>d. Some (Inr (set_kern ((kern (mv mc))\<lparr>klog := []\<rparr>) mc, d)))"

definition run_init_page :: "'d device \<Rightarrow> (string \<Rightarrow> u32) \<Rightarrow> symbols \<Rightarrow> machine \<Rightarrow> 'd \<Rightarrow> ('d, machine \<times> 'd) attempt option" where
  "run_init_page dv lit sy mc d =
     (case init_page (sym_start sy) (sym_etext sy) (sym_end sy) (kern (mv mc)) of
        Inl (e, ks) \<Rightarrow> and_then (flush_log dv lit (set_kern ks mc) d) (\<lambda>(mc, d). stop dv lit (vmemory (mv mc)) e d)
      | Inr ks \<Rightarrow> flush_log dv lit (set_kern ks mc) d)"

definition run_init_video :: "'d device \<Rightarrow> (string \<Rightarrow> u32) \<Rightarrow> machine \<Rightarrow> 'd \<Rightarrow> ('d, machine \<times> 'd) attempt option" where
  "run_init_video dv lit mc d =
     (case init_video (mv mc) of
        Inl (e, vs) \<Rightarrow> and_then (flush_log dv lit (mc\<lparr>mv := vs\<rparr>) d) (\<lambda>(mc, d). stop dv lit (vmemory (mv mc)) e d)
      | Inr vs \<Rightarrow> flush_log dv lit (mc\<lparr>mv := vs\<rparr>) d)"

text \<open>\<open>test_page\<close> logs the frames of its walk, also the ones before a null link.\<close>

definition run_test_page :: "'d device \<Rightarrow> (string \<Rightarrow> u32) \<Rightarrow> machine \<Rightarrow> 'd \<Rightarrow> ('d, machine \<times> 'd) attempt option" where
  "run_test_page dv lit mc d =
     (let logged = fold (log_expr ''kernel/page.c'' ''test_page'' 204 ''page->frame'')
      in case test_page (kpages (kern (mv mc))) of
        Inl (e, frames) \<Rightarrow> and_then (flush_log dv lit (set_kern (logged frames (kern (mv mc))) mc) d)
          (\<lambda>(mc, d). stop dv lit (vmemory (mv mc)) e d)
      | Inr (frames, ps) \<Rightarrow> flush_log dv lit (set_kern (logged frames ((kern (mv mc))\<lparr>kpages := ps\<rparr>)) mc) d)"

text \<open>\<open>main\<close> up to the switch to the game: from the initialisation of the interrupt controllers on, and
  all of it.\<close>

definition main_rest :: "'d device \<Rightarrow> (string \<Rightarrow> u32) \<Rightarrow> symbols \<Rightarrow> machine \<Rightarrow> 'd \<Rightarrow> ('d, machine \<times> 'd) attempt option" where
  "main_rest dv lit sy mc d =
     (let d = init_i8259_pic dv d;
          mc = mc\<lparr>mif := True\<rparr>
      in and_then (map_option Inr (int_n sy 0 mc)) (\<lambda>mc.
      and_then (run_test_page dv lit mc d) (\<lambda>(mc, d).
      and_then (at_dev d (LOG dv lit (vmemory (mv mc)) ''kernel/main.c'' ''main'' 34 ''Game start'' [] d)) (\<lambda>(n, d).
      Some (Inr (mc, d))))))"

definition main_init :: "'d device \<Rightarrow> (string \<Rightarrow> u32) \<Rightarrow> symbols \<Rightarrow> machine \<Rightarrow> 'd \<Rightarrow> ('d, machine \<times> 'd) attempt option" where
  "main_init dv lit sy mc d =
     (let d = init_serial dv d
      in and_then (at_dev d (LOG dv lit (vmemory (mv mc)) ''kernel/main.c'' ''main'' 19 ''Hello World :-)'' [] d)) (\<lambda>(n, d).
      let mc = mc\<lparr>mseg := init_gdt (sym_gdt sy) (sym_tss sy) (mseg mc)\<rparr>;
          mc = mc\<lparr>midt := init_idt (sym_entry sy) (sym_idt sy) (midt mc)\<rparr>
      in and_then (run_init_page dv lit sy mc d) (\<lambda>(mc, d).
      and_then (run_init_video dv lit mc d) (\<lambda>(mc, d).
      main_rest dv lit sy mc d))))"

definition main_c :: "'d device \<Rightarrow> (string \<Rightarrow> u32) \<Rightarrow> symbols \<Rightarrow> u32 \<Rightarrow> int \<Rightarrow> int \<Rightarrow> machine \<Rightarrow> 'd \<Rightarrow>
    ('d, GameState \<times> machine \<times> 'd) attempt option" where
  "main_c dv lit sy pic_bgr pic_w pic_h mc d =
     and_then (main_init dv lit sy mc d) (\<lambda>(mc, d).
      let thread_task = \<lparr>sf_eip = sym_game_mainloop sy, sf_cs = 0x8, sf_eflags = 0x2\<rparr>;
          mc = mc\<lparr>mregs := (mregs mc)\<lparr>r_eax := sym_thread_task sy\<rparr>\<rparr>;
          mc = mc\<lparr>mregs := (mregs mc)\<lparr>r_esp := r_eax (mregs mc)\<rparr>, mstk := [sf_eip thread_task, sf_cs thread_task, sf_eflags thread_task]\<rparr>
      in (case iret mc of
        Resumed eip cs mc \<Rightarrow>
          if eip = sym_game_mainloop sy \<and> cs = 0x8
          then and_then (at_dev d (game_mainloop dv pic_bgr pic_w pic_h (mv mc) d)) (\<lambda>(game, vs, d).
               and_then (flush_log dv lit (mc\<lparr>mv := vs\<rparr>) d) (\<lambda>(mc, d).
               Some (Inr (game, mc, d))))
          else None
      | _ \<Rightarrow> None))"

section \<open>Literals in the kernel image\<close>

definition in_image :: "u32 \<Rightarrow> mem \<Rightarrow> (string \<Rightarrow> u32) \<Rightarrow> string \<Rightarrow> bool" where
  "in_image kend m lit t \<longleftrightarrow> lit t \<noteq> 0 \<and> str_at {x. unat x < unat kend} m (lit t) (map chr t) \<and> length t < 1000000"

lemma in_image_placed:
  assumes "in_image kend m lit t" "\<forall>a. unat a < unat kend \<longrightarrow> m' a = m a"
  shows "placed m' lit t"
proof -
  have "str_at UNIV m' (lit t) (map chr t)"
    by (rule str_at_cong [where ro = "{x. unat x < unat kend}" and m = m]) (use assms in \<open>simp_all add: in_image_def\<close>)
  with assms(1) show ?thesis by (simp add: in_image_def placed_def)
qed

text \<open>The literals that the log needs: those of the number formatter, and the file names,
  function names and pasted formats of every log macro in the kernel.\<close>

definition main_strings :: "string list" where
  "main_strings = literals
     @ [''kernel/main.c'', ''kernel/page.c'', ''kernel/video.c'', ''kernel/game.c'',
        ''main'', ''init_page'', ''mm_continous_map'', ''init_video'', ''test_page'', ''game_mainloop'',
        ''alloc_page'', line_fmt PANIC_COLOR ''No free page!'']
     @ map (line_fmt LOG_COLOR)
        [''Hello World :-)'', ''Game start'', ''Success'', ''start is 0x%x'', ''etext is 0x%x'', ''end is 0x%x'',
         ''phy_kernerl is 0x%x'', ''nr_kernel_page is 0x%x'', ''map_beg.val is 0x%x'', ''map_beg.dir_idx is 0x%x'',
         ''map_end.val is 0x%x'', ''map_end.dir_idx is 0x%x'', ''mode_info.pitch is 0x%x'', ''page->frame is 0x%x'']"

lemma main_strings_small: "\<forall>t \<in> set main_strings. length t < 64 \<and> (\<forall>c \<in> set t. chr c \<noteq> 0)" "length main_strings < 100"
  by (simp_all add: main_strings_def literals_def line_fmt_def LOG_COLOR_def PANIC_COLOR_def END_COLOR_def chr_def)

definition known :: "log_call \<Rightarrow> bool" where
  "known c \<longleftrightarrow> call_strings c \<subseteq> set main_strings \<and> call_ok c"

lemma known_calls:
  "\<forall>c \<in> set (init_page_log a b e). known c" "\<forall>c \<in> set (init_video_log mi sz). known c"
  "known (LogExpr ''kernel/page.c'' ''test_page'' 204 ''page->frame'' v)"
  "known (LogLine ''kernel/game.c'' ''game_mainloop'' 155 ''Success'')"
  "known (LogLine ''kernel/main.c'' ''main'' 19 ''Hello World :-)'')"
  "known (LogLine ''kernel/main.c'' ''main'' 34 ''Game start'')"
  by (simp_all add: known_def init_page_log_def init_video_log_def map_log_def main_strings_def plain_def chr_def)

text \<open>Known calls are sent from any memory that has the literals.\<close>

definition image_kept :: "u32 \<Rightarrow> mem \<Rightarrow> mem \<Rightarrow> bool" where
  "image_kept b m m' \<longleftrightarrow> (\<forall>a. unat a < unat b \<longrightarrow> m' a = m a)"

lemma known_sends:
  assumes uart: "uart_open dv sent ctl d" and im: "\<forall>t \<in> set main_strings. in_image b m lit t" and same: "image_kept b m m'"
    and cs: "\<forall>c \<in> set cs. known c"
  shows "\<exists>d'. send_log dv lit m' cs d = Some (Inr d') \<and> sent d' = sent d @ map chr (log_text cs) \<and> ctl d' = ctl d"
proof -
  have p: "placed m' lit t" if "t \<in> set main_strings" for t
    using im that in_image_placed [OF _ same [unfolded image_kept_def]] by blast
  have "lits_ok UNIV m' lit"
    using p unfolding lits_ok_def placed_def by (simp add: main_strings_def)
  then show ?thesis
    by (rule send_log_sends [OF _ _ uart]) (use p cs in \<open>auto simp: known_def\<close>)
qed

lemma main_log:
  assumes uart: "uart_open dv sent ctl d" and im: "\<forall>t \<in> set main_strings. in_image b m lit t" and same: "image_kept b m m'"
    and c: "known (LogLine fl fn line s)"
  shows "\<exists>n d'. LOG dv lit m' fl fn line s [] d = Some (Inr (n, d')) \<and> sent d' = sent d @ map chr (line_text fl fn line s) \<and> ctl d' = ctl d"
  using known_sends [OF uart im same, of "[LogLine fl fn line s]"] c by (auto simp: and_then_inr)

lemma flush_log_sends:
  assumes uart: "uart_open dv sent ctl d" and im: "\<forall>t \<in> set main_strings. in_image b m lit t" and same: "image_kept b m (vmemory (mv mc))"
    and cs: "klog (kern (mv mc)) = cs" "\<forall>c \<in> set cs. known c"
  shows "\<exists>d'. flush_log dv lit mc d = Some (Inr (set_kern ((kern (mv mc))\<lparr>klog := []\<rparr>) mc, d'))
    \<and> sent d' = sent d @ map chr (log_text cs) \<and> ctl d' = ctl d"
  using known_sends [OF uart im same cs(2)] unfolding flush_log_def cs(1) by auto

section \<open>The boot\<close>

lemma log_exprs: "fold (log_expr fl fn line e) xs ks = ks\<lparr>klog := klog ks @ map (LogExpr fl fn line e) xs\<rparr>"
  by (induction xs arbitrary: ks) (simp_all add: log_expr_def)

text \<open>What \<open>main\<close> needs: a kernel image that ends above 4 MB (otherwise the page directory is not
  mapped when paging is on), with the mode information in it and its literals before the
  back buffer; a frame buffer aligned to 4 MB behind the kernel, for a mode that fits the
  back buffer; enough memory for the tables and the self test, all of it in the part that
  \<open>init_page\<close> maps.\<close>

definition boot_image :: "(string \<Rightarrow> u32) \<Rightarrow> symbols \<Rightarrow> machine \<Rightarrow> ModeInfoBlock \<Rightarrow> u32 \<Rightarrow> nat \<Rightarrow> bool" where
  "boot_image lit sy mc mi sz nt \<longleftrightarrow>
     (let kend = unat (sym_end sy)
      in 4194304 \<le> kend \<and> klog (kern (mv mc)) = []
       \<and> (\<forall>t \<in> set main_strings. in_image (vmem_buffer (mv mc)) (vmemory (mv mc)) lit t)
       \<and> unat (vmem_buffer (mv mc)) + VBUF_SIZE \<le> kend \<and> kend \<le> unat (physbase mi)
       \<and> fits mi \<and> unat (physbase mi) + VBUF_SIZE \<le> 4294967296
       \<and> length (gdt (mseg mc)) = NR_GDT \<and> length (idt (midt mc)) = 48
       \<and> mi = ModeInfoBlock_at (vmemory (mv mc)) 0xf000
       \<and> unat (physbase mi) mod 4194304 = 0 \<and> 4194304 \<le> unat (physbase mi)
       \<and> unat (physbase mi) + unat (Yres mi) * unat (pitch mi) < 4294967296
       \<and> sz = of_nat (unat (Yres mi) * unat (pitch mi))
       \<and> nt = Suc (unat (PDX (physbase mi + sz))) - unat (PDX (physbase mi)))"

definition boot_ok :: "(string \<Rightarrow> u32) \<Rightarrow> symbols \<Rightarrow> machine \<Rightarrow> ModeInfoBlock \<Rightarrow> u32 \<Rightarrow> nat \<Rightarrow> bool" where
  "boot_ok lit sy mc mi sz nt \<longleftrightarrow> boot_image lit sy mc mi sz nt
     \<and> (let kend = unat (sym_end sy)
        in (kend + 4095) div 4096 + 2 + kend div 4194304 + nt + 270 \<le> NR_PAGES
       \<and> ((kend + 4095) div 4096 + 2 + kend div 4194304 + nt) * 4096 \<le> mapped_limit (kend div 4096 * 4096))"

text \<open>What the boot logs, with the first frame that is free behind it.\<close>

definition free_frame :: "symbols \<Rightarrow> nat \<Rightarrow> nat" where
  "free_frame sy nt = (unat (sym_end sy) + 4095) div 4096 + 2 + unat (sym_end sy) div 4194304 + nt + 255"

definition boot_log :: "symbols \<Rightarrow> ModeInfoBlock \<Rightarrow> u32 \<Rightarrow> nat \<Rightarrow> log_call list" where
  "boot_log sy mi sz nt =
     [LogLine ''kernel/main.c'' ''main'' 19 ''Hello World :-)'']
     @ init_page_log (sym_start sy) (sym_etext sy) (sym_end sy)
     @ init_video_log mi sz
     @ map (\<lambda>i. LogExpr ''kernel/page.c'' ''test_page'' 204 ''page->frame'' (of_nat i)) [free_frame sy nt..<free_frame sy nt + 15]
     @ [LogLine ''kernel/main.c'' ''main'' 34 ''Game start'']"

text \<open>What the game needs of the machine, and what it may still log.\<close>

definition game_ready :: "(string \<Rightarrow> u32) \<Rightarrow> machine \<Rightarrow> bool" where
  "game_ready lit mc \<longleftrightarrow> (\<forall>t \<in> set main_strings. in_image (vmem_buffer (mv mc)) (vmemory (mv mc)) lit t)
     \<and> klog (kern (mv mc)) = [] \<and> screen_ok (mv mc) \<and> vmem_ok (mv mc)
     \<and> unat (vmem_buffer (mv mc)) + VBUF_SIZE \<le> unat (vmem (mv mc))
     \<and> (\<exists>g t s. mseg mc = init_gdt g t s \<and> length (gdt s) = NR_GDT)"

lemma in_image_kept: "in_image b m lit t \<Longrightarrow> image_kept b m m' \<Longrightarrow> in_image b m' lit t"
  unfolding in_image_def image_kept_def
  using str_at_cong [where ro = "{x. unat x < unat b}" and ro' = "{x. unat x < unat b}" and m = m and m' = m'] by auto

lemma mode_info_same:
  assumes "\<And>a. 0xf000 \<le> unat a \<Longrightarrow> unat a < 0xf100 \<Longrightarrow> m' a = m a"
  shows "ModeInfoBlock_at m' 0xf000 = ModeInfoBlock_at m 0xf000"
proof -
  have l16: "load16 m' a = load16 m a" if "0xf000 \<le> unat a" "unat a < 0xf0f0" for a
  proof (rule load16_cong)
    have n: "unat (a + 1) = unat a + 1" using that by (subst unat_add_word) simp
    show "m' (a + 1) = m (a + 1)" by (rule assms) (use n that in linarith)+
    show "m' a = m a" by (rule assms) (use that in linarith)+
  qed
  have l32: "load32 m' a = load32 m a" if "0xf000 \<le> unat a" "unat a < 0xf0f0" for a
  proof (rule load32_cong)
    fix x assume "in_reg a 4 x"
    then show "m' x = m x" using that by (intro assms) (simp_all add: in_reg_nat)
  qed
  show ?thesis unfolding ModeInfoBlock_at_def by (simp add: assms l16 l32)
qed

lemma mode_info_kept:
  assumes "0xf100 \<le> n" "\<And>a. unat a < n \<Longrightarrow> m' a = m a"
  shows "ModeInfoBlock_at m' 0xf000 = ModeInfoBlock_at m 0xf000"
proof (rule mode_info_same)
  fix a :: u32 assume "unat a < 0xf100"
  then show "m' a = m a" using assms(1) by (intro assms(2)) linarith
qed

lemma image_kept_refl: "image_kept b m m"
  by (simp add: image_kept_def)

lemma image_kept_low: "image_kept e m m' \<Longrightarrow> unat b \<le> unat e \<Longrightarrow> image_kept b m m'"
  by (auto simp: image_kept_def)

lemma set_kern_simps [simp]:
  "kern (mv (set_kern ks mc)) = ks" "mode_info (mv (set_kern ks mc)) = mode_info (mv mc)"
  "vmem (mv (set_kern ks mc)) = vmem (mv mc)" "vmem_buffer (mv (set_kern ks mc)) = vmem_buffer (mv mc)"
  "mseg (set_kern ks mc) = mseg mc" "midt (set_kern ks mc) = midt mc" "mif (set_kern ks mc) = mif mc"
  "set_kern ks (set_kern ks' mc) = set_kern ks mc"
  by (simp_all add: set_kern_def)

lemma run_init_page_runs:
  assumes uart: "uart_open dv sent ctl d" and im: "\<forall>t \<in> set main_strings. in_image b (vmemory (mv mc)) lit t"
    and log0: "klog (kern (mv mc)) = []" and b: "unat b \<le> unat (sym_end sy)"
    and nr: "nr = (unat (sym_end sy) + 4095) div 4096" and room: "nr + 2 + unat (sym_end sy) div 4194304 \<le> NR_PAGES"
  shows "\<exists>ks d'. run_init_page dv lit sy mc d = Some (Inr (set_kern ks mc, d'))
    \<and> unat (kpgdir ks) = nr * 4096 \<and> cr3 ks = kpgdir ks \<and> cr0 ks = cr0 (kern (mv mc)) OR CR0_PG
    \<and> pages_inv (kpages ks) [nr + 2 + unat (sym_end sy) div 4194304..<NR_PAGES]
    \<and> (\<forall>la. translate (kmem ks) (kpgdir ks) la
        = (if unat la < mapped_limit (unat (sym_end sy) div 4096 * 4096) then Some la else None))
    \<and> image_kept (sym_end sy) (vmemory (mv mc)) (kmem ks)
    \<and> tables_ok (kmem ks) (kpgdir ks) [nr + 2 + unat (sym_end sy) div 4194304..<NR_PAGES] \<and> klog ks = []
    \<and> sent d' = sent d @ map chr (log_text (init_page_log (sym_start sy) (sym_etext sy) (sym_end sy))) \<and> ctl d' = ctl d"
proof -
  let ?ke = "unat (sym_end sy)"
  obtain ks where ip: "init_page (sym_start sy) (sym_etext sy) (sym_end sy) (kern (mv mc)) = Inr ks"
    and ks: "unat (kpgdir ks) = nr * 4096" "cr3 ks = kpgdir ks" "cr0 ks = cr0 (kern (mv mc)) OR CR0_PG"
      "pages_inv (kpages ks) [nr + 2 + ?ke div 4194304..<NR_PAGES]"
      "\<forall>la. translate (kmem ks) (cr3 ks) la = (if unat la < mapped_limit (?ke div 4096 * 4096) then Some la else None)"
      "\<forall>a. unat a < nr * 4096 \<longrightarrow> kmem ks a = vmemory (mv mc) a"
      "tables_ok (kmem ks) (kpgdir ks) [nr + 2 + ?ke div 4194304..<NR_PAGES]"
      "klog ks = init_page_log (sym_start sy) (sym_etext sy) (sym_end sy)"
    using init_page_run [of "sym_end sy" "sym_start sy" "sym_etext sy" "kern (mv mc)"] room unfolding log0 nr by auto
  have "a < ?ke \<Longrightarrow> a < nr * 4096" for a unfolding nr by linarith
  then have kept: "image_kept (sym_end sy) (vmemory (mv mc)) (kmem ks)" using ks(6) by (simp add: image_kept_def)
  obtain d' where "flush_log dv lit (set_kern ks mc) d = Some (Inr (set_kern (ks\<lparr>klog := []\<rparr>) mc, d'))"
    "sent d' = sent d @ map chr (log_text (init_page_log (sym_start sy) (sym_etext sy) (sym_end sy)))" "ctl d' = ctl d"
    using flush_log_sends [OF uart im, of "set_kern ks mc", unfolded set_kern_simps, OF image_kept_low [OF kept b] ks(8) known_calls(1)]
    by blast
  then show ?thesis using ip ks kept
    by (intro exI [of _ "ks\<lparr>klog := []\<rparr>"] exI [of _ d']) (simp add: run_init_page_def)
qed

lemma run_init_video_runs:
  assumes uart: "uart_open dv sent ctl d" and im: "\<forall>t \<in> set main_strings. in_image b m lit t"
    and kept: "image_kept (sym_end sy) m (vmemory (mv mc))" and b: "unat b \<le> unat (sym_end sy)"
    and log0: "klog (kern (mv mc)) = []" and mi: "mi = ModeInfoBlock_at (vmemory (mv mc)) 0xf000"
    and dir: "unat (kpgdir (kern (mv mc))) = nr * 4096" "unat (sym_end sy) \<le> nr * 4096" "nr \<le> t"
    and inv: "pages_inv (kpages (kern (mv mc))) ([t..<t + nt] @ ys)"
    and tok: "tables_ok (vmemory (mv mc)) (kpgdir (kern (mv mc))) ([t..<t + nt] @ ys)"
    and fb: "unat (physbase mi) mod 4194304 = 0" "4194304 \<le> unat (physbase mi)"
      "unat (physbase mi) + unat (Yres mi) * unat (pitch mi) < 4294967296" "sz = of_nat (unat (Yres mi) * unat (pitch mi))"
    and nt: "nt = Suc (unat (PDX (physbase mi + sz))) - unat (PDX (physbase mi))"
  shows "\<exists>vs d'. run_init_video dv lit mc d = Some (Inr (mc\<lparr>mv := vs\<rparr>, d'))
    \<and> mode_info vs = mi \<and> vmem vs = physbase mi \<and> vmem_buffer vs = vmem_buffer (mv mc)
    \<and> pages_inv (kpages (kern vs)) ys
    \<and> (\<forall>la. translate (vmemory vs) (kpgdir (kern (mv mc))) la =
        (if PDX (physbase mi) \<le> PDX la \<and> PDX la \<le> PDX (physbase mi + sz) then Some la
         else translate (vmemory (mv mc)) (kpgdir (kern (mv mc))) la))
    \<and> cr0 (kern vs) = cr0 (kern (mv mc)) \<and> cr3 (kern vs) = cr3 (kern (mv mc))
    \<and> image_kept (sym_end sy) m (vmemory vs) \<and> klog (kern vs) = [] \<and> tables_ok (vmemory vs) (kpgdir (kern (mv mc))) ys
    \<and> sent d' = sent d @ map chr (log_text (init_video_log mi sz)) \<and> ctl d' = ctl d"
proof -
  have len: "length [t..<t + nt] = Suc (unat (PDX (physbase mi + sz))) - unat (PDX (physbase mi))"
    by (simp only: length_upt nt add_diff_cancel_left')
  obtain vs where iv: "init_video (mv mc) = Inr vs" "mode_info vs = mi" "vmem vs = physbase mi"
      "vmem_buffer vs = vmem_buffer (mv mc)" "pages_inv (kpages (kern vs)) ys"
    and tr: "\<forall>la. translate (vmemory vs) (kpgdir (kern (mv mc))) la =
        (if PDX (physbase mi) \<le> PDX la \<and> PDX la \<le> PDX (physbase mi + sz) then Some la
         else translate (vmemory (mv mc)) (kpgdir (kern (mv mc))) la)"
    and cr: "cr0 (kern vs) = cr0 (kern (mv mc))" "cr3 (kern vs) = cr3 (kern (mv mc))"
    and lg: "klog (kern vs) = [] @ init_video_log mi sz" and tok': "tables_ok (vmemory vs) (kpgdir (kern (mv mc))) ys"
    and out: "\<forall>a. unat a div 4096 \<in> insert (unat (kpgdir (kern (mv mc))) div 4096) (set [t..<t + nt]) \<or> vmemory vs a = vmemory (mv mc) a"
    using init_video_spec [OF mi inv tok fb len] unfolding log0 by blast
  have kept2: "image_kept (sym_end sy) m (vmemory vs)"
    unfolding image_kept_def
  proof (intro allI impI)
    fix a :: u32 assume a: "unat a < unat (sym_end sy)"
    have "unat a < nr * 4096" using a dir(2) by (rule less_le_trans)
    then have "unat a div 4096 < nr" by (rule less_mult_imp_div_less)
    then have "vmemory vs a = vmemory (mv mc) a" using out [rule_format, of a] dir(1,3) by auto
    then show "vmemory vs a = m a" using kept a by (simp add: image_kept_def)
  qed
  obtain d' where "flush_log dv lit (mc\<lparr>mv := vs\<rparr>) d = Some (Inr (mc\<lparr>mv := vs\<lparr>kern := (kern vs)\<lparr>klog := []\<rparr>\<rparr>\<rparr>, d'))"
    "sent d' = sent d @ map chr (log_text (init_video_log mi sz))" "ctl d' = ctl d"
    using flush_log_sends [OF uart im, of "mc\<lparr>mv := vs\<rparr>" "init_video_log mi sz"] image_kept_low [OF kept2 b] lg known_calls(2)
    by (auto simp: set_kern_def)
  then show ?thesis using iv tr cr kept2 tok'
    by (intro exI [of _ "vs\<lparr>kern := (kern vs)\<lparr>klog := []\<rparr>\<rparr>"] exI [of _ d']) (simp add: run_init_video_def)
qed

lemma run_test_page_runs:
  assumes uart: "uart_open dv sent ctl d" and im: "\<forall>t \<in> set main_strings. in_image b m lit t"
    and kept: "image_kept b m (vmemory (mv mc))" and log0: "klog (kern (mv mc)) = []"
    and inv: "pages_inv (kpages (kern (mv mc))) [t..<NR_PAGES]" and f: "f = t + 255" "f + 15 \<le> NR_PAGES"
  shows "\<exists>ps d'. run_test_page dv lit mc d = Some (Inr (set_kern ((kern (mv mc))\<lparr>kpages := ps\<rparr>) mc, d'))
    \<and> pages_inv ps [f..<NR_PAGES]
    \<and> sent d' = sent d @ map chr (log_text
        (map (\<lambda>i. LogExpr ''kernel/page.c'' ''test_page'' 204 ''page->frame'' (of_nat i)) [f..<f + 15])) \<and> ctl d' = ctl d"
proof -
  have s: "[t..<NR_PAGES] = [t..<t + 255] @ [f..<NR_PAGES]"
    unfolding f(1) by (rule upt_split) (use f in simp_all)
  have "15 \<le> length [f..<NR_PAGES]" unfolding length_upt using f(2) by linarith
  note tpr = test_page_run [OF inv [unfolded s] _ this, unfolded length_upt add_diff_cancel_left', OF refl]
  obtain ps where tp: "test_page (kpages (kern (mv mc))) = Inr (map of_nat [f..<f + 15], ps)" "pages_inv ps [f..<NR_PAGES]"
    using tpr unfolding take_upt [OF f(2)] by blast
  let ?log = "LogExpr ''kernel/page.c'' ''test_page'' 204 ''page->frame''"
  let ?frames = "map of_nat [f..<f + 15] :: u32 list"
  let ?ks = "fold (log_expr ''kernel/page.c'' ''test_page'' 204 ''page->frame'') ?frames ((kern (mv mc))\<lparr>kpages := ps\<rparr>)"
  have ks: "?ks = (kern (mv mc))\<lparr>kpages := ps, klog := map ?log ?frames\<rparr>"
    by (simp add: log_exprs log0)
  have mem: "vmemory (mv (set_kern ?ks mc)) = vmemory (mv mc)" "klog (kern (mv (set_kern ?ks mc))) = map ?log ?frames"
    unfolding ks by simp_all
  have "\<forall>c \<in> set (map ?log ?frames). known c" using known_calls(3) by auto
  with flush_log_sends [OF uart im, of "set_kern ?ks mc", unfolded mem, OF kept refl]
  obtain d' where "flush_log dv lit (set_kern ?ks mc) d = Some (Inr (set_kern (?ks\<lparr>klog := []\<rparr>) mc, d'))"
    "sent d' = sent d @ map chr (log_text (map ?log ?frames))" "ctl d' = ctl d" unfolding set_kern_simps by blast
  moreover have "?ks\<lparr>klog := []\<rparr> = (kern (mv mc))\<lparr>kpages := ps\<rparr>" unfolding ks using log0 by simp
  moreover have "map ?log ?frames = map (\<lambda>i. ?log (of_nat i)) [f..<f + 15]" by (simp only: map_map comp_def)
  ultimately show ?thesis using tp unfolding run_test_page_def Let_def
    by (intro exI [of _ ps] exI [of _ d']) (simp only: sum.case prod.case simp_thms)
qed


text \<open>What \<open>main\<close> relies on beside the UART: programming the interrupt controllers and reading the
  keyboard send nothing on the serial line and do not set it up anew.\<close>

definition pic_quiet :: "'d device \<Rightarrow> ('d \<Rightarrow> byte list) \<Rightarrow> ('d \<Rightarrow> byte \<times> byte) \<Rightarrow> bool" where
  "pic_quiet dv sent ctl \<longleftrightarrow> (\<forall>d. sent (init_i8259_pic dv d) = sent d \<and> ctl (init_i8259_pic dv d) = ctl d)"

definition keys_quiet :: "'d device \<Rightarrow> ('d \<Rightarrow> byte list) \<Rightarrow> ('d \<Rightarrow> byte \<times> byte) \<Rightarrow> bool" where
  "keys_quiet dv sent ctl \<longleftrightarrow> (\<forall>d. sent (snd (inb dv 0x60 d)) = sent d \<and> ctl (snd (inb dv 0x60 d)) = ctl d)"

text \<open>The boot in three steps: to the frame buffer, past it, and to the game. The first frames go to the
  directory and its tables, the next ones to the tables of the frame buffer.\<close>

definition tables_end :: "symbols \<Rightarrow> nat" where
  "tables_end sy = (unat (sym_end sy) + 4095) div 4096 + 2 + unat (sym_end sy) div 4194304"

lemma main_hello:
  assumes uart: "uart_laws dv sent ctl" and ok: "boot_image lit sy mc mi sz nt"
  obtains d1 where
    "main_init dv lit sy mc d = and_then (run_init_page dv lit sy (mc\<lparr>mseg := init_gdt (sym_gdt sy) (sym_tss sy) (mseg mc),
        midt := init_idt (sym_entry sy) (sym_idt sy) (midt mc)\<rparr>) d1) (\<lambda>(mc, d).
      and_then (run_init_video dv lit mc d) (\<lambda>(mc, d). main_rest dv lit sy mc d))"
    and "sent d1 = sent (init_serial dv d) @ map chr (line_text ''kernel/main.c'' ''main'' 19 ''Hello World :-)'')"
    and "uart_open dv sent ctl d1"
proof -
  have im: "\<forall>t \<in> set main_strings. in_image (vmem_buffer (mv mc)) (vmemory (mv mc)) lit t"
    using ok by (simp add: boot_image_def Let_def)
  obtain n1 d1 where l1: "LOG dv lit (vmemory (mv mc)) ''kernel/main.c'' ''main'' 19 ''Hello World :-)'' [] (init_serial dv d) = Some (Inr (n1, d1))"
    "sent d1 = sent (init_serial dv d) @ map chr (line_text ''kernel/main.c'' ''main'' 19 ''Hello World :-)'')"
    "ctl d1 = ctl (init_serial dv d)"
    using main_log [OF uart_open_init [OF uart] im image_kept_refl known_calls(5)] by blast
  show thesis
    by (rule that [OF _ l1(2) uart_open_kept [OF uart_open_init [OF uart] l1(3)]]) (simp add: main_init_def Let_def l1(1))
qed

lemma main_to_video:
  assumes uart: "uart_laws dv sent ctl" and ok: "boot_image lit sy mc mi sz nt" and fit: "tables_end sy \<le> NR_PAGES"
  obtains mc2 d2 where
    "main_init dv lit sy mc d = and_then (run_init_video dv lit mc2 d2) (\<lambda>(mc, d). main_rest dv lit sy mc d)"
    and "mseg mc2 = init_gdt (sym_gdt sy) (sym_tss sy) (mseg mc)" and "midt mc2 = init_idt (sym_entry sy) (sym_idt sy) (midt mc)"
    and "vmem_buffer (mv mc2) = vmem_buffer (mv mc)" and "cr0 (kern (mv mc2)) = cr0 (kern (mv mc)) OR CR0_PG"
    and "cr3 (kern (mv mc2)) = kpgdir (kern (mv mc2))" and "unat (kpgdir (kern (mv mc2))) = (unat (sym_end sy) + 4095) div 4096 * 4096"
    and "klog (kern (mv mc2)) = []" and "pages_inv (kpages (kern (mv mc2))) [tables_end sy..<NR_PAGES]"
    and "tables_ok (vmemory (mv mc2)) (kpgdir (kern (mv mc2))) [tables_end sy..<NR_PAGES]"
    and "\<And>la. translate (vmemory (mv mc2)) (kpgdir (kern (mv mc2))) la
        = (if unat la < mapped_limit (unat (sym_end sy) div 4096 * 4096) then Some la else None)"
    and "image_kept (sym_end sy) (vmemory (mv mc)) (vmemory (mv mc2))" and "mi = ModeInfoBlock_at (vmemory (mv mc2)) 0xf000"
    and "sent d2 = sent (init_serial dv d) @ map chr (log_text
        (LogLine ''kernel/main.c'' ''main'' 19 ''Hello World :-)'' # init_page_log (sym_start sy) (sym_etext sy) (sym_end sy)))"
    and "uart_open dv sent ctl d2"
proof -
  let ?ke = "unat (sym_end sy)" and ?m = "vmemory (mv mc)" and ?b = "vmem_buffer (mv mc)"
  let ?mc1 = "mc\<lparr>mseg := init_gdt (sym_gdt sy) (sym_tss sy) (mseg mc), midt := init_idt (sym_entry sy) (sym_idt sy) (midt mc)\<rparr>"
  have big: "4194304 \<le> ?ke" and im: "\<forall>t \<in> set main_strings. in_image ?b ?m lit t"
    and log0: "klog (kern (mv mc)) = []" and buf: "unat ?b + VBUF_SIZE \<le> ?ke" and mi: "mi = ModeInfoBlock_at ?m 0xf000"
    using ok unfolding boot_image_def Let_def by - (elim conjE, assumption)+
  have b: "unat ?b \<le> ?ke" using buf by simp
  have mc1: "mv ?mc1 = mv mc" by simp
  obtain d1 where l1: "main_init dv lit sy mc d = and_then (run_init_page dv lit sy ?mc1 d1) (\<lambda>(mc, d).
      and_then (run_init_video dv lit mc d) (\<lambda>(mc, d). main_rest dv lit sy mc d))"
    "sent d1 = sent (init_serial dv d) @ map chr (line_text ''kernel/main.c'' ''main'' 19 ''Hello World :-)'')"
    and uart1: "uart_open dv sent ctl d1"
    by (rule main_hello [OF uart ok, of d]) (rule that)
  obtain ks d2 where p: "run_init_page dv lit sy ?mc1 d1 = Some (Inr (set_kern ks ?mc1, d2))"
      "unat (kpgdir ks) = (?ke + 4095) div 4096 * 4096" "cr3 ks = kpgdir ks" "cr0 ks = cr0 (kern (mv mc)) OR CR0_PG"
      "pages_inv (kpages ks) [tables_end sy..<NR_PAGES]"
    and trk: "\<forall>la. translate (kmem ks) (kpgdir ks) la = (if unat la < mapped_limit (?ke div 4096 * 4096) then Some la else None)"
    and kept: "image_kept (sym_end sy) ?m (kmem ks)" and tok: "tables_ok (kmem ks) (kpgdir ks) [tables_end sy..<NR_PAGES]" "klog ks = []"
      "sent d2 = sent d1 @ map chr (log_text (init_page_log (sym_start sy) (sym_etext sy) (sym_end sy)))" and c2: "ctl d2 = ctl d1"
    using run_init_page_runs [OF uart1, of ?b ?mc1 lit sy, unfolded mc1, OF im log0 b refl fit [unfolded tables_end_def], folded tables_end_def]
    by (elim exE conjE)
  have mi2: "mi = ModeInfoBlock_at (kmem ks) 0xf000"
    unfolding mi by (rule mode_info_kept [symmetric, of ?ke]) (use big kept in \<open>simp_all add: image_kept_def\<close>)
  show thesis
    by (rule that [of "set_kern ks ?mc1" d2]; (unfold set_kern_simps)?) (use p trk kept tok mi2 l1 uart_open_kept [OF uart1 c2] in simp_all)
qed

lemma main_past_video:
  assumes uart: "uart_laws dv sent ctl" and ok: "boot_image lit sy mc mi sz nt" and fit: "tables_end sy + nt \<le> NR_PAGES"
  obtains mc3 d3 where
    "main_init dv lit sy mc d = main_rest dv lit sy mc3 d3"
    and "mseg mc3 = init_gdt (sym_gdt sy) (sym_tss sy) (mseg mc)" and "midt mc3 = init_idt (sym_entry sy) (sym_idt sy) (midt mc)"
    and "mode_info (mv mc3) = mi" and "vmem (mv mc3) = physbase mi" and "vmem_buffer (mv mc3) = vmem_buffer (mv mc)"
    and "cr0 (kern (mv mc3)) = cr0 (kern (mv mc)) OR CR0_PG" and "unat (cr3 (kern (mv mc3))) = (unat (sym_end sy) + 4095) div 4096 * 4096"
    and "klog (kern (mv mc3)) = []" and "pages_inv (kpages (kern (mv mc3))) [tables_end sy + nt..<NR_PAGES]"
    and "tables_ok (vmemory (mv mc3)) (cr3 (kern (mv mc3))) [tables_end sy + nt..<NR_PAGES]"
    and "\<And>la. translate (vmemory (mv mc3)) (cr3 (kern (mv mc3))) la
        = (if PDX (physbase mi) \<le> PDX la \<and> PDX la \<le> PDX (physbase mi + sz) \<or> unat la < mapped_limit (unat (sym_end sy) div 4096 * 4096)
           then Some la else None)"
    and "image_kept (sym_end sy) (vmemory (mv mc)) (vmemory (mv mc3))"
    and "sent d3 = sent (init_serial dv d) @ map chr (log_text
        (LogLine ''kernel/main.c'' ''main'' 19 ''Hello World :-)'' # init_page_log (sym_start sy) (sym_etext sy) (sym_end sy)
         @ init_video_log mi sz))"
    and "uart_open dv sent ctl d3"
proof -
  let ?ke = "unat (sym_end sy)" and ?m = "vmemory (mv mc)" and ?b = "vmem_buffer (mv mc)" and ?t = "tables_end sy"
  have im: "\<forall>t \<in> set main_strings. in_image ?b ?m lit t" and buf: "unat ?b + VBUF_SIZE \<le> ?ke"
    and fb: "unat (physbase mi) mod 4194304 = 0" "4194304 \<le> unat (physbase mi)"
      "unat (physbase mi) + unat (Yres mi) * unat (pitch mi) < 4294967296" "sz = of_nat (unat (Yres mi) * unat (pitch mi))"
    and nt: "nt = Suc (unat (PDX (physbase mi + sz))) - unat (PDX (physbase mi))"
    and big: "4194304 \<le> ?ke" "?ke \<le> unat (physbase mi)"
    using ok unfolding boot_image_def Let_def by - (elim conjE, assumption)+
  have b: "unat ?b \<le> ?ke" using buf by simp
  have fit1: "?t \<le> NR_PAGES" using fit by simp
  obtain mc2 d2 where m: "main_init dv lit sy mc d = and_then (run_init_video dv lit mc2 d2) (\<lambda>(mc, d). main_rest dv lit sy mc d)"
    and seg: "mseg mc2 = init_gdt (sym_gdt sy) (sym_tss sy) (mseg mc)" "midt mc2 = init_idt (sym_entry sy) (sym_idt sy) (midt mc)"
    and buf2: "vmem_buffer (mv mc2) = ?b" and cr: "cr0 (kern (mv mc2)) = cr0 (kern (mv mc)) OR CR0_PG"
      "cr3 (kern (mv mc2)) = kpgdir (kern (mv mc2))" "unat (kpgdir (kern (mv mc2))) = (?ke + 4095) div 4096 * 4096"
    and kst: "klog (kern (mv mc2)) = []" "pages_inv (kpages (kern (mv mc2))) [?t..<NR_PAGES]"
      "tables_ok (vmemory (mv mc2)) (kpgdir (kern (mv mc2))) [?t..<NR_PAGES]"
    and tr: "\<And>la. translate (vmemory (mv mc2)) (kpgdir (kern (mv mc2))) la
        = (if unat la < mapped_limit (?ke div 4096 * 4096) then Some la else None)"
    and kept: "image_kept (sym_end sy) ?m (vmemory (mv mc2))" and mi2: "mi = ModeInfoBlock_at (vmemory (mv mc2)) 0xf000"
    and d2: "sent d2 = sent (init_serial dv d) @ map chr (log_text
        (LogLine ''kernel/main.c'' ''main'' 19 ''Hello World :-)'' # init_page_log (sym_start sy) (sym_etext sy) (sym_end sy)))"
    and uart2: "uart_open dv sent ctl d2"
    by (rule main_to_video [OF uart ok fit1, of d]) (rule that)
  have split: "[?t..<NR_PAGES] = [?t..<?t + nt] @ [?t + nt..<NR_PAGES]"
    by (rule upt_split) (use fit in simp_all)
  have nrt: "?ke \<le> (?ke + 4095) div 4096 * 4096" "(?ke + 4095) div 4096 \<le> ?t" unfolding tables_end_def by linarith+
  obtain vs d3 where v: "run_init_video dv lit mc2 d2 = Some (Inr (mc2\<lparr>mv := vs\<rparr>, d3))"
      "mode_info vs = mi" "vmem vs = physbase mi" "vmem_buffer vs = vmem_buffer (mv mc2)" "pages_inv (kpages (kern vs)) [?t + nt..<NR_PAGES]"
    and trv: "\<forall>la. translate (vmemory vs) (kpgdir (kern (mv mc2))) la =
        (if PDX (physbase mi) \<le> PDX la \<and> PDX la \<le> PDX (physbase mi + sz) then Some la
         else translate (vmemory (mv mc2)) (kpgdir (kern (mv mc2))) la)"
    and crv: "cr0 (kern vs) = cr0 (kern (mv mc2))" "cr3 (kern vs) = cr3 (kern (mv mc2))" and kept2: "image_kept (sym_end sy) ?m (vmemory vs)"
      "klog (kern vs) = []" "tables_ok (vmemory vs) (kpgdir (kern (mv mc2))) [?t + nt..<NR_PAGES]" "sent d3 = sent d2 @ map chr (log_text (init_video_log mi sz))"
      "ctl d3 = ctl d2"
    using run_init_video_runs [OF uart2 im kept b kst(1) mi2 cr(3) nrt kst(2) [unfolded split] kst(3) [unfolded split] fb nt]
    by (elim exE conjE)
  show thesis
    by (rule that [of "mc2\<lparr>mv := vs\<rparr>" d3]) (use m seg v buf2 cr crv kst trv tr kept2 d2 uart_open_kept [OF uart2] in simp_all)
qed

text \<open>The rest of \<open>main\<close>: the test interrupt, the self test and the last line.\<close>

lemma main_rest_runs:
  assumes uart: "uart_open dv sent ctl d" and quiet: "pic_quiet dv sent ctl" and im: "\<forall>t \<in> set main_strings. in_image b m lit t"
    and kept: "image_kept b m (vmemory (mv mc))" and log0: "klog (kern (mv mc)) = []" and tabs: "kernel_tables sy mc"
    and inv: "pages_inv (kpages (kern (mv mc))) [t..<NR_PAGES]" and f: "f = t + 255" "f + 15 \<le> NR_PAGES"
  shows "\<exists>ps d'. main_rest dv lit sy mc d = Some (Inr (set_kern ((kern (mv mc))\<lparr>kpages := ps\<rparr>)
        (clobber sy (r_esp (mregs mc) - 20) (mc\<lparr>mif := True\<rparr>)), d'))
    \<and> pages_inv ps [f..<NR_PAGES]
    \<and> sent d' = sent d @ map chr (log_text
        (map (\<lambda>i. LogExpr ''kernel/page.c'' ''test_page'' 204 ''page->frame'' (of_nat i)) [f..<f + 15]
         @ [LogLine ''kernel/main.c'' ''main'' 34 ''Game start''])) \<and> ctl d' = ctl d"
proof -
  let ?mc = "clobber sy (r_esp (mregs mc) - 20) (mc\<lparr>mif := True\<rparr>)" and ?p = "init_i8259_pic dv d"
  have mc: "mv ?mc = mv mc" by simp
  have "kernel_tables sy (mc\<lparr>mif := True\<rparr>)" using tabs by (simp add: kernel_tables_def)
  from int_n_returns [OF this, of 0] have int0: "int_n sy 0 (mc\<lparr>mif := True\<rparr>) = Some ?mc" by simp
  have q: "sent ?p = sent d" "ctl ?p = ctl d" using quiet by (simp_all add: pic_quiet_def)
  note uart1 = uart_open_kept [OF uart q(2)]
  obtain ps d1 where tp: "run_test_page dv lit ?mc ?p = Some (Inr (set_kern ((kern (mv mc))\<lparr>kpages := ps\<rparr>) ?mc, d1))"
      "pages_inv ps [f..<NR_PAGES]"
      "sent d1 = sent ?p @ map chr (log_text
        (map (\<lambda>i. LogExpr ''kernel/page.c'' ''test_page'' 204 ''page->frame'' (of_nat i)) [f..<f + 15]))" "ctl d1 = ctl ?p"
    using run_test_page_runs [OF uart1 im, of ?mc, unfolded mc, OF kept log0 inv f] by (elim exE conjE)
  let ?mc' = "set_kern ((kern (mv mc))\<lparr>kpages := ps\<rparr>) ?mc"
  have mem: "vmemory (mv ?mc') = vmemory (mv mc)" by simp
  obtain n d2 where l: "LOG dv lit (vmemory (mv ?mc')) ''kernel/main.c'' ''main'' 34 ''Game start'' [] d1 = Some (Inr (n, d2))"
    "sent d2 = sent d1 @ map chr (line_text ''kernel/main.c'' ''main'' 34 ''Game start'')" "ctl d2 = ctl d1"
    using main_log [OF uart_open_kept [OF uart1 tp(4)] im kept known_calls(6)] unfolding mem by blast
  have run: "main_rest dv lit sy mc d = Some (Inr (?mc', d2))"
    using tp(1) l(1) unfolding main_rest_def Let_def int0 by simp
  have "sent d2 = sent d @ map chr (log_text
        (map (\<lambda>i. LogExpr ''kernel/page.c'' ''test_page'' 204 ''page->frame'' (of_nat i)) [f..<f + 15]
         @ [LogLine ''kernel/main.c'' ''main'' 34 ''Game start'']))"
    unfolding l(2) tp(3) q(1) by (simp del: upt_rec_numeral)
  moreover have "ctl d2 = ctl d" using l(3) tp(4) q(2) by simp
  ultimately show ?thesis using run tp(2) by blast
qed


lemma main_init_boots:
  assumes uart: "uart_laws dv sent ctl" and quiet: "pic_quiet dv sent ctl" and ok: "boot_ok lit sy mc mi sz nt"
  shows "\<exists>mc' d'. main_init dv lit sy mc d = Some (Inr (mc', d'))
    \<and> cr0 (kern (mv mc')) = cr0 (kern (mv mc)) OR CR0_PG
    \<and> unat (cr3 (kern (mv mc'))) = (unat (sym_end sy) + 4095) div 4096 * 4096
    \<and> (\<forall>la. translate (vmemory (mv mc')) (cr3 (kern (mv mc'))) la
        = (if PDX (physbase mi) \<le> PDX la \<and> PDX la \<le> PDX (physbase mi + sz) \<or> unat la < mapped_limit (unat (sym_end sy) div 4096 * 4096)
           then Some la else None))
    \<and> mode_info (mv mc') = mi \<and> vmem (mv mc') = physbase mi \<and> vmem_buffer (mv mc') = vmem_buffer (mv mc)
    \<and> mif mc' \<and> (\<forall>v. deliver (midt mc') v = (if v < 48 then Some (0x8, sym_entry sy) else None))
    \<and> mseg mc' = init_gdt (sym_gdt sy) (sym_tss sy) (mseg mc)
    \<and> pages_inv (kpages (kern (mv mc'))) [free_frame sy nt..<NR_PAGES]
    \<and> image_kept (sym_end sy) (vmemory (mv mc)) (vmemory (mv mc')) \<and> game_ready lit mc'
    \<and> (\<exists>fs. tables_ok (vmemory (mv mc')) (cr3 (kern (mv mc'))) fs)
    \<and> sent d' = sent (init_serial dv d) @ map chr (log_text (boot_log sy mi sz nt)) \<and> uart_open dv sent ctl d'"
proof -
  let ?ke = "unat (sym_end sy)" and ?m = "vmemory (mv mc)" and ?b = "vmem_buffer (mv mc)" and ?t = "tables_end sy"
  have img: "boot_image lit sy mc mi sz nt" and room: "?t + nt + 270 \<le> NR_PAGES"
    using ok unfolding boot_ok_def Let_def tables_end_def by simp_all
  have im: "\<forall>t \<in> set main_strings. in_image ?b ?m lit t"
    and buf: "unat ?b + VBUF_SIZE \<le> ?ke" "?ke \<le> unat (physbase mi)" "fits mi" "unat (physbase mi) + VBUF_SIZE \<le> 4294967296"
    and idt: "length (idt (midt mc)) = 48" "length (gdt (mseg mc)) = NR_GDT"
    using img unfolding boot_image_def Let_def by - (elim conjE, assumption)+
  have b: "unat ?b \<le> ?ke" and fit: "?t + nt \<le> NR_PAGES" using buf(1) room by simp_all
  obtain mc3 d3 where m: "main_init dv lit sy mc d = main_rest dv lit sy mc3 d3"
    and seg: "mseg mc3 = init_gdt (sym_gdt sy) (sym_tss sy) (mseg mc)" "midt mc3 = init_idt (sym_entry sy) (sym_idt sy) (midt mc)"
    and vs: "mode_info (mv mc3) = mi" "vmem (mv mc3) = physbase mi" "vmem_buffer (mv mc3) = ?b"
    and cr: "cr0 (kern (mv mc3)) = cr0 (kern (mv mc)) OR CR0_PG" "unat (cr3 (kern (mv mc3))) = (?ke + 4095) div 4096 * 4096"
    and kst: "klog (kern (mv mc3)) = []" "pages_inv (kpages (kern (mv mc3))) [?t + nt..<NR_PAGES]"
      "tables_ok (vmemory (mv mc3)) (cr3 (kern (mv mc3))) [?t + nt..<NR_PAGES]"
    and tr: "\<And>la. translate (vmemory (mv mc3)) (cr3 (kern (mv mc3))) la
        = (if PDX (physbase mi) \<le> PDX la \<and> PDX la \<le> PDX (physbase mi + sz) \<or> unat la < mapped_limit (?ke div 4096 * 4096)
           then Some la else None)"
    and kept: "image_kept (sym_end sy) ?m (vmemory (mv mc3))"
    and d3: "sent d3 = sent (init_serial dv d) @ map chr (log_text
        (LogLine ''kernel/main.c'' ''main'' 19 ''Hello World :-)'' # init_page_log (sym_start sy) (sym_etext sy) (sym_end sy)
         @ init_video_log mi sz))"
    and uart3: "uart_open dv sent ctl d3"
    by (rule main_past_video [OF uart img fit, of d]) (rule that)
  have del: "deliver (midt mc3) v = (if v < 48 then Some (0x8, sym_entry sy) else None)" for v
    unfolding seg(2) using init_idt_gates [OF idt(1)] by simp
  have tabs: "kernel_tables sy mc3" using seg idt unfolding kernel_tables_def by blast
  have f: "free_frame sy nt = ?t + nt + 255" "free_frame sy nt + 15 \<le> NR_PAGES"
    using room unfolding free_frame_def tables_end_def by simp_all
  let ?mc3 = "clobber sy (r_esp (mregs mc3) - 20) (mc3\<lparr>mif := True\<rparr>)"
  obtain ps d4 where rest: "main_rest dv lit sy mc3 d3 = Some (Inr (set_kern ((kern (mv mc3))\<lparr>kpages := ps\<rparr>) ?mc3, d4))"
      "pages_inv ps [free_frame sy nt..<NR_PAGES]"
      "sent d4 = sent d3 @ map chr (log_text
        (map (\<lambda>i. LogExpr ''kernel/page.c'' ''test_page'' 204 ''page->frame'' (of_nat i)) [free_frame sy nt..<free_frame sy nt + 15]
         @ [LogLine ''kernel/main.c'' ''main'' 34 ''Game start'']))" "ctl d4 = ctl d3"
    using main_rest_runs [OF uart3 quiet im image_kept_low [OF kept b] kst(1) tabs kst(2) f] by (elim exE conjE)
  let ?mc4 = "set_kern ((kern (mv mc3))\<lparr>kpages := ps\<rparr>) ?mc3"
  have mc4: "kern (mv ?mc4) = (kern (mv mc3))\<lparr>kpages := ps\<rparr>" "mode_info (mv ?mc4) = mi" "vmem (mv ?mc4) = physbase mi"
    "vmem_buffer (mv ?mc4) = ?b" "mif ?mc4" "midt ?mc4 = midt mc3" "mseg ?mc4 = mseg mc3"
    unfolding set_kern_simps using vs by simp_all
  have code: "\<exists>g t s. mseg ?mc4 = init_gdt g t s \<and> length (gdt s) = NR_GDT" unfolding mc4 seg(1) using idt(2) by blast
  have ready: "game_ready lit ?mc4"
    using code unfolding game_ready_def mc4 screen_ok_def vmem_ok_def
    using buf im kst(1) in_image_kept [OF _ image_kept_low [OF kept b]] le_less_trans [OF buf(1) unat_lt32] by auto
  have sent: "sent d4 = sent (init_serial dv d) @ map chr (log_text (boot_log sy mi sz nt))"
    unfolding rest(3) d3 boot_log_def by (simp del: upt_rec_numeral)
  show ?thesis
    by (rule exI [of _ ?mc4], rule exI [of _ d4], intro conjI m [unfolded rest(1)] ready sent allI
        uart_open_kept [OF uart3 rest(4)])
      (use cr tr rest(2) kst(3) del kept mc4 seg in auto)
qed

section \<open>The game\<close>

text \<open>The game starts from the machine that \<open>main_init\<close> leaves, with interrupts disabled and the task's frame
  taken off.\<close>

definition game_entry :: "symbols \<Rightarrow> machine \<Rightarrow> machine" where
  "game_entry sy mc = mc\<lparr>mif := False,
     mregs := (mregs mc)\<lparr>r_eax := sym_thread_task sy, r_esp := sym_thread_task sy + 12\<rparr>, mstk := []\<rparr>"

lemma game_entry_simps [simp]:
  "mv (game_entry sy mc) = mv mc" "mif (game_entry sy mc) = False" "(game_entry sy mc)\<lparr>mv := vs\<rparr> = game_entry sy (mc\<lparr>mv := vs\<rparr>)"
  by (simp_all add: game_entry_def)

lemma main_c_game:
  assumes init: "main_init dv lit sy mc d = Some (Inr (mc', d'))" and ready: "game_ready lit mc'"
  shows "main_c dv lit sy pic pic_w pic_h mc d =
    and_then (at_dev d' (game_mainloop dv pic pic_w pic_h (mv mc') d')) (\<lambda>(g, vs, d).
      and_then (flush_log dv lit (game_entry sy (mc'\<lparr>mv := vs\<rparr>)) d) (\<lambda>(mc, d). Some (Inr (g, mc, d))))"
proof -
  obtain g t s where seg: "mseg mc' = init_gdt g t s" "length (gdt s) = NR_GDT" using ready unfolding game_ready_def by blast
  let ?f = "[sym_game_mainloop sy, 0x8, 0x2]" and ?mc = "mc'\<lparr>mregs := (mregs mc')\<lparr>r_eax := sym_thread_task sy\<rparr>\<rparr>"
  let ?p = "?mc\<lparr>mregs := (mregs ?mc)\<lparr>r_esp := r_eax (mregs ?mc)\<rparr>, mstk := ?f\<rparr>"
  have b: "\<not> bit (0x2 :: u32) 17" "bit (0x2 :: u32) 9 = False" by simp_all
  have st: "mseg ?p = init_gdt g t s" "mstk ?p = sym_game_mainloop sy # 0x8 # 0x2 # []" by (simp_all add: seg(1))
  have up: "(stack_up 3 ?p)\<lparr>mif := False\<rparr> = game_entry sy mc'"
    by (simp add: game_entry_def stack_up_def)
  have "iret ?p = Resumed (sym_game_mainloop sy) 8 (game_entry sy mc')"
    unfolding iret_kernel [OF st(1) seg(2) st(2) b(1)] b(2) up by simp
  then show ?thesis unfolding main_c_def Let_def init and_then_simps prod.case StackFrame.select_convs by simp
qed

text \<open>The end of the run: the puzzle is solved, interrupts are disabled, the serial line has
  carried \<open>bs\<close>, and the screen shows the picture that the kernel image \<open>m\<close> holds.\<close>

definition game_over :: "('d \<Rightarrow> byte list) \<Rightarrow> u32 \<Rightarrow> int \<Rightarrow> int \<Rightarrow> mem \<Rightarrow> byte list \<Rightarrow> GameState \<times> machine \<times> 'd \<Rightarrow> bool" where
  "game_over sent pic w h m bs = (\<lambda>(g, mc, d). block g = [0..w div 100 * (h div 100) - 1] \<and> \<not> mif mc
     \<and> sent d = bs
     \<and> (\<forall>x y. on_screen (mv mc) x y \<longrightarrow> shown_pixel (mv mc) x y = (if x < w \<and> y < h then get_color m pic x y w h else 0)))"

text \<open>The picture: part of the image, before the back buffer.\<close>

definition picture_at :: "u32 \<Rightarrow> int \<Rightarrow> int \<Rightarrow> machine \<Rightarrow> bool" where
  "picture_at pic w h mc \<longleftrightarrow> 100 \<le> w \<and> 100 \<le> h \<and> unat pic + nat (w * h * 3) \<le> unat (vmem_buffer (mv mc))"

lemma picture_at_ok:
  assumes "picture_at pic w h mc" and "game_ready lit mc"
  shows "picture_ok pic w h (mv mc)"
proof -
  have size: "unat pic + nat (w * h * 3) \<le> unat (vmem_buffer (mv mc))" using assms(1) by (simp add: picture_at_def)
  then have small: "unat pic + nat (w * h * 3) \<le> 4294967296"
    using unat_lt32 [of "vmem_buffer (mv mc)"] by linarith
  have reg: "unat (vmem_buffer (mv mc)) + VBUF_SIZE \<le> 4294967296" "unat (vmem (mv mc)) + VBUF_SIZE \<le> 4294967296"
    "unat (vmem_buffer (mv mc)) + VBUF_SIZE \<le> unat (vmem (mv mc))"
    using assms(2) by (simp_all add: game_ready_def vmem_ok_def)
  show ?thesis unfolding picture_ok_def
    using size small reg in_reg_nat [OF small] in_reg_nat [OF reg(1)] in_reg_nat [OF reg(2)] by auto
qed


text \<open>The machine at the end: the game's line is sent.\<close>

definition game_exit :: "symbols \<Rightarrow> vstate \<Rightarrow> machine \<Rightarrow> machine" where
  "game_exit sy vs mc = set_kern ((kern vs)\<lparr>klog := []\<rparr>) (game_entry sy (mc\<lparr>mv := vs\<rparr>))"

lemma game_exit_simps [simp]:
  "mif (game_exit sy vs mc) = False" "mode_info (mv (game_exit sy vs mc)) = mode_info vs" "vmem (mv (game_exit sy vs mc)) = vmem vs"
  "vmemory (mv (game_exit sy vs mc)) = vmemory vs"
  by (simp_all add: game_exit_def)

lemma main_c_ends:
  assumes quiet: "keys_quiet dv sent ctl" and init: "main_init dv lit sy mc d = Some (Inr (mc', d'))"
    and uart: "uart_open dv sent ctl d'" and ready: "game_ready lit mc'"
    and run: "game_mainloop dv pic w h (mv mc') d' = Some (Inr (g, vs, d2))"
  shows "\<exists>d3. main_c dv lit sy pic w h mc d = Some (Inr (g, game_exit sy vs mc', d3))
    \<and> sent d3 = sent d' @ map chr (log_text [LogLine ''kernel/game.c'' ''game_mainloop'' 155 ''Success''])"
proof -
  let ?cs = "[LogLine ''kernel/game.c'' ''game_mainloop'' 155 ''Success'']" and ?mc = "game_entry sy (mc'\<lparr>mv := vs\<rparr>)"
  have im: "\<forall>t \<in> set main_strings. in_image (vmem_buffer (mv mc')) (vmemory (mv mc')) lit t" and log0: "klog (kern (mv mc')) = []"
    and ok: "screen_ok (mv mc')" "vmem_ok (mv mc')" and gap: "unat (vmem_buffer (mv mc')) + VBUF_SIZE \<le> unat (vmem (mv mc'))"
    using ready unfolding game_ready_def by blast+
  have "\<And>d. (sent (snd (inb dv 0x60 d)), ctl (snd (inb dv 0x60 d))) = (sent d, ctl d)" using quiet by (simp add: keys_quiet_def)
  from game_mainloop_paints [where obs = "\<lambda>d. (sent d, ctl d)", OF ok this run]
  have mem: "\<forall>a. in_reg (vmem_buffer (mv mc')) VBUF_SIZE a \<or> in_reg (vmem (mv mc')) VBUF_SIZE a \<or> vmemory vs a = vmemory (mv mc') a"
    and lg: "klog (kern vs) = ?cs" and d2: "sent d2 = sent d'" "ctl d2 = ctl d'"
    by (simp_all add: paints_def log_line_def log0)
  have reg: "unat (vmem_buffer (mv mc')) + VBUF_SIZE \<le> 4294967296" "unat (vmem (mv mc')) + VBUF_SIZE \<le> 4294967296"
    using ok by (simp_all add: vmem_ok_def)
  have "vmemory vs a = vmemory (mv mc') a" if "unat a < unat (vmem_buffer (mv mc'))" for a
    using mem [rule_format, of a] that gap in_reg_nat [OF reg(1), of a] in_reg_nat [OF reg(2), of a] by auto
  then have kept: "image_kept (vmem_buffer (mv mc')) (vmemory (mv mc')) (vmemory (mv ?mc))" by (simp add: image_kept_def)
  obtain d3 where "flush_log dv lit ?mc d2 = Some (Inr (game_exit sy vs mc', d3))" "sent d3 = sent d2 @ map chr (log_text ?cs)"
    using flush_log_sends [OF uart_open_kept [OF uart d2(2)] im kept, of ?cs] lg known_calls(4) by (auto simp: game_exit_def)
  then show ?thesis unfolding main_c_game [OF init ready] run d2(1) by simp
qed

lemma main_c_over:
  assumes uart: "uart_laws dv sent ctl" and quiet: "pic_quiet dv sent ctl" "keys_quiet dv sent ctl"
    and ok: "boot_ok lit sy mc mi sz nt" and pic: "picture_at pic w h mc"
    and run: "main_c dv lit sy pic w h mc d = Some r"
  shows "\<exists>res. r = Inr res \<and> game_over sent pic w h (vmemory (mv mc)) (sent (init_serial dv d)
    @ map chr (log_text (boot_log sy mi sz nt @ [LogLine ''kernel/game.c'' ''game_mainloop'' 155 ''Success'']))) res"
proof -
  let ?cs = "[LogLine ''kernel/game.c'' ''game_mainloop'' 155 ''Success'']"
  obtain mc' d' where init: "main_init dv lit sy mc d = Some (Inr (mc', d'))" and ready: "game_ready lit mc'"
    and buf: "vmem_buffer (mv mc') = vmem_buffer (mv mc)" and kept: "image_kept (sym_end sy) (vmemory (mv mc)) (vmemory (mv mc'))"
    and sent: "sent d' = sent (init_serial dv d) @ map chr (log_text (boot_log sy mi sz nt))" and open_d': "uart_open dv sent ctl d'"
    using main_init_boots [OF uart quiet(1) ok, of d] by (elim exE conjE)
  have size: "100 \<le> w" "100 \<le> h" "picture_at pic w h mc'" using pic buf by (simp_all add: picture_at_def)
  obtain r0 where r0: "game_mainloop dv pic w h (mv mc') d' = Some r0"
    using run unfolding main_c_game [OF init ready] by (cases "game_mainloop dv pic w h (mv mc') d'") auto
  obtain g vs d2 where res: "r0 = Inr (g, vs, d2)" "block g = [0..w div 100 * (h div 100) - 1]"
    using game_mainloop_returns [OF size(1,2) r0] by blast
  note game = r0 [unfolded res(1)]
  obtain d3 where d3: "main_c dv lit sy pic w h mc d = Some (Inr (g, game_exit sy vs mc', d3))"
    "sent d3 = sent d' @ map chr (log_text ?cs)"
    using main_c_ends [OF quiet(2) init open_d' ready game] by blast
  have scr: "screen_ok (mv mc')" "vmem_ok (mv mc')" using ready by (simp_all add: game_ready_def)
  have md: "mode_info vs = mode_info (mv mc')"
    using game_mainloop_paints [where obs = "\<lambda>_. ()", OF scr _ game] by (simp add: paints_def)
  have px: "shown_pixel vs x y = (if x < w \<and> y < h then get_color (vmemory (mv mc)) pic x y w h else 0)"
    if on: "on_screen vs x y" for x y
  proof -
    have on': "on_screen (mv mc') x y" using on md by (simp add: on_screen_def)
    have small: "unat pic + nat (w * h * 3) \<le> unat (sym_end sy)" "unat pic + nat (w * h * 3) \<le> 4294967296"
      using pic ok unat_lt32 [of "sym_end sy"] unfolding picture_at_def boot_ok_def boot_image_def Let_def by linarith+
    have "get_color (vmemory (mv mc')) pic x y w h = get_color (vmemory (mv mc)) pic x y w h" if "x < w" "y < h"
      by (rule get_color_same)
        (use that on' small kept in_reg_nat [OF small(2)] in \<open>auto simp: on_screen_def image_kept_def\<close>)
    then show ?thesis
      using game_mainloop_shows [OF scr picture_at_ok [OF size(3) ready] _ on' game] size(1) by simp
  qed
  show ?thesis using run res(2) d3 px unfolding d3(1)
    by (intro exI [of _ "(g, game_exit sy vs mc', d3)"]) (auto simp: game_over_def sent on_screen_def shown_pixel_def)
qed

text \<open>Keys that win on any device that delivers them when the game has begun.\<close>

lemma main_c_wins:
  assumes pic: "100 \<le> w" "100 \<le> h"
  obtains cs where "set cs \<subseteq> game_keys"
    and "\<And>(dv :: 'd device) sent ctl lit sy mc d mc' d' d''. keys_quiet dv sent ctl \<Longrightarrow>
      main_init dv lit sy mc d = Some (Inr (mc', d')) \<Longrightarrow> uart_open dv sent ctl d' \<Longrightarrow> game_ready lit mc' \<Longrightarrow>
      answers dv 0x60 (typed cs) d' d'' \<Longrightarrow> \<exists>r. main_c dv lit sy pic w h mc d = Some (Inr r)"
proof -
  obtain cs where cs: "set cs \<subseteq> game_keys" "\<forall>(dv :: 'd device) vs d d'. \<not> answers dv 0x60 (typed cs) d d'
      \<or> (\<exists>r. game_mainloop dv pic w h vs d = Some (Inr r))"
    using game_winning_keys [OF pic, where 'a = 'd and pic = pic] by (elim exE conjE)
  show thesis
  proof (rule that [OF cs(1)])
    fix dv :: "'d device" and sent ctl lit sy mc d mc' d' d''
    assume a: "keys_quiet dv sent ctl" "main_init dv lit sy mc d = Some (Inr (mc', d'))" "uart_open dv sent ctl d'" "game_ready lit mc'"
      "answers dv 0x60 (typed cs) d' d''"
    obtain r where "game_mainloop dv pic w h (mv mc') d' = Some (Inr r)"
      using cs(2) [rule_format, of dv d' d'' "mv mc'"] a(5) by blast
    then show "\<exists>r. main_c dv lit sy pic w h mc d = Some (Inr r)" using main_c_ends [OF a(1-4)] by (cases r) blast
  qed
qed

section \<open>The properties\<close>

text \<open>C2: the kernel boots. On a machine that satisfies \<open>boot_ok\<close>, \<open>main\<close> gets through every
  initialisation without a fault and reaches the game: paging is on and maps the kernel
  identically and the frame buffer besides, and nothing else; the frame buffer address
  comes from the mode information; the test interrupt is delivered and returns; every
  vector below 48 goes to the entry stub; interrupts are enabled; exactly the frames for the
  tables and the 255 that the self test keeps are taken from the allocator; the kernel image
  is intact; and the serial port has carried, byte for byte and in order, every log line of
  \<open>main\<close>, \<open>init_page\<close>, \<open>mm_continous_map\<close>, \<open>init_video\<close> and \<open>test_page\<close>.\<close>

theorem main_boots:
  assumes "uart_laws dv sent ctl" and "pic_quiet dv sent ctl" and "boot_ok lit sy mc mi sz nt"
  shows "\<exists>mc' d'. main_init dv lit sy mc d = Some (Inr (mc', d'))
    \<and> cr0 (kern (mv mc')) = cr0 (kern (mv mc)) OR CR0_PG
    \<and> unat (cr3 (kern (mv mc'))) = (unat (sym_end sy) + 4095) div 4096 * 4096
    \<and> (\<forall>la. translate (vmemory (mv mc')) (cr3 (kern (mv mc'))) la
        = (if PDX (physbase mi) \<le> PDX la \<and> PDX la \<le> PDX (physbase mi + sz) \<or> unat la < mapped_limit (unat (sym_end sy) div 4096 * 4096)
           then Some la else None))
    \<and> mode_info (mv mc') = mi \<and> vmem (mv mc') = physbase mi \<and> vmem_buffer (mv mc') = vmem_buffer (mv mc)
    \<and> mif mc' \<and> (\<forall>v. deliver (midt mc') v = (if v < 48 then Some (0x8, sym_entry sy) else None))
    \<and> mseg mc' = init_gdt (sym_gdt sy) (sym_tss sy) (mseg mc)
    \<and> pages_inv (kpages (kern (mv mc'))) [free_frame sy nt..<NR_PAGES]
    \<and> image_kept (sym_end sy) (vmemory (mv mc)) (vmemory (mv mc'))
    \<and> sent d' = sent (init_serial dv d) @ map chr (log_text (boot_log sy mi sz nt))"
  using main_init_boots [OF assms, of d] by (elim exE conjE) (intro exI conjI, assumption+)

text \<open>C8: the whole run is safe and can be won. There is a sequence of keys, which depends on the picture
  only, such that for every device that keeps its protocols, every kernel image and every machine
  that satisfy \<open>boot_ok\<close>: from boot to the end of the game \<open>main\<close> never faults; whatever the player types, when
  it returns the puzzle is solved, it has run with interrupts disabled, the screen shows the
  picture, and the serial line has carried the boot's log and the line of the solved game; \<open>main\<close> reaches
  the game, and if the keyboard then delivers these keys it does return.\<close>

theorem main_plays:
  "\<exists>cs. set cs \<subseteq> game_keys \<and> (\<forall>(dv :: 'd device) sent ctl lit sy mc mi sz nt d.
      uart_laws dv sent ctl \<and> pic_quiet dv sent ctl \<and> keys_quiet dv sent ctl \<and> boot_ok lit sy mc mi sz nt \<and> picture_at pic w h mc
    \<longrightarrow> (\<forall>r. main_c dv lit sy pic w h mc d = Some r
        \<longrightarrow> (\<exists>res. r = Inr res \<and> game_over sent pic w h (vmemory (mv mc))
          (sent (init_serial dv d)
           @ map chr (log_text (boot_log sy mi sz nt @ [LogLine ''kernel/game.c'' ''game_mainloop'' 155 ''Success'']))) res))
      \<and> (\<exists>mc' d'. main_init dv lit sy mc d = Some (Inr (mc', d'))
        \<and> (\<forall>d''. answers dv 0x60 (typed cs) d' d'' \<longrightarrow> (\<exists>res. main_c dv lit sy pic w h mc d = Some (Inr res)))))"
proof (cases "100 \<le> w \<and> 100 \<le> h")
  case False
  then have "\<not> picture_at pic w h mc" for mc by (auto simp: picture_at_def)
  then show ?thesis by (intro exI [of _ "[]"]) simp
next
  case True
  then have size: "100 \<le> w" "100 \<le> h" by simp_all
  obtain cs where cs: "set cs \<subseteq> game_keys"
    and wins: "\<And>(dv :: 'd device) sent ctl lit sy mc d mc' d' d''. keys_quiet dv sent ctl \<Longrightarrow>
      main_init dv lit sy mc d = Some (Inr (mc', d')) \<Longrightarrow> uart_open dv sent ctl d' \<Longrightarrow> game_ready lit mc' \<Longrightarrow>
      answers dv 0x60 (typed cs) d' d'' \<Longrightarrow> \<exists>r. main_c dv lit sy pic w h mc d = Some (Inr r)"
    by (rule main_c_wins [OF size, where 'd = 'd and pic = pic]) (rule that)
  show ?thesis
  proof (rule exI [of _ cs], rule conjI, rule cs, intro allI impI, elim conjE)
    fix dv :: "'d device" and sent ctl lit sy mc mi sz nt d
    assume a: "uart_laws dv sent ctl" "pic_quiet dv sent ctl" "keys_quiet dv sent ctl" "boot_ok lit sy mc mi sz nt" "picture_at pic w h mc"
    obtain mc' d' where init: "main_init dv lit sy mc d = Some (Inr (mc', d'))" and ready: "game_ready lit mc'"
      and open_d': "uart_open dv sent ctl d'"
      using main_init_boots [OF a(1,2,4), of d] by (elim exE conjE)
    have "\<forall>r. main_c dv lit sy pic w h mc d = Some r
        \<longrightarrow> (\<exists>res. r = Inr res \<and> game_over sent pic w h (vmemory (mv mc))
          (sent (init_serial dv d)
           @ map chr (log_text (boot_log sy mi sz nt @ [LogLine ''kernel/game.c'' ''game_mainloop'' 155 ''Success'']))) res)"
      using main_c_over [OF a] by blast
    moreover have "\<forall>d''. answers dv 0x60 (typed cs) d' d'' \<longrightarrow> (\<exists>res. main_c dv lit sy pic w h mc d = Some (Inr res))"
      using wins [OF a(3) init open_d' ready] by blast
    ultimately show "(\<forall>r. main_c dv lit sy pic w h mc d = Some r
        \<longrightarrow> (\<exists>res. r = Inr res \<and> game_over sent pic w h (vmemory (mv mc))
          (sent (init_serial dv d)
           @ map chr (log_text (boot_log sy mi sz nt @ [LogLine ''kernel/game.c'' ''game_mainloop'' 155 ''Success'']))) res))
      \<and> (\<exists>mc' d'. main_init dv lit sy mc d = Some (Inr (mc', d'))
        \<and> (\<forall>d''. answers dv 0x60 (typed cs) d' d'' \<longrightarrow> (\<exists>res. main_c dv lit sy pic w h mc d = Some (Inr res))))"
      using init by blast
  qed
qed


section \<open>A machine that boots\<close>

text \<open>A machine with the UART of \<open>Serial\<close>, a keyboard with the bytes it is going to deliver, and a quiet
  interrupt controller, and a kernel that ends at \<open>0x4A1234\<close>.\<close>

record pc =
  pc_uart :: uart
  pc_keys :: "byte list"

definition pc_in :: "width \<Rightarrow> u16 \<Rightarrow> pc \<Rightarrow> u32 \<times> pc" where
  "pc_in w port d =
     (if port = 0x60 then (case pc_keys d of [] \<Rightarrow> (0, d) | k # ks \<Rightarrow> (ucast k, d\<lparr>pc_keys := ks\<rparr>))
      else if port = COM1 + 5 then map_prod id (\<lambda>u. d\<lparr>pc_uart := u\<rparr>) (dev_in sim_uart w port (pc_uart d))
      else (0, d))"

definition pc_out :: "width \<Rightarrow> u16 \<Rightarrow> u32 \<Rightarrow> pc \<Rightarrow> pc" where
  "pc_out w port x d = d\<lparr>pc_uart := uart_out port (ucast x) (pc_uart d)\<rparr>"

definition sim_pc :: "pc device" where
  "sim_pc = \<lparr>dev_in = pc_in, dev_out = pc_out\<rparr>"

definition pc_sent :: "pc \<Rightarrow> byte list" where
  "pc_sent d = u_sent (pc_uart d)"

definition pc_ctl :: "pc \<Rightarrow> byte \<times> byte" where
  "pc_ctl d = u_ctl (pc_uart d)"

lemma pc_looks:
  "answers sim_pc (COM1 + 5) ((if u_busy (pc_uart d) then [0] else []) @ [0x20]) d (d\<lparr>pc_uart := (pc_uart d)\<lparr>u_busy := False\<rparr>\<rparr>)"
  by (simp add: sim_pc_def pc_in_def sim_uart_def inb_def COM1_def)

lemma pc_outb: "outb sim_pc port c d = d\<lparr>pc_uart := uart_out port c (pc_uart d)\<rparr>"
  by (simp add: outb_def sim_pc_def pc_out_def ucast_byte)

text \<open>What is sent, behind anything that depends on the keyboard only.\<close>

lemma sim_pc_uart: "uart_laws sim_pc (\<lambda>d. f (pc_keys d) @ pc_sent d) pc_ctl"
proof -
  have "\<exists>xs y d'. answers sim_pc (COM1 + 5) (xs @ [y]) d d' \<and> (\<forall>x \<in> set xs. \<not> transmit_empty x)
        \<and> transmit_empty y \<and> \<not> u_busy (pc_uart d') \<and> f (pc_keys d') @ pc_sent d' = f (pc_keys d) @ pc_sent d \<and> pc_ctl d' = pc_ctl d" for d
    using pc_looks [of d]
    by (intro exI [of _ "if u_busy (pc_uart d) then [0] else []"] exI [of _ "0x20"] exI [of _ "d\<lparr>pc_uart := (pc_uart d)\<lparr>u_busy := False\<rparr>\<rparr>"])
      (simp add: transmit_empty_def pc_sent_def pc_ctl_def)
  then show ?thesis
    unfolding uart_laws_def
    by (intro exI [of _ "\<lambda>d. \<not> u_busy (pc_uart d)"]) (simp add: pc_outb uart_out_keeps pc_sent_def pc_ctl_def)
qed

lemmas pc_uart_laws = sim_pc_uart [of "\<lambda>_. []", unfolded append_Nil]

lemma pic_ports: "init_i8259_pic sim_pc d = d"
  by (simp add: init_i8259_pic_def sim_pc_def pc_out_def outb_def uart_out_def COM1_def PORT_PIC_MASTER_DATA_def PORT_PIC_SLAVE_DATA_def
      PORT_PIC_MASTER_CMD_def PORT_PIC_SLAVE_CMD_def Let_def)

lemma sim_pc_pic: "pic_quiet sim_pc sent ctl"
  by (simp add: pic_quiet_def pic_ports)

lemma sim_pc_keys: "keys_quiet sim_pc pc_sent pc_ctl"
  by (simp add: keys_quiet_def sim_pc_def pc_in_def pc_sent_def pc_ctl_def inb_def split: list.split)

lemma sim_pc_answers: "pc_keys d = bs @ cs \<Longrightarrow> answers sim_pc 0x60 bs d (d\<lparr>pc_keys := cs\<rparr>)"
proof (induction bs arbitrary: d)
  case Nil
  then show ?case by simp
next
  case (Cons b bs)
  then have "inb sim_pc 0x60 d = (b, d\<lparr>pc_keys := bs @ cs\<rparr>)"
    by (simp add: inb_def sim_pc_def pc_in_def ucast_byte)
  with Cons.IH [of "d\<lparr>pc_keys := bs @ cs\<rparr>"] show ?case by simp
qed

definition pc_mem :: mem where
  "pc_mem = (slot_mem main_strings)(0xF010 := 0x60, 0xF011 := 0x09, 0xF012 := 0x20, 0xF013 := 0x03,
      0xF014 := 0x58, 0xF015 := 0x02, 0xF028 := 0, 0xF029 := 0, 0xF02A := 0, 0xF02B := 0xFD)"

definition pc_machine :: machine where
  "pc_machine = \<lparr>mv = vga\<lparr>kern := (kern vga)\<lparr>kmem := pc_mem\<rparr>\<rparr>,
     mseg = idle_segs, midt = idle_gates, mif = False, mregs = idle_regs, mstk = []\<rparr>"

lemma pc_string:
  assumes "t \<in> set main_strings"
  shows "in_image 0x300000 pc_mem (str_slot main_strings) t"
proof -
  have l: "length t < 64" "\<forall>c \<in> set t. chr c \<noteq> 0" "length main_strings < 100"
    using assms main_strings_small by blast+
  have short: "length main_strings < 1000" "length t < 1000000"
    using less_trans [OF l(3), of 1000] less_trans [OF l(1), of 1000000] by simp_all
  let ?ro = "{x :: u32. unat x < 0x1000 + 64 * length main_strings}"
  have "str_at {x. unat x < unat (0x300000 :: u32)} pc_mem (str_slot main_strings t) (map chr t)"
  proof (rule str_at_cong [OF slot_str(1) [OF assms l(1) short(1) l(2)]])
    show "x \<in> {x. unat x < unat (0x300000 :: u32)} \<and> pc_mem x = slot_mem main_strings x" if "x \<in> ?ro" for x
      using that l(3) by (auto simp: pc_mem_def)
  qed
  with slot_str(2) [OF assms l(1) short(1) l(2)] short(2) show ?thesis by (simp add: in_image_def)
qed

lemma vga_mode_fits:
  assumes "Xres mi = 800" "Yres mi = 600" "pitch mi = 2400"
  shows "fits mi" "PDX (0xFD000000 + 1440000) = PDX 0xFD000000"
    "(unat (0x4A1234 :: u32) + 4095) div 4096 + 2 + unat (0x4A1234 :: u32) div 4194304 + 1 + 270 \<le> NR_PAGES"
    "((unat (0x4A1234 :: u32) + 4095) div 4096 + 2 + unat (0x4A1234 :: u32) div 4194304 + 1) * 4096
      \<le> mapped_limit (unat (0x4A1234 :: u32) div 4096 * 4096)"
  using assms by (simp_all add: fits_def VBUF_SIZE_def NR_PAGES_def mapped_limit_def PDX_def PDXSHIFT_def)

lemma pc_machine_parts:
  "vmemory (mv pc_machine) = pc_mem" "vmem_buffer (mv pc_machine) = 0x300000" "klog (kern (mv pc_machine)) = []"
  "length (gdt (mseg pc_machine)) = NR_GDT" "length (idt (midt pc_machine)) = 48" "sym_end idle_symbols = 0x4A1234"
  by (simp_all add: pc_machine_def idle_symbols_def idle_segs_def idle_gates_def vga_def)

lemma pc_mode:
  "Xres (ModeInfoBlock_at pc_mem 0xf000) = 800" "Yres (ModeInfoBlock_at pc_mem 0xf000) = 600"
  "pitch (ModeInfoBlock_at pc_mem 0xf000) = 2400" "physbase (ModeInfoBlock_at pc_mem 0xf000) = 0xFD000000"
  by (simp_all add: pc_mem_def ModeInfoBlock_at_def load16_def load32_def)

lemma pc_boot_ok: "boot_ok (str_slot main_strings) idle_symbols pc_machine (ModeInfoBlock_at pc_mem 0xf000) 1440000 1"
  unfolding boot_ok_def boot_image_def Let_def pc_machine_parts pc_mode vga_mode_fits(2) [OF pc_mode(1-3)]
  using pc_string vga_mode_fits [OF pc_mode(1-3)] by (simp add: VBUF_SIZE_def)

lemma pc_picture: "picture_at 0x200000 300 200 pc_machine"
  by (simp add: picture_at_def pc_machine_parts)

definition pc_start :: "byte list \<Rightarrow> pc" where
  "pc_start keys = \<lparr>pc_uart = uart_start, pc_keys = keys\<rparr>"

text \<open>Programming the UART sends nothing.\<close>

lemma pc_serial: "pc_sent (init_serial sim_pc (pc_start keys)) = []" "pc_keys (init_serial sim_pc (pc_start keys)) = keys"
  by (simp_all add: init_serial_def init_serial_com_def sim_pc_def pc_out_def pc_sent_def outb_def pc_start_def uart_start_def uart_out_def
      COM1_def Let_def ucast_byte)

theorem main_boots_witness:
  "\<exists>mc' d'. main_init sim_pc (str_slot main_strings) idle_symbols pc_machine (pc_start []) = Some (Inr (mc', d'))
    \<and> mif mc' \<and> vmem (mv mc') = 0xFD000000 \<and> deliver (midt mc') 33 = Some (0x8, 0x100F00)
    \<and> cr3 (kern (mv mc')) = 0x4A2000
    \<and> pc_sent d' = map chr (log_text (boot_log idle_symbols (ModeInfoBlock_at pc_mem 0xf000) 1440000 1))"
proof -
  obtain mc' d' where b: "main_init sim_pc (str_slot main_strings) idle_symbols pc_machine (pc_start []) = Some (Inr (mc', d'))"
    "unat (cr3 (kern (mv mc'))) = (unat (sym_end idle_symbols) + 4095) div 4096 * 4096"
    "vmem (mv mc') = physbase (ModeInfoBlock_at pc_mem 0xf000)" "mif mc'"
    "\<forall>v. deliver (midt mc') v = (if v < 48 then Some (0x8, sym_entry idle_symbols) else None)"
    "pc_sent d' = map chr (log_text (boot_log idle_symbols (ModeInfoBlock_at pc_mem 0xf000) 1440000 1))"
    using main_boots [OF pc_uart_laws sim_pc_pic pc_boot_ok, of "pc_start []", unfolded pc_serial append_Nil] by (elim exE conjE)
  have "unat (cr3 (kern (mv mc'))) = unat (0x4A2000 :: u32)" using b(2) by (simp add: idle_symbols_def)
  then have "cr3 (kern (mv mc')) = 0x4A2000" by (simp only: word_unat_eq_iff)
  moreover have "deliver (midt mc') 33 = Some (0x8, 0x100F00)" using b(5) by (simp add: idle_symbols_def)
  ultimately show ?thesis using b(1,4,6) b(3) [unfolded pc_mode] by - (rule exI [of _ mc'], rule exI [of _ d'], intro conjI)
qed

text \<open>Two of the lines that this boot sends.\<close>

lemma pc_boot_lines:
  "call_text (LogExpr ''kernel/page.c'' ''init_page'' 61 ''start'' (sym_start idle_symbols))
     = LOG_COLOR @ ''[kernel/page.c#init_page:61] start is 0x100000'' @ END_COLOR @ [CHR 0x0A]"
  "call_text (LogExpr ''kernel/video.c'' ''init_video'' 55 ''mode_info.pitch'' (ucast (pitch (ModeInfoBlock_at pc_mem 0xf000))))
     = LOG_COLOR @ ''[kernel/video.c#init_video:55] mode_info.pitch is 0x960'' @ END_COLOR @ [CHR 0x0A]"
  by (simp_all add: line_text_def dec_text_def hex_text_def digits_ge digits_lt dchar_def idle_symbols_def pc_mode)

text \<open>\<open>main\<close> does not touch the keyboard before the game.\<close>

lemma pc_keys_kept:
  assumes "main_init sim_pc (str_slot main_strings) idle_symbols pc_machine (pc_start keys) = Some (Inr (mc', d'))"
  shows "pc_keys d' = keys"
proof -
  let ?t = "map chr (log_text (boot_log idle_symbols (ModeInfoBlock_at pc_mem 0xf000) 1440000 1))"
  have "pc_sent d' = pc_sent (init_serial sim_pc (pc_start keys)) @ ?t"
    using main_init_boots [OF pc_uart_laws sim_pc_pic pc_boot_ok, of "pc_start keys"] assms by auto
  moreover have "pc_keys d' @ pc_sent d' = pc_keys (init_serial sim_pc (pc_start keys)) @ pc_sent (init_serial sim_pc (pc_start keys)) @ ?t"
    using main_init_boots [OF sim_pc_uart [of "\<lambda>ks. ks"] sim_pc_pic pc_boot_ok, of "pc_start keys"] assms by auto
  ultimately show ?thesis by (simp add: pc_serial)
qed

text \<open>The winning keys typed on this machine: \<open>main\<close> returns with the puzzle solved and everything sent.\<close>

theorem main_plays_witness:
  "\<exists>cs res. set cs \<subseteq> game_keys
    \<and> main_c sim_pc (str_slot main_strings) idle_symbols 0x200000 300 200 pc_machine (pc_start (typed cs)) = Some (Inr res)
    \<and> game_over pc_sent 0x200000 300 200 pc_mem (map chr (log_text (boot_log idle_symbols (ModeInfoBlock_at pc_mem 0xf000) 1440000 1
        @ [LogLine ''kernel/game.c'' ''game_mainloop'' 155 ''Success'']))) res"
proof -
  obtain cs where cs: "set cs \<subseteq> game_keys" and plays: "\<forall>(dv :: pc device) sent ctl lit sy mc mi sz nt d.
      uart_laws dv sent ctl \<and> pic_quiet dv sent ctl \<and> keys_quiet dv sent ctl \<and> boot_ok lit sy mc mi sz nt \<and> picture_at 0x200000 300 200 mc
    \<longrightarrow> (\<forall>r. main_c dv lit sy 0x200000 300 200 mc d = Some r
        \<longrightarrow> (\<exists>res. r = Inr res \<and> game_over sent 0x200000 300 200 (vmemory (mv mc))
          (sent (init_serial dv d)
           @ map chr (log_text (boot_log sy mi sz nt @ [LogLine ''kernel/game.c'' ''game_mainloop'' 155 ''Success'']))) res))
      \<and> (\<exists>mc' d'. main_init dv lit sy mc d = Some (Inr (mc', d'))
        \<and> (\<forall>d''. answers dv 0x60 (typed cs) d' d'' \<longrightarrow> (\<exists>res. main_c dv lit sy 0x200000 300 200 mc d = Some (Inr res))))"
    using main_plays [where 'd = pc, of "0x200000" 300 200] by blast
  note run = plays [rule_format, OF conjI [OF pc_uart_laws conjI [OF sim_pc_pic conjI [OF sim_pc_keys conjI [OF pc_boot_ok pc_picture]]]],
      of "pc_start (typed cs)", unfolded pc_serial append_Nil pc_machine_parts]
  obtain mc' d' where init: "main_init sim_pc (str_slot main_strings) idle_symbols pc_machine (pc_start (typed cs)) = Some (Inr (mc', d'))"
    using run by blast
  have "answers sim_pc 0x60 (typed cs) d' (d'\<lparr>pc_keys := []\<rparr>)"
    by (rule sim_pc_answers) (simp add: pc_keys_kept [OF init])
  then obtain res where res: "main_c sim_pc (str_slot main_strings) idle_symbols 0x200000 300 200 pc_machine (pc_start (typed cs)) = Some (Inr res)"
    using run init by auto
  then show ?thesis using run cs by blast
qed

end
