(* ===== verification/Protection.thy ===== *)
theory Protection
  imports KernelMain Hardware
begin

text \<open>
  Access rights: what the page tables of \<open>kernel/page.c\<close> let a program do. The walk of \<open>MMU\<close> gives
  the frame of an address; here the processor's check of the rights in the directory and in the
  table is added, with the error code that a page fault carries (\<open>inc/mmu.h\<close>).
\<close>

section \<open>The check\<close>

definition fault_code :: "bool \<Rightarrow> bool \<Rightarrow> bool \<Rightarrow> u32" where
  "fault_code protection user wr =
     (if protection then FEC_PR else 0) OR (if wr then FEC_WR else 0) OR (if user then FEC_U else 0)"

text \<open>An access by user mode or by the kernel, to read or to write: a page fault with its error code,
  or the physical address. The kernel may write to a read-only page when the write protection
  of \<open>cr0\<close> is off.\<close>

definition page_access :: "mem \<Rightarrow> u32 \<Rightarrow> u32 \<Rightarrow> bool \<Rightarrow> bool \<Rightarrow> u32 \<Rightarrow> u32 + u32" where
  "page_access m c0 c3 user wr la =
     (let pde = load32 m (PTE_ADDR c3 + 4 * PDX la)
      in if pde AND PTE_P = 0 then Inl (fault_code False user wr)
         else (let pte = load32 m (PTE_ADDR pde + 4 * PTX la)
               in if pte AND PTE_P = 0 then Inl (fault_code False user wr)
                  else if user \<and> (pde AND PTE_U = 0 \<or> pte AND PTE_U = 0) then Inl (fault_code True user wr)
                  else if wr \<and> (user \<or> c0 AND CR0_WP \<noteq> 0) \<and> (pde AND PTE_W = 0 \<or> pte AND PTE_W = 0)
                  then Inl (fault_code True user wr)
                  else Inr (PTE_ADDR pte OR PGOFF la)))"

text \<open>With tables that \<open>mm_continous_map\<close> has built the rights never come into play.\<close>

lemma page_access_open:
  assumes "tables_ok m c3 fs"
  shows "page_access m c0 c3 user wr la
    = (case translate m c3 la of None \<Rightarrow> Inl (fault_code False user wr) | Some a \<Rightarrow> Inr a)"
proof -
  let ?pde = "load32 m (slot c3 (unat (PDX la)))" and ?pte = "load32 m (slot (PTE_ADDR (load32 m (slot c3 (unat (PDX la))))) (unat (PTX la)))"
  have al: "unat c3 mod 4096 = 0" using assms by (simp add: tables_ok_def)
  have walk: "load32 m (PTE_ADDR c3 + 4 * PDX la) = ?pde" "load32 m (PTE_ADDR ?pde + 4 * PTX la) = ?pte"
    by (simp_all add: slot_def PTE_ADDR_aligned [OF al])
  have pde: "open_entry ?pde \<and> table_open m (PTE_ADDR ?pde)" if "?pde AND PTE_P \<noteq> 0"
    using assms that unat_PDX_less [of la] unfolding tables_ok_def by blast
  have pte: "open_entry ?pte" if "?pde AND PTE_P \<noteq> 0" "?pte AND PTE_P \<noteq> 0"
    using pde [OF that(1)] that(2) unat_PTX_less [of la] unfolding table_open_def by blast
  show ?thesis
    using pde pte unfolding page_access_def translate_def Let_def walk by (auto simp: open_entry_def)
qed

section \<open>Properties\<close>

text \<open>C17: after the boot there is no protection. An access to a mapped address, the kernel's code
  and its page tables included, succeeds at the same physical address, for reading and for
  writing, from the kernel and from user mode, whatever the write protection bit says; any other
  access faults, with an error code that says the page is not present.\<close>

theorem kernel_unprotected:
  assumes "uart_laws dv sent ctl" and "pic_quiet dv sent ctl" and "boot_ok lit sy mc mi sz nt"
  shows "\<exists>mc' d'. main_init dv lit sy mc d = Some (Inr (mc', d'))
    \<and> (\<forall>user wr la c0. page_access (vmemory (mv mc')) c0 (cr3 (kern (mv mc'))) user wr la
      = (if PDX (physbase mi) \<le> PDX la \<and> PDX la \<le> PDX (physbase mi + sz) \<or> unat la < mapped_limit (unat (sym_end sy) div 4096 * 4096)
         then Inr la else Inl (fault_code False user wr)))"
proof -
  obtain mc' d' fs where init: "main_init dv lit sy mc d = Some (Inr (mc', d'))"
    and tr: "\<forall>la. translate (vmemory (mv mc')) (cr3 (kern (mv mc'))) la
        = (if PDX (physbase mi) \<le> PDX la \<and> PDX la \<le> PDX (physbase mi + sz) \<or> unat la < mapped_limit (unat (sym_end sy) div 4096 * 4096)
           then Some la else None)"
    and ok: "tables_ok (vmemory (mv mc')) (cr3 (kern (mv mc'))) fs"
    using main_init_boots [OF assms, of d] by (elim exE conjE) (rule that)
  note access = page_access_open [OF ok]
  show ?thesis
    using init by (intro exI [of _ mc'] exI [of _ d'] conjI allI) (simp_all add: access tr)
qed

theorem kernel_unprotected_witness:
  "\<exists>mc' d'. main_init sim_pc (str_slot main_strings) idle_symbols pc_machine (pc_start []) = Some (Inr (mc', d'))
    \<and> page_access (vmemory (mv mc')) 0x80010011 (cr3 (kern (mv mc'))) True True 0x100000 = Inr 0x100000
    \<and> page_access (vmemory (mv mc')) 0x80010011 (cr3 (kern (mv mc'))) True True 0x800000 = Inl 0x6"
proof -
  obtain mc' d' where init: "main_init sim_pc (str_slot main_strings) idle_symbols pc_machine (pc_start []) = Some (Inr (mc', d'))"
    and acc: "\<forall>user wr la c0. page_access (vmemory (mv mc')) c0 (cr3 (kern (mv mc'))) user wr la
      = (if PDX 0xFD000000 \<le> PDX la \<and> PDX la \<le> PDX (0xFD000000 + 1440000) \<or> unat la < mapped_limit (unat (0x4A1234 :: u32) div 4096 * 4096)
         then Inr la else Inl (fault_code False user wr))"
    using kernel_unprotected [OF pc_uart_laws sim_pc_pic pc_boot_ok, of "pc_start []", unfolded pc_mode pc_machine_parts]
    by (elim exE conjE) (rule that)
  have "mapped_limit (unat (0x4A1234 :: u32) div 4096 * 4096) = 0x800000" by (simp add: mapped_limit_def)
  moreover have "\<not> PDX 0xFD000000 \<le> PDX 0x800000" by (simp add: PDX_def PDXSHIFT_def)
  moreover have "fault_code False True True = 0x6" by (simp add: fault_code_def FEC_WR_def FEC_U_def)
  ultimately show ?thesis using init acc by (intro exI [of _ mc'] exI [of _ d'] conjI) simp_all
qed

end
