(* ===== verification/Puzzle.thy ===== *)
theory Puzzle
  imports Game Steps
begin

text \<open>
  The puzzle that \<open>kernel/game.c\<close> plays, seen from outside: the game as a machine whose events are
  the scan codes that \<open>get_key\<close> returns, the correspondence of the main loop with the traces of
  that machine, and its refinement of the abstract puzzle, a board of cells with a cursor and at
  most one picked cell.
\<close>

section \<open>The game as a machine\<close>

text \<open>A key is read only while the puzzle is unsolved.\<close>

inductive key_press :: "GameState \<Rightarrow> u32 \<Rightarrow> GameState \<Rightarrow> bool" where
  key_press: "\<not> check_valid g \<Longrightarrow> react c g = Inr g' \<Longrightarrow> key_press g c g'"

inductive_simps key_press_iff: "key_press g c g'"

text \<open>The scan codes that successive calls of \<open>get_key\<close> return.\<close>

fun reads_keys :: "'d device \<Rightarrow> 'd \<Rightarrow> u32 list \<Rightarrow> 'd \<Rightarrow> bool" where
  "reads_keys dv d [] d' \<longleftrightarrow> d' = d"
| "reads_keys dv d (c # cs) d' \<longleftrightarrow>
     (case get_key dv d of None \<Rightarrow> False | Some (k, d1) \<Rightarrow> k = c \<and> reads_keys dv d1 cs d')"

lemma game_loop_traces:
  assumes "game_loop dv g vs d = Some r"
  shows "case r of Inl e \<Rightarrow> True
    | Inr (g', vs', d') \<Rightarrow> \<exists>cs. reads_keys dv d cs d' \<and> trace key_press g cs g' \<and> check_valid g'"
proof (induction rule: game_loop.raw_induct [OF _ assms])
  case (1 f dv g vs d r)
  show ?case
  proof (cases "check_valid g")
    case True
    then have "r = Inr (g, update_frame g vs, d)" using 1(2) by (simp add: Let_def)
    moreover have "reads_keys dv d [] d \<and> trace key_press g [] g \<and> check_valid g" using True by simp
    ultimately show ?thesis by (auto simp del: reads_keys.simps)
  next
    case False
    then obtain c d1 where key: "get_key dv d = Some (c, d1)"
      using 1(2) by (auto simp: Let_def update_game_state_def split: option.splits)
    show ?thesis
    proof (cases "react c g")
      case (Inl e)
      then show ?thesis using 1(2) False key by (auto simp: Let_def update_game_state_def)
    next
      case (Inr g1)
      have step: "key_press g c g1" using False Inr by (simp add: key_press_iff)
      have "f dv g1 (update_frame g vs) d1 = Some r"
        using 1(2) False key Inr by (simp add: Let_def update_game_state_def)
      note rest = 1(1) [OF this]
      show ?thesis
      proof (cases r)
        case r: (Inr x)
        obtain g2 v2 d2 where x: "x = (g2, v2, d2)" by (cases x)
        obtain cs where "reads_keys dv d1 cs d2" "trace key_press g1 cs g2" "check_valid g2"
          using rest unfolding r x by auto
        then have "reads_keys dv d (c # cs) d2 \<and> trace key_press g (c # cs) g2 \<and> check_valid g2"
          using key trace_step [of key_press, OF step] by simp
        then show ?thesis unfolding r x sum.case prod.case by (rule exI [of _ "c # cs"])
      qed simp
    qed
  qed
qed

lemma traces_game_loop:
  "reads_keys dv d cs d' \<Longrightarrow> trace key_press g cs g' \<Longrightarrow> check_valid g'
    \<Longrightarrow> \<exists>vs'. game_loop dv g vs d = Some (Inr (g', vs', d'))"
proof (induction cs arbitrary: d g vs)
  case Nil
  then show ?case by (subst game_loop.simps) (simp add: Let_def)
next
  case (Cons c cs)
  obtain d1 where key: "get_key dv d = Some (c, d1)" "reads_keys dv d1 cs d'"
    using Cons.prems(1) by (auto split: option.splits)
  obtain g1 where step: "\<not> check_valid g" "react c g = Inr g1" and more: "trace key_press g1 cs g'"
    using Cons.prems(2) unfolding trace_Cons_iff key_press_iff by blast
  obtain vs' where "game_loop dv g1 (update_frame g vs) d1 = Some (Inr (g', vs', d'))"
    using Cons.IH [OF key(2) more Cons.prems(3)] by blast
  then show ?case using key(1) step by (subst game_loop.simps) (simp add: Let_def update_game_state_def)
qed

section \<open>The abstract puzzle\<close>

datatype move = Go int int | Pick | Idle

record puzzle =
  cols :: int
  rows :: int
  cursor :: "int \<times> int"
  picked :: "(int \<times> int) option"
  tiles :: "int \<times> int \<Rightarrow> int"

definition move_of :: "u32 \<Rightarrow> move" where
  "move_of c = (if c = KEY_DOWN then Go 0 1 else if c = KEY_UP then Go 0 (- 1) else if c = KEY_RIGHT then Go 1 0
     else if c = KEY_LEFT then Go (- 1) 0 else if c = KEY_SPACE then Pick else Idle)"

fun pz_move :: "move \<Rightarrow> puzzle \<Rightarrow> puzzle" where
  "pz_move (Go dx dy) p = p\<lparr>cursor := ((fst (cursor p) + dx) mod cols p, (snd (cursor p) + dy) mod rows p)\<rparr>"
| "pz_move Pick p = (case picked p of
     None \<Rightarrow> p\<lparr>picked := Some (cursor p)\<rparr>
   | Some c \<Rightarrow> p\<lparr>picked := None, tiles := (tiles p)(cursor p := tiles p c, c := tiles p (cursor p))\<rparr>)"
| "pz_move Idle p = p"

definition cell_nr :: "int \<Rightarrow> int \<times> int \<Rightarrow> int" where
  "cell_nr h c = snd c * h + fst c"

definition board :: "int \<Rightarrow> int \<Rightarrow> (int \<times> int) set" where
  "board h v = {0..<h} \<times> {0..<v}"

definition pz_solved :: "puzzle \<Rightarrow> bool" where
  "pz_solved p \<longleftrightarrow> (\<forall>c \<in> board (cols p) (rows p). tiles p c = cell_nr (cols p) c)"

inductive pz_step :: "puzzle \<Rightarrow> u32 \<Rightarrow> puzzle \<Rightarrow> bool" where
  pz_step: "\<not> pz_solved p \<Longrightarrow> pz_step p c (pz_move (move_of c) p)"

text \<open>At the start the tiles lie in reverse order, with the cursor in the first cell.\<close>

definition pz_start :: "int \<Rightarrow> int \<Rightarrow> puzzle" where
  "pz_start h v = \<lparr>cols = h, rows = v, cursor = (0, 0), picked = None,
     tiles = (\<lambda>c. if c \<in> board h v then h * v - 1 - cell_nr h c else 0)\<rparr>"

definition abs_game :: "GameState \<Rightarrow> puzzle" where
  "abs_game g = \<lparr>cols = nr_block_h g, rows = nr_block_v g, cursor = (block_x g, block_y g),
     picked = (if select g = GAME_SEL_SELECTED then Some (select_block_x g, select_block_y g) else None),
     tiles = (\<lambda>c. if c \<in> board (nr_block_h g) (nr_block_v g) then block g ! nat (cell_nr (nr_block_h g) c) else 0)\<rparr>"

section \<open>The refinement\<close>

lemma cell_nr_bound: "c \<in> board h v \<Longrightarrow> 0 \<le> cell_nr h c \<and> cell_nr h c < h * v"
  using cell_bound [of "fst c" h "snd c" v] by (auto simp: board_def cell_nr_def)

lemma cell_nr_eq:
  assumes "c \<in> board h v" "e \<in> board h v"
  shows "cell_nr h c = cell_nr h e \<longleftrightarrow> c = e"
proof -
  have "fst x = cell_nr h x mod h \<and> snd x = cell_nr h x div h" if "x \<in> board h v" for x
    using that by (auto simp: board_def cell_nr_def)
  from this [OF assms(1)] this [OF assms(2)] show ?thesis by (metis prod_eq_iff)
qed

lemma nat_cell_eq: "c \<in> board h v \<Longrightarrow> e \<in> board h v \<Longrightarrow> nat (cell_nr h c) = nat (cell_nr h e) \<longleftrightarrow> c = e"
  using cell_nr_bound [of c h v] cell_nr_bound [of e h v] cell_nr_eq [of c h v e] by (simp add: eq_nat_nat_iff)

lemma inv_cells:
  assumes "game_inv g"
  shows "(block_x g, block_y g) \<in> board (nr_block_h g) (nr_block_v g)"
    and "select g = GAME_SEL_SELECTED \<Longrightarrow> (select_block_x g, select_block_y g) \<in> board (nr_block_h g) (nr_block_v g)"
  using assms by (simp_all add: game_inv_def board_def)

lemma abs_swapped:
  assumes "game_inv g" and "select g = GAME_SEL_SELECTED"
  shows "abs_game (g\<lparr>select := GAME_SEL_NONE, block := swapped g\<rparr>) = pz_move Pick (abs_game g)"
proof -
  let ?h = "nr_block_h g" and ?v = "nr_block_v g" and ?c = "(block_x g, block_y g)" and ?s = "(select_block_x g, select_block_y g)"
  note cells = inv_cells [OF assms(1)] inv_cells(2) [OF assms]
  have cc: "cursor_cell g = nat (cell_nr ?h ?c)" "selected_cell g = nat (cell_nr ?h ?s)"
    by (simp_all add: cursor_cell_def selected_cell_def cell_nr_def)
  note len = cells_bound(1) [OF assms(1)] cells_bound(2) [OF assms]
  have nth: "swapped g ! k = (if k = selected_cell g then block g ! cursor_cell g
      else if k = cursor_cell g then block g ! selected_cell g else block g ! k)" for k
    using len unfolding swapped_def by (simp add: nth_list_update)
  have "swapped g ! nat (cell_nr ?h e)
      = (if e = ?s then block g ! cursor_cell g else if e = ?c then block g ! selected_cell g else block g ! nat (cell_nr ?h e))"
    if "e \<in> board ?h ?v" for e
    unfolding nth cc nat_cell_eq [OF that cells(1)] nat_cell_eq [OF that cells(3)] by (rule refl)
  then have "tiles (abs_game (g\<lparr>select := GAME_SEL_NONE, block := swapped g\<rparr>))
      = (tiles (abs_game g))(?c := tiles (abs_game g) ?s, ?s := tiles (abs_game g) ?c)"
    using cells by (intro ext) (simp add: abs_game_def cc)
  then show ?thesis using assms(2) by (simp add: abs_game_def)
qed

lemma abs_react:
  assumes inv: "game_inv g" and step: "react c g = Inr g'"
  shows "abs_game g' = pz_move (move_of c) (abs_game g)"
proof -
  have mods: "block_x g mod nr_block_h g = block_x g" "block_y g mod nr_block_v g = block_y g"
    using inv by (simp_all add: game_inv_def)
  consider "c = KEY_DOWN" | "c = KEY_UP" | "c = KEY_LEFT" | "c = KEY_RIGHT" | "c = KEY_SPACE"
    | "c \<notin> {KEY_DOWN, KEY_UP, KEY_RIGHT, KEY_LEFT, KEY_SPACE}" by blast
  then show ?thesis
  proof cases
    case 5
    have g': "g' = (if select g = GAME_SEL_NONE
       then g\<lparr>select := GAME_SEL_SELECTED, select_block_x := block_x g, select_block_y := block_y g\<rparr>
       else g\<lparr>select := GAME_SEL_NONE, block := swapped g\<rparr>)"
      using step unfolding 5 react_space [OF inv] press_space_spec [OF inv] by simp
    have "move_of c = Pick" unfolding 5 by (simp add: move_of_def key_defs)
    then show ?thesis using abs_swapped [OF inv] unfolding g' by (cases "select g") (simp_all add: abs_game_def cong: if_cong)
  next
    case 6
    then show ?thesis using step react_other [OF inv, of c] by (auto simp: move_of_def)
  qed (use step react_move [OF inv] mods in \<open>auto simp: abs_game_def move_of_def key_defs\<close>)
qed

lemma board_cells: "0 < h \<Longrightarrow> {0..<h * v} \<subseteq> cell_nr h ` board h v" for h v :: int
proof
  fix i assume "0 < h" and i: "i \<in> {0..<h * v}"
  then have "(i mod h, i div h) \<in> board h v"
    by (auto simp: board_def pos_imp_zdiv_nonneg_iff intro: int_div_less [of h i v] simp: mult.commute)
  moreover have "cell_nr h (i mod h, i div h) = i" by (simp add: cell_nr_def)
  ultimately show "i \<in> cell_nr h ` board h v" by (metis imageI)
qed

lemma abs_solved:
  assumes inv: "game_inv g"
  shows "pz_solved (abs_game g) \<longleftrightarrow> check_valid g"
proof -
  let ?h = "nr_block_h g" and ?v = "nr_block_v g" and ?n = "nr_blocks g"
  have h: "0 < ?h" using inv by (simp add: game_inv_def)
  have len: "length (block g) = nat ?n" by (rule game_inv_length [OF inv])
  have "pz_solved (abs_game g) \<longleftrightarrow> (\<forall>c \<in> board ?h ?v. block g ! nat (cell_nr ?h c) = cell_nr ?h c)"
    by (simp add: pz_solved_def abs_game_def)
  also have "\<dots> \<longleftrightarrow> (\<forall>i \<in> {0..<?n}. block g ! nat i = i)"
    using board_cells [OF h, of ?v] cell_nr_bound [of _ ?h ?v] by (fastforce simp: nr_blocks_def)
  also have "\<dots> \<longleftrightarrow> block g = [0..?n - 1]"
  proof
    assume all: "\<forall>i \<in> {0..<?n}. block g ! nat i = i"
    show "block g = [0..?n - 1]"
    proof (rule nth_equalityI)
      fix k assume "k < length (block g)"
      then have k: "int k \<in> {0..<?n}" unfolding len by auto
      then show "block g ! k = [0..?n - 1] ! k" using bspec [OF all k] by (simp add: nth_upto)
    qed (simp add: len)
  next
    assume b: "block g = [0..?n - 1]"
    show "\<forall>i \<in> {0..<?n}. block g ! nat i = i" unfolding b by (auto simp: nth_upto)
  qed
  finally show ?thesis using check_valid_identity [OF inv] by simp
qed

interpretation game_machine: simulation key_press game_inv pz_step abs_game
proof
  show "game_inv t" if inv: "game_inv s" and step: "key_press s e t" for s e t
    using react_inv [OF inv, of e] step by (auto simp: key_press_iff)
  show "pz_step (abs_game s) e (abs_game t)" if inv: "game_inv s" and step: "key_press s e t" for s e t
  proof -
    have "\<not> pz_solved (abs_game s)" "abs_game t = pz_move (move_of e) (abs_game s)"
      using step abs_solved [OF inv] abs_react [OF inv] by (simp_all add: key_press_iff)
    then show ?thesis using pz_step by simp
  qed
qed

lemma abs_start:
  assumes "100 \<le> pic_w" and "100 \<le> pic_h"
  shows "abs_game (game_start pic pic_w pic_h) = pz_start (pic_w div 100) (pic_h div 100)"
proof -
  let ?g = "game_start pic pic_w pic_h" and ?h = "pic_w div 100" and ?v = "pic_h div 100"
  have sizes: "nr_block_h ?g = ?h" "nr_block_v ?g = ?v" using game_start_idle(2,3) [OF assms] by simp_all
  have parts: "block_x ?g = 0" "block_y ?g = 0" "select ?g = GAME_SEL_NONE"
    by (simp_all add: game_start_def Let_def)
  have blocks: "block ?g = map (\<lambda>i. ?h * ?v - 1 - i) [0..?h * ?v - 1]"
    using sizes by (simp add: game_start_def Let_def)
  have "block ?g ! nat (cell_nr ?h c) = ?h * ?v - 1 - cell_nr ?h c" if "c \<in> board ?h ?v" for c
    using cell_nr_bound [OF that] unfolding blocks by (simp add: nth_upto nat_less_iff)
  then show ?thesis by (simp add: abs_game_def pz_start_def sizes parts fun_eq_iff)
qed

section \<open>Properties\<close>

text \<open>C27: what the game does, exactly. The main loop returns with a board and a device state if and
  only if the keyboard delivers a sequence of scan codes that leads there, every one of them
  pressed while the puzzle is still unsolved, the board at the end being solved.\<close>

theorem game_mainloop_iff_play:
  "(\<exists>vs'. game_mainloop dv pic pic_w pic_h vs d = Some (Inr (g, vs', d')))
    \<longleftrightarrow> (\<exists>cs. reads_keys dv d cs d' \<and> trace key_press (game_start pic pic_w pic_h) cs g \<and> check_valid g)"
proof
  assume "\<exists>vs'. game_mainloop dv pic pic_w pic_h vs d = Some (Inr (g, vs', d'))"
  then obtain vs1 where "game_loop dv (game_start pic pic_w pic_h) vs d = Some (Inr (g, vs1, d'))"
    by (auto simp: game_mainloop_def Let_def split: option.splits sum.splits)
  from game_loop_traces [OF this]
  show "\<exists>cs. reads_keys dv d cs d' \<and> trace key_press (game_start pic pic_w pic_h) cs g \<and> check_valid g" by simp
next
  assume "\<exists>cs. reads_keys dv d cs d' \<and> trace key_press (game_start pic pic_w pic_h) cs g \<and> check_valid g"
  then obtain cs where cs: "reads_keys dv d cs d'" "trace key_press (game_start pic pic_w pic_h) cs g" "check_valid g" by blast
  obtain vs1 where "game_loop dv (game_start pic pic_w pic_h) vs d = Some (Inr (g, vs1, d'))"
    using traces_game_loop [OF cs, of vs] by (elim exE)
  then show "\<exists>vs'. game_mainloop dv pic pic_w pic_h vs d = Some (Inr (g, vs', d'))"
    by (simp add: game_mainloop_def Let_def)
qed

text \<open>C16: the game implements the abstract puzzle. A run of the main loop that returns has not
  faulted; the keys it has read are a run of the puzzle from the reversed board, with moves of
  the cursor on a torus, picks and exchanges of two cells; and the puzzle is solved at its end
  and not before.\<close>

theorem game_refines_puzzle:
  assumes "100 \<le> pic_w" and "100 \<le> pic_h" and "game_mainloop dv pic pic_w pic_h vs d = Some r"
  shows "\<exists>g vs' d' cs. r = Inr (g, vs', d') \<and> reads_keys dv d cs d'
    \<and> trace pz_step (pz_start (pic_w div 100) (pic_h div 100)) cs (abs_game g) \<and> pz_solved (abs_game g)"
proof -
  let ?g = "game_start pic pic_w pic_h"
  have inv: "game_inv ?g" using game_start_idle(1) [OF assms(1,2)] by (simp add: idle_game_def)
  obtain g vs' d' where r: "r = Inr (g, vs', d')" using game_mainloop_returns [OF assms] by blast
  then obtain vs1 where "game_loop dv ?g vs d = Some (Inr (g, vs1, d'))"
    using assms(3) by (auto simp: game_mainloop_def Let_def split: option.splits sum.splits)
  from game_loop_traces [OF this] obtain cs where
    cs: "reads_keys dv d cs d'" "trace key_press ?g cs g" "check_valid g" by auto
  have "trace pz_step (pz_start (pic_w div 100) (pic_h div 100)) cs (abs_game g)"
    using game_machine.refines [OF cs(2) inv] unfolding abs_start [OF assms(1,2)] .
  moreover have "pz_solved (abs_game g)"
    using abs_solved [OF game_machine.kept [OF cs(2) inv]] cs(3) by simp
  ultimately show ?thesis using r cs(1) by blast
qed

theorem game_refines_puzzle_witness:
  "\<exists>bs d' cs p. reads_keys byte_source bs cs d' \<and> trace pz_step (pz_start 3 2) cs p \<and> pz_solved p"
proof -
  obtain bs g vs' d' where "game_mainloop byte_source 0x200000 300 200 vga bs = Some (Inr (g, vs', d'))"
    using game_example by blast
  from game_refines_puzzle [OF _ _ this] show ?thesis by fastforce
qed

end
