(* ===== verification/KernelPanic.thy ===== *)
theory KernelPanic
  imports KernelMain
begin

text \<open>
  How \<open>main\<close> of \<open>kernel/main.c\<close> ends when memory runs out: which component stops, with which fault, and
  what the serial line has carried by then, the line of \<open>panic\<close> included.
\<close>

section \<open>The components\<close>

lemma panic_stops:
  assumes uart: "uart_open dv sent ctl d" and im: "\<forall>t \<in> set main_strings. in_image b m lit t" and same: "image_kept b m m'"
  shows "\<exists>d'. stop dv lit m' (Panic no_free_page) d = Some (Inl (Panic no_free_page, d'))
    \<and> sent d' = sent d @ map chr (panic_text no_free_page)"
proof -
  have p: "placed m' lit t" if "t \<in> set main_strings" for t
    using im that in_image_placed [OF _ same [unfolded image_kept_def]] by blast
  have "lits_ok UNIV m' lit"
    using p unfolding lits_ok_def placed_def by (simp add: main_strings_def)
  from halt_sends [OF uart this p p p, of "''kernel/page.c''" "''alloc_page''" "''No free page!''" 160]
  show ?thesis
    by (auto simp: main_strings_def plain_def chr_def no_free_page_def stop_def)
qed

text \<open>A component that stops first sends the lines it has logged.\<close>

lemma flush_then_panic:
  assumes uart: "uart_open dv sent ctl d" and im: "\<forall>t \<in> set main_strings. in_image b m lit t" and same: "image_kept b m (vmemory (mv mc))"
    and cs: "klog (kern (mv mc)) = cs" "\<forall>c \<in> set cs. known c"
  shows "\<exists>d'. and_then (flush_log dv lit mc d) (\<lambda>(mc, d). stop dv lit (vmemory (mv mc)) (Panic no_free_page) d)
      = Some (Inl (Panic no_free_page, d')) \<and> sent d' = sent d @ map chr (log_text cs @ panic_text no_free_page)"
proof -
  obtain d1 where f: "flush_log dv lit mc d = Some (Inr (set_kern ((kern (mv mc))\<lparr>klog := []\<rparr>) mc, d1))"
    "sent d1 = sent d @ map chr (log_text cs)" "ctl d1 = ctl d"
    using flush_log_sends [OF assms] by blast
  have "image_kept b m (vmemory (mv (set_kern ((kern (mv mc))\<lparr>klog := []\<rparr>) mc)))" using same by simp
  from panic_stops [OF uart_open_kept [OF uart f(3)] im this] show ?thesis unfolding f(1) using f(2) by auto
qed

lemma flush_then_fault:
  assumes uart: "uart_open dv sent ctl d" and im: "\<forall>t \<in> set main_strings. in_image b m lit t" and same: "image_kept b m (vmemory (mv mc))"
    and cs: "klog (kern (mv mc)) = cs" "\<forall>c \<in> set cs. known c"
  shows "\<exists>d'. and_then (flush_log dv lit mc d) (\<lambda>(mc, d). stop dv lit (vmemory (mv mc)) OutOfBounds d)
      = Some (Inl (OutOfBounds, d')) \<and> sent d' = sent d @ map chr (log_text cs)"
  using flush_log_sends [OF assms] by (auto simp: stop_def)

lemma run_init_page_stops:
  assumes uart: "uart_open dv sent ctl d" and im: "\<forall>t \<in> set main_strings. in_image b (vmemory (mv mc)) lit t"
    and log0: "klog (kern (mv mc)) = []" and b: "unat b \<le> unat (sym_end sy)" and fit: "unat (sym_end sy) \<le> 4294963200"
    and nr: "nr = (unat (sym_end sy) + 4095) div 4096"
  shows "NR_PAGES \<le> nr \<Longrightarrow> \<exists>d'. run_init_page dv lit sy mc d = Some (Inl (OutOfBounds, d'))
      \<and> sent d' = sent d @ map chr (log_text (take 5 (init_page_log (sym_start sy) (sym_etext sy) (sym_end sy))))"
    and "nr < NR_PAGES \<Longrightarrow> NR_PAGES < tables_end sy \<Longrightarrow> \<exists>d'. run_init_page dv lit sy mc d = Some (Inl (Panic no_free_page, d'))
      \<and> sent d' = sent d @ map chr (log_text (init_page_log (sym_start sy) (sym_etext sy) (sym_end sy)) @ panic_text no_free_page)"
proof -
  note fails = init_page_fails [OF nr fit, of "sym_start sy" "sym_etext sy" "kern (mv mc)", unfolded log0 append_Nil]
  let ?log = "init_page_log (sym_start sy) (sym_etext sy) (sym_end sy)"
  assume "NR_PAGES \<le> nr"
  from fails(1) [OF this] obtain ks where ks: "init_page (sym_start sy) (sym_etext sy) (sym_end sy) (kern (mv mc)) = Inl (OutOfBounds, ks)"
    "klog ks = take 5 ?log" "kmem ks = vmemory (mv mc)" by blast
  have "\<forall>c \<in> set (take 5 ?log). known c" using known_calls(1) by (blast dest: in_set_takeD)
  from flush_then_fault [OF uart im, of "set_kern ks mc", unfolded set_kern_simps, OF _ ks(2) this] ks(3)
  show "\<exists>d'. run_init_page dv lit sy mc d = Some (Inl (OutOfBounds, d')) \<and> sent d' = sent d @ map chr (log_text (take 5 ?log))"
    by (simp add: run_init_page_def ks(1) image_kept_refl)
next
  note fails = init_page_fails [OF nr fit, of "sym_start sy" "sym_etext sy" "kern (mv mc)", unfolded log0 append_Nil]
  let ?log = "init_page_log (sym_start sy) (sym_etext sy) (sym_end sy)"
  assume a: "nr < NR_PAGES" "NR_PAGES < tables_end sy"
  from fails(2) [OF a(1)] a(2) obtain ks where
    ks: "init_page (sym_start sy) (sym_etext sy) (sym_end sy) (kern (mv mc)) = Inl (Panic no_free_page, ks)" "klog ks = ?log"
    and mem: "\<forall>a. unat a < nr * 4096 \<longrightarrow> kmem ks a = vmemory (mv mc) a"
    unfolding tables_end_def nr [symmetric] by blast
  have "unat b \<le> nr * 4096" using b unfolding nr by linarith
  then have "image_kept b (vmemory (mv mc)) (kmem ks)"
    using mem unfolding image_kept_def by (meson less_le_trans)
  from flush_then_panic [OF uart im, of "set_kern ks mc", unfolded set_kern_simps, OF this ks(2) known_calls(1)]
  show "\<exists>d'. run_init_page dv lit sy mc d = Some (Inl (Panic no_free_page, d'))
      \<and> sent d' = sent d @ map chr (log_text ?log @ panic_text no_free_page)"
    by (simp add: run_init_page_def ks(1))
qed

lemma run_init_video_stops:
  assumes uart: "uart_open dv sent ctl d" and im: "\<forall>t \<in> set main_strings. in_image b m lit t"
    and kept: "image_kept (sym_end sy) m (vmemory (mv mc))" and b: "unat b \<le> unat (sym_end sy)"
    and log0: "klog (kern (mv mc)) = []" and mi: "mi = ModeInfoBlock_at (vmemory (mv mc)) 0xf000"
    and dir: "unat (kpgdir (kern (mv mc))) = nr * 4096" "unat (sym_end sy) \<le> nr * 4096" "nr \<le> t"
    and inv: "pages_inv (kpages (kern (mv mc))) [t..<NR_PAGES]"
    and tok: "tables_ok (vmemory (mv mc)) (kpgdir (kern (mv mc))) [t..<NR_PAGES]"
    and fb: "unat (physbase mi) mod 4194304 = 0" "sz = of_nat (unat (Yres mi) * unat (pitch mi))"
    and full: "t \<le> NR_PAGES" "NR_PAGES < t + (Suc (unat (PDX (physbase mi + sz))) - unat (PDX (physbase mi)))"
  shows "\<exists>d'. run_init_video dv lit mc d = Some (Inl (Panic no_free_page, d'))
    \<and> sent d' = sent d @ map chr (log_text (init_video_log mi sz) @ panic_text no_free_page)"
proof -
  have len: "length [t..<NR_PAGES] < Suc (unat (PDX (physbase mi + sz))) - unat (PDX (physbase mi))"
    using full unfolding length_upt by linarith
  obtain vs where iv: "init_video (mv mc) = Inl (Panic no_free_page, vs)" "klog (kern vs) = init_video_log mi sz"
    and out: "\<forall>a. unat a div 4096 \<in> insert (unat (kpgdir (kern (mv mc))) div 4096) (set [t..<NR_PAGES]) \<or> vmemory vs a = vmemory (mv mc) a"
    using init_video_panics [OF mi inv tok fb len] unfolding log0 by auto
  have "vmemory vs a = m a" if a: "unat a < unat b" for a
  proof -
    have "unat a < unat (sym_end sy)" using a b by linarith
    moreover from this have "unat a div 4096 < nr" using dir(2) by (metis less_le_trans less_mult_imp_div_less)
    then have "vmemory vs a = vmemory (mv mc) a" using out [rule_format, of a] dir(1,3) by auto
    ultimately show ?thesis using kept by (simp add: image_kept_def)
  qed
  then have "image_kept b m (vmemory (mv (mc\<lparr>mv := vs\<rparr>)))" by (simp add: image_kept_def)
  from flush_then_panic [OF uart im this, of "init_video_log mi sz"] iv(2) known_calls(2)
  show ?thesis by (simp add: run_init_video_def iv(1))
qed

lemma run_test_page_stops:
  assumes uart: "uart_open dv sent ctl d" and im: "\<forall>t \<in> set main_strings. in_image b m lit t"
    and kept: "image_kept b m (vmemory (mv mc))" and log0: "klog (kern (mv mc)) = []"
    and inv: "pages_inv (kpages (kern (mv mc))) [t..<NR_PAGES]"
  shows "NR_PAGES < t + 255 \<Longrightarrow> \<exists>d'. run_test_page dv lit mc d = Some (Inl (Panic no_free_page, d'))
      \<and> sent d' = sent d @ map chr (panic_text no_free_page)"
    and "t + 255 \<le> NR_PAGES \<Longrightarrow> NR_PAGES < t + 270 \<Longrightarrow> \<exists>d'. run_test_page dv lit mc d = Some (Inl (OutOfBounds, d'))
      \<and> sent d' = sent d @ map chr (log_text (map (\<lambda>i. LogExpr ''kernel/page.c'' ''test_page'' 204 ''page->frame'' (of_nat i)) [t + 255..<NR_PAGES]))"
proof -
  let ?log = "LogExpr ''kernel/page.c'' ''test_page'' 204 ''page->frame'' :: u32 \<Rightarrow> log_call"
  have mem: "image_kept b m (vmemory (mv (set_kern (fold (log_expr fl fn l ex) xs (kern (mv mc))) mc)))"
    and lg: "klog (kern (mv (set_kern (fold (log_expr fl fn l ex) xs (kern (mv mc))) mc))) = map (LogExpr fl fn l ex) xs" for fl fn l ex xs
    using kept by (simp_all add: log_exprs log0)
  have known: "\<forall>c \<in> set (map ?log xs). known c" for xs using known_calls(3) by auto
  {
    assume "NR_PAGES < t + 255"
    then have "length [t..<NR_PAGES] < 255" unfolding length_upt by linarith
    from test_page_fails(1) [OF inv this] flush_then_panic [OF uart im mem lg known, of "[]"]
    show "\<exists>d'. run_test_page dv lit mc d = Some (Inl (Panic no_free_page, d')) \<and> sent d' = sent d @ map chr (panic_text no_free_page)"
      by (simp add: run_test_page_def)
  next
    assume short: "t + 255 \<le> NR_PAGES" "NR_PAGES < t + 270"
    then have len: "255 \<le> length [t..<NR_PAGES]" "length [t..<NR_PAGES] < 270" unfolding length_upt by linarith+
    have rest: "map of_nat (drop 255 [t..<NR_PAGES]) = (map of_nat [t + 255..<NR_PAGES] :: u32 list)"
      by (simp only: drop_upt)
    have "map ?log (map of_nat [t + 255..<NR_PAGES]) = map (\<lambda>i. ?log (of_nat i)) [t + 255..<NR_PAGES]"
      by (simp only: map_map comp_def)
    with flush_then_fault [OF uart im mem lg known, of "map of_nat [t + 255..<NR_PAGES]"]
    show "\<exists>d'. run_test_page dv lit mc d = Some (Inl (OutOfBounds, d'))
      \<and> sent d' = sent d @ map chr (log_text (map (\<lambda>i. ?log (of_nat i)) [t + 255..<NR_PAGES]))"
      unfolding run_test_page_def Let_def test_page_fails(2) [OF inv len] rest sum.case prod.case by (simp only:)
  }
qed


section \<open>The whole of \<open>main\<close>\<close>

text \<open>How it ends when the 32768 pages of the pool do not suffice: a kernel image that fills the pool
  makes \<open>init_page\<close> write behind \<open>page_pool\<close>; later the allocator panics, in \<open>init_page\<close>, in
  \<open>init_video\<close> or in the self test; and with 255 to 269 frames left for it the self test walks off the end
  of its list, when it has logged the frames that are left behind its 255. (Following the null link
  is undefined in C; the model stops there.)\<close>

definition memory_fault :: "symbols \<Rightarrow> nat \<Rightarrow> fault" where
  "memory_fault sy nt = (if (unat (sym_end sy) + 4095) div 4096 < NR_PAGES \<and> NR_PAGES < tables_end sy + nt + 255
     then Panic no_free_page else OutOfBounds)"

text \<open>The lines that are on the serial line by then.\<close>

definition short_log :: "symbols \<Rightarrow> ModeInfoBlock \<Rightarrow> u32 \<Rightarrow> nat \<Rightarrow> log_call list" where
  "short_log sy mi sz nt = [LogLine ''kernel/main.c'' ''main'' 19 ''Hello World :-)'']
     @ (if (unat (sym_end sy) + 4095) div 4096 < NR_PAGES then init_page_log (sym_start sy) (sym_etext sy) (sym_end sy)
        else take 5 (init_page_log (sym_start sy) (sym_etext sy) (sym_end sy)))
     @ (if tables_end sy \<le> NR_PAGES then init_video_log mi sz else [])
     @ map (\<lambda>i. LogExpr ''kernel/page.c'' ''test_page'' 204 ''page->frame'' (of_nat i)) [tables_end sy + nt + 255..<NR_PAGES]"

definition last_words :: "fault \<Rightarrow> string" where
  "last_words e = (case e of Panic c \<Rightarrow> panic_text c | OutOfBounds \<Rightarrow> [])"

lemma main_rest_stops:
  assumes uart: "uart_open dv sent ctl d" and quiet: "pic_quiet dv sent ctl" and im: "\<forall>t \<in> set main_strings. in_image b m lit t"
    and kept: "image_kept b m (vmemory (mv mc))" and log0: "klog (kern (mv mc)) = []" and tabs: "kernel_tables sy mc"
    and inv: "pages_inv (kpages (kern (mv mc))) [t..<NR_PAGES]" and full: "NR_PAGES < t + 270"
  shows "\<exists>d'. main_rest dv lit sy mc d = Some (Inl (if NR_PAGES < t + 255 then Panic no_free_page else OutOfBounds, d'))
    \<and> sent d' = sent d @ map chr (log_text (map (\<lambda>i. LogExpr ''kernel/page.c'' ''test_page'' 204 ''page->frame'' (of_nat i)) [t + 255..<NR_PAGES])
        @ (if NR_PAGES < t + 255 then panic_text no_free_page else []))"
proof -
  let ?mc = "clobber sy (r_esp (mregs mc) - 20) (mc\<lparr>mif := True\<rparr>)"
  have mc: "mv ?mc = mv mc" by simp
  have "kernel_tables sy (mc\<lparr>mif := True\<rparr>)" using tabs by (simp add: kernel_tables_def)
  from int_n_returns [OF this, of 0] have int0: "int_n sy 0 (mc\<lparr>mif := True\<rparr>) = Some ?mc" by simp
  have q: "sent (init_i8259_pic dv d) = sent d" "ctl (init_i8259_pic dv d) = ctl d" using quiet by (simp_all add: pic_quiet_def)
  have run: "main_rest dv lit sy mc d = and_then (run_test_page dv lit ?mc (init_i8259_pic dv d)) (\<lambda>(mc, d).
      and_then (at_dev d (LOG dv lit (vmemory (mv mc)) ''kernel/main.c'' ''main'' 34 ''Game start'' [] d)) (\<lambda>(n, d).
      Some (Inr (mc, d))))"
    unfolding main_rest_def Let_def int0 by simp
  note stops = run_test_page_stops [OF uart_open_kept [OF uart q(2)] im, of ?mc, unfolded mc q(1), OF kept log0 inv]
  show ?thesis
  proof (cases "NR_PAGES < t + 255")
    case True
    then have "[t + 255..<NR_PAGES] = []" by simp
    then show ?thesis using stops(1) True unfolding run by auto
  next
    case False
    then show ?thesis using stops(2) full unfolding run by auto
  qed
qed

lemma main_stops_early:
  assumes uart: "uart_laws dv sent ctl" and ok: "boot_image lit sy mc mi sz nt" and full: "NR_PAGES < tables_end sy"
  shows "\<exists>d'. main_init dv lit sy mc d = Some (Inl (memory_fault sy nt, d'))
    \<and> sent d' = sent (init_serial dv d) @ map chr (log_text (short_log sy mi sz nt) @ last_words (memory_fault sy nt))"
proof -
  let ?b = "vmem_buffer (mv mc)" and ?nr = "(unat (sym_end sy) + 4095) div 4096"
  let ?mc1 = "mc\<lparr>mseg := init_gdt (sym_gdt sy) (sym_tss sy) (mseg mc), midt := init_idt (sym_entry sy) (sym_idt sy) (midt mc)\<rparr>"
  have im: "\<forall>t \<in> set main_strings. in_image ?b (vmemory (mv mc)) lit t"
    and log0: "klog (kern (mv mc)) = []" and buf: "unat ?b + VBUF_SIZE \<le> unat (sym_end sy)"
    and fb: "unat (sym_end sy) \<le> unat (physbase mi)" "unat (physbase mi) + VBUF_SIZE \<le> 4294967296"
    using ok unfolding boot_image_def Let_def by - (elim conjE, assumption)+
  have b: "unat ?b \<le> unat (sym_end sy)" using buf by simp
  have fit: "unat (sym_end sy) \<le> 4294963200" using fb unfolding VBUF_SIZE_def by simp
  have mc1: "mv ?mc1 = mv mc" by simp
  obtain d1 where m: "main_init dv lit sy mc d = and_then (run_init_page dv lit sy ?mc1 d1) (\<lambda>(mc, d).
      and_then (run_init_video dv lit mc d) (\<lambda>(mc, d). main_rest dv lit sy mc d))"
    "sent d1 = sent (init_serial dv d) @ map chr (line_text ''kernel/main.c'' ''main'' 19 ''Hello World :-)'')"
    and uart1: "uart_open dv sent ctl d1"
    by (rule main_hello [OF uart ok, of d]) (rule that)
  have none: "[tables_end sy + nt + 255..<NR_PAGES] = []" using full by simp
  note stops = run_init_page_stops [OF uart1, of ?b ?mc1 lit sy, unfolded mc1, OF im log0 b fit refl]
  show ?thesis
  proof (cases "NR_PAGES \<le> ?nr")
    case True
    with stops(1) obtain d2 where "run_init_page dv lit sy ?mc1 d1 = Some (Inl (OutOfBounds, d2))"
      "sent d2 = sent d1 @ map chr (log_text (take 5 (init_page_log (sym_start sy) (sym_etext sy) (sym_end sy))))" by blast
    then show ?thesis using True full m by (simp add: memory_fault_def short_log_def last_words_def none)
  next
    case False
    then have nr: "?nr < NR_PAGES" by simp
    from stops(2) [OF this full] obtain d2 where "run_init_page dv lit sy ?mc1 d1 = Some (Inl (Panic no_free_page, d2))"
      "sent d2 = sent d1 @ map chr (log_text (init_page_log (sym_start sy) (sym_etext sy) (sym_end sy)) @ panic_text no_free_page)" by blast
    then show ?thesis using nr full m by (simp add: memory_fault_def short_log_def last_words_def none)
  qed
qed

lemma main_stops_at_video:
  assumes uart: "uart_laws dv sent ctl" and ok: "boot_image lit sy mc mi sz nt"
    and full: "tables_end sy \<le> NR_PAGES" "NR_PAGES < tables_end sy + nt"
  shows "\<exists>d'. main_init dv lit sy mc d = Some (Inl (memory_fault sy nt, d'))
    \<and> sent d' = sent (init_serial dv d) @ map chr (log_text (short_log sy mi sz nt) @ last_words (memory_fault sy nt))"
proof -
  let ?b = "vmem_buffer (mv mc)" and ?nr = "(unat (sym_end sy) + 4095) div 4096" and ?t = "tables_end sy"
  have im: "\<forall>t \<in> set main_strings. in_image ?b (vmemory (mv mc)) lit t" and buf: "unat ?b + VBUF_SIZE \<le> unat (sym_end sy)"
    and fb: "unat (physbase mi) mod 4194304 = 0" "sz = of_nat (unat (Yres mi) * unat (pitch mi))"
    and nt: "nt = Suc (unat (PDX (physbase mi + sz))) - unat (PDX (physbase mi))"
    using ok unfolding boot_image_def Let_def by - (elim conjE, assumption)+
  have b: "unat ?b \<le> unat (sym_end sy)" using buf by simp
  obtain mc2 d2 where m: "main_init dv lit sy mc d = and_then (run_init_video dv lit mc2 d2) (\<lambda>(mc, d). main_rest dv lit sy mc d)"
    and kst: "unat (kpgdir (kern (mv mc2))) = ?nr * 4096" "klog (kern (mv mc2)) = []" "pages_inv (kpages (kern (mv mc2))) [?t..<NR_PAGES]"
      "tables_ok (vmemory (mv mc2)) (kpgdir (kern (mv mc2))) [?t..<NR_PAGES]"
    and kept: "image_kept (sym_end sy) (vmemory (mv mc)) (vmemory (mv mc2))" and mi2: "mi = ModeInfoBlock_at (vmemory (mv mc2)) 0xf000"
    and d2: "sent d2 = sent (init_serial dv d) @ map chr (log_text
        (LogLine ''kernel/main.c'' ''main'' 19 ''Hello World :-)'' # init_page_log (sym_start sy) (sym_etext sy) (sym_end sy)))"
    and uart2: "uart_open dv sent ctl d2"
    by (rule main_to_video [OF uart ok full(1), of d]) (rule that)
  have nrt: "unat (sym_end sy) \<le> ?nr * 4096" "?nr \<le> ?t" "?nr < NR_PAGES" using full(1) unfolding tables_end_def by linarith+
  obtain d3 where v: "run_init_video dv lit mc2 d2 = Some (Inl (Panic no_free_page, d3))"
    "sent d3 = sent d2 @ map chr (log_text (init_video_log mi sz) @ panic_text no_free_page)"
    using run_init_video_stops [OF uart2 im kept b kst(2) mi2 kst(1) nrt(1,2) kst(3,4) fb full(1) full(2) [unfolded nt]] by blast
  have none: "[tables_end sy + nt + 255..<NR_PAGES] = []" using full(2) by simp
  show ?thesis using m v d2 nrt(3) full by (simp add: memory_fault_def short_log_def last_words_def none)
qed

section \<open>The property\<close>

text \<open>C3: \<open>main\<close> on a machine that satisfies \<open>boot_image\<close> but whose kernel and tables leave fewer than 270
  of the pool's frames: \<open>main\<close> does not reach the game. It stops with the fault that the sizes decide, a
  panic of the allocator or an access out of bounds (behind the page pool, or through the null link at
  the end of the free list, which is undefined in C and where the model stops),
  and by then the serial line has carried exactly the lines of what had been done, in order: with 255 to
  269 frames left for the self test these include the lines of the frames that it walks over before the
  null link; where the fault is a panic, the allocator's panic line is the last.\<close>

theorem main_stops:
  assumes "uart_laws dv sent ctl" and "pic_quiet dv sent ctl" and "boot_image lit sy mc mi sz nt"
    and "NR_PAGES < tables_end sy + nt + 270"
  shows "\<exists>d'. main_init dv lit sy mc d = Some (Inl (memory_fault sy nt, d'))
    \<and> sent d' = sent (init_serial dv d) @ map chr (log_text (short_log sy mi sz nt) @ last_words (memory_fault sy nt))"
proof (cases "tables_end sy + nt \<le> NR_PAGES")
  case True
  have im: "\<forall>t \<in> set main_strings. in_image (vmem_buffer (mv mc)) (vmemory (mv mc)) lit t"
    and buf: "unat (vmem_buffer (mv mc)) + VBUF_SIZE \<le> unat (sym_end sy)" and idt: "length (idt (midt mc)) = 48" "length (gdt (mseg mc)) = NR_GDT"
    using assms(3) unfolding boot_image_def Let_def by - (elim conjE, assumption)+
  obtain mc3 d3 where m: "main_init dv lit sy mc d = main_rest dv lit sy mc3 d3"
    and seg: "mseg mc3 = init_gdt (sym_gdt sy) (sym_tss sy) (mseg mc)" "midt mc3 = init_idt (sym_entry sy) (sym_idt sy) (midt mc)"
    and log0: "klog (kern (mv mc3)) = []"
    and st: "pages_inv (kpages (kern (mv mc3))) [tables_end sy + nt..<NR_PAGES]"
      "image_kept (sym_end sy) (vmemory (mv mc)) (vmemory (mv mc3))"
    and d3: "sent d3 = sent (init_serial dv d) @ map chr (log_text
        (LogLine ''kernel/main.c'' ''main'' 19 ''Hello World :-)'' # init_page_log (sym_start sy) (sym_etext sy) (sym_end sy) @ init_video_log mi sz))"
    and uart3: "uart_open dv sent ctl d3"
    by (rule main_past_video [OF assms(1,3) True, of d]) (rule that)
  have kept: "image_kept (vmem_buffer (mv mc)) (vmemory (mv mc)) (vmemory (mv mc3))"
    using image_kept_low [OF st(2)] buf by simp
  have tabs: "kernel_tables sy mc3" using seg idt unfolding kernel_tables_def by blast
  have nr: "(unat (sym_end sy) + 4095) div 4096 < NR_PAGES" "tables_end sy \<le> NR_PAGES" using True unfolding tables_end_def by linarith+
  show ?thesis
    using main_rest_stops [OF uart3 assms(2) im kept log0 tabs st(1) assms(4)] d3 nr
    unfolding m memory_fault_def short_log_def last_words_def by (auto simp del: upt_rec_numeral)
next
  case False
  then show ?thesis using main_stops_early [OF assms(1,3), of d] main_stops_at_video [OF assms(1,3), of d]
    by (cases "tables_end sy \<le> NR_PAGES") simp_all
qed


text \<open>The machine of \<open>main_boots\<close> with a larger kernel.\<close>

definition big_symbols :: "u32 \<Rightarrow> symbols" where
  "big_symbols e = idle_symbols\<lparr>sym_end := e\<rparr>"

lemma pc_boot_image:
  assumes "unat (0x4A1234 :: u32) \<le> unat e" "unat e \<le> unat (0xFD000000 :: u32)"
  shows "boot_image (str_slot main_strings) (big_symbols e) pc_machine (ModeInfoBlock_at pc_mem 0xf000) 1440000 1"
proof -
  have "sym_end (big_symbols e) = e" by (simp add: big_symbols_def)
  then show ?thesis using assms
    unfolding boot_image_def Let_def pc_machine_parts pc_mode vga_mode_fits(2) [OF pc_mode(1-3)]
    using pc_string vga_mode_fits(1) [OF pc_mode(1-3)] by (simp add: VBUF_SIZE_def)
qed

lemma big_fields:
  "sym_end (big_symbols e) = e" "sym_start (big_symbols e) = 0x100000" "sym_etext (big_symbols e) = 0x108000"
  by (simp_all add: big_symbols_def idle_symbols_def)

lemma big_tables:
  "tables_end (big_symbols 0x7FDE000) = 32767" "tables_end (big_symbols 0x7EDD000) = 32510" "tables_end (big_symbols 0x8000001) = 32803"
  by (simp_all add: tables_end_def big_fields)

lemma big_faults:
  "memory_fault (big_symbols 0x7FDE000) 1 = Panic no_free_page" "memory_fault (big_symbols 0x7EDD000) 1 = OutOfBounds"
  "memory_fault (big_symbols 0x8000001) 1 = OutOfBounds"
  by (simp_all add: memory_fault_def big_tables big_fields NR_PAGES_def)

lemma big_logs:
  "short_log (big_symbols 0x7FDE000) mi sz 1 = LogLine ''kernel/main.c'' ''main'' 19 ''Hello World :-)''
      # init_page_log 0x100000 0x108000 0x7FDE000 @ init_video_log mi sz"
  "short_log (big_symbols 0x7EDD000) mi sz 1 = LogLine ''kernel/main.c'' ''main'' 19 ''Hello World :-)''
      # init_page_log 0x100000 0x108000 0x7EDD000 @ init_video_log mi sz
      @ [LogExpr ''kernel/page.c'' ''test_page'' 204 ''page->frame'' 0x7FFE, LogExpr ''kernel/page.c'' ''test_page'' 204 ''page->frame'' 0x7FFF]"
  "short_log (big_symbols 0x8000001) mi sz 1 = LogLine ''kernel/main.c'' ''main'' 19 ''Hello World :-)''
      # take 5 (init_page_log 0x100000 0x108000 0x8000001)"
  by (simp_all add: short_log_def big_tables big_fields NR_PAGES_def)

text \<open>A kernel that leaves the self test no frame panics; one that leaves it 257 frames logs the last two before
  the null link; one that ends behind 128 MB stops in \<open>init_page\<close>.\<close>

theorem main_stops_witness:
  "(\<exists>d'. main_init sim_pc (str_slot main_strings) (big_symbols 0x7FDE000) pc_machine (pc_start []) = Some (Inl (Panic no_free_page, d'))
      \<and> pc_sent d' = map chr (log_text (LogLine ''kernel/main.c'' ''main'' 19 ''Hello World :-)''
          # init_page_log 0x100000 0x108000 0x7FDE000 @ init_video_log (ModeInfoBlock_at pc_mem 0xf000) 1440000)
          @ PANIC_COLOR @ ''[kernel/page.c#alloc_page:160] No free page!'' @ END_COLOR @ [CHR 0x0A]))
    \<and> (\<exists>d'. main_init sim_pc (str_slot main_strings) (big_symbols 0x7EDD000) pc_machine (pc_start []) = Some (Inl (OutOfBounds, d'))
      \<and> pc_sent d' = map chr (log_text (LogLine ''kernel/main.c'' ''main'' 19 ''Hello World :-)''
          # init_page_log 0x100000 0x108000 0x7EDD000 @ init_video_log (ModeInfoBlock_at pc_mem 0xf000) 1440000
          @ [LogExpr ''kernel/page.c'' ''test_page'' 204 ''page->frame'' 0x7FFE,
             LogExpr ''kernel/page.c'' ''test_page'' 204 ''page->frame'' 0x7FFF])))
    \<and> (\<exists>d'. main_init sim_pc (str_slot main_strings) (big_symbols 0x8000001) pc_machine (pc_start []) = Some (Inl (OutOfBounds, d'))
      \<and> pc_sent d' = map chr (log_text (LogLine ''kernel/main.c'' ''main'' 19 ''Hello World :-)''
          # take 5 (init_page_log 0x100000 0x108000 0x8000001))))"
proof (intro conjI)
  have w: "last_words (Panic no_free_page)
      = PANIC_COLOR @ ''[kernel/page.c#alloc_page:160] No free page!'' @ END_COLOR @ [CHR 0x0A]"
    "last_words OutOfBounds = []"
    by (simp_all add: last_words_def panic_text_def no_free_page_def dec_text_def digits_ge digits_lt dchar_def)
  note stops = main_stops [OF pc_uart_laws sim_pc_pic pc_boot_image, of _ "pc_start []", unfolded pc_serial append_Nil]
  show "\<exists>d'. main_init sim_pc (str_slot main_strings) (big_symbols 0x7FDE000) pc_machine (pc_start []) = Some (Inl (Panic no_free_page, d'))
      \<and> pc_sent d' = map chr (log_text (LogLine ''kernel/main.c'' ''main'' 19 ''Hello World :-)''
          # init_page_log 0x100000 0x108000 0x7FDE000 @ init_video_log (ModeInfoBlock_at pc_mem 0xf000) 1440000)
          @ PANIC_COLOR @ ''[kernel/page.c#alloc_page:160] No free page!'' @ END_COLOR @ [CHR 0x0A])"
    using stops [of "0x7FDE000", unfolded big_faults big_logs big_tables w] by (simp only: NR_PAGES_def) simp
  show "\<exists>d'. main_init sim_pc (str_slot main_strings) (big_symbols 0x7EDD000) pc_machine (pc_start []) = Some (Inl (OutOfBounds, d'))
      \<and> pc_sent d' = map chr (log_text (LogLine ''kernel/main.c'' ''main'' 19 ''Hello World :-)''
          # init_page_log 0x100000 0x108000 0x7EDD000 @ init_video_log (ModeInfoBlock_at pc_mem 0xf000) 1440000
          @ [LogExpr ''kernel/page.c'' ''test_page'' 204 ''page->frame'' 0x7FFE,
             LogExpr ''kernel/page.c'' ''test_page'' 204 ''page->frame'' 0x7FFF]))"
    using stops [of "0x7EDD000", unfolded big_faults big_logs big_tables w] by (simp only: NR_PAGES_def) simp
  show "\<exists>d'. main_init sim_pc (str_slot main_strings) (big_symbols 0x8000001) pc_machine (pc_start []) = Some (Inl (OutOfBounds, d'))
      \<and> pc_sent d' = map chr (log_text (LogLine ''kernel/main.c'' ''main'' 19 ''Hello World :-)''
          # take 5 (init_page_log 0x100000 0x108000 0x8000001)))"
    using stops [of "0x8000001", unfolded big_faults big_logs big_tables w] by (simp only: NR_PAGES_def) simp
qed

end
