(* ===== verification/Assert.thy ===== *)
theory Assert
  imports Prelude
begin

text \<open>
  The macros of \<open>inc/assert.h\<close>. No file includes the header, and the functions that the macros call,
  \<open>_warn\<close> and \<open>_panic\<close>, are not in the repository: they are parameters, functions of file, line,
  format and arguments that may not return (\<open>None\<close>). What the header says of \<open>_panic\<close> is that it
  does not (\<open>noreturn\<close>).
\<close>

type_synonym 's reporter = "string \<Rightarrow> int \<Rightarrow> string \<Rightarrow> string list \<Rightarrow> 's \<Rightarrow> 's option"

definition warn :: "'s reporter \<Rightarrow> string \<Rightarrow> int \<Rightarrow> string \<Rightarrow> string list \<Rightarrow> 's \<Rightarrow> 's option" where
  "warn warn_fn fl line fmt args s = warn_fn fl line fmt args s"

definition panic :: "'s reporter \<Rightarrow> string \<Rightarrow> int \<Rightarrow> string \<Rightarrow> string list \<Rightarrow> 's \<Rightarrow> 's option" where
  "panic panic_fn fl line fmt args s = panic_fn fl line fmt args s"

text \<open>\<open>expr\<close> is the text of the asserted expression.\<close>

definition assert :: "'s reporter \<Rightarrow> string \<Rightarrow> int \<Rightarrow> bool \<Rightarrow> string \<Rightarrow> 's \<Rightarrow> 's option" where
  "assert panic_fn fl line x expr s =
     (if \<not> x then panic panic_fn fl line ''assertion failed: %s'' [expr] s else Some s)"

text \<open>The labels of the \<open>switch\<close> have to differ; where they do, the statement behind them runs, whatever its
  value, since the value is one of the labels.\<close>

definition static_assert_labels :: "int \<Rightarrow> int list" where
  "static_assert_labels x = [0, x]"

definition static_assert :: "int \<Rightarrow> ('s \<Rightarrow> 's option) \<Rightarrow> ('s \<Rightarrow> 's option) option" where
  "static_assert x stmt =
     (if distinct (static_assert_labels x)
      then Some (\<lambda>s. if x \<in> set (static_assert_labels x) then stmt s else Some s)
      else None)"

definition noreturn :: "'s reporter \<Rightarrow> bool" where
  "noreturn f \<longleftrightarrow> (\<forall>fl line fmt args s. f fl line fmt args s = None)"

text \<open>Code behind an assertion runs exactly when the asserted expression is true, in an unchanged state.\<close>

lemma assert_returns:
  assumes "noreturn panic_fn"
  shows "assert panic_fn fl line x expr s = Some s' \<longleftrightarrow> x \<and> s' = s"
  using assms by (auto simp: assert_def panic_def noreturn_def)

text \<open>Assertions one after the other: all of them hold where the last one returns.\<close>

lemma asserts_return:
  assumes "noreturn panic_fn"
  shows "fold (\<lambda>(line, x, expr) r. Option.bind r (assert panic_fn fl line x expr)) checks (Some s) = Some s'
    \<longleftrightarrow> (\<forall>(line, x, expr) \<in> set checks. x) \<and> s' = s"
proof (induction checks arbitrary: s)
  case (Cons c checks)
  have none: "fold (\<lambda>(line, x, expr) r. Option.bind r (assert panic_fn fl line x expr)) cs None = None" for cs
    by (induction cs) auto
  obtain line x expr where c: "c = (line, x, expr)" by (cases c)
  show ?case
  proof (cases x)
    case True
    then have "assert panic_fn fl line x expr s = Some s" by (simp add: assert_def)
    then show ?thesis using Cons True by (simp add: c)
  next
    case False
    then have "assert panic_fn fl line x expr s = None"
      using assms by (simp add: assert_def panic_def noreturn_def)
    then show ?thesis using False by (simp add: c none)
  qed
qed auto

lemma static_assert_compiles:
  "static_assert x stmt = (if x = 0 then None else Some stmt)"
  by (auto simp: static_assert_def static_assert_labels_def)

end
