(* ===== verification/PowerOn.thy ===== *)
theory PowerOn
  imports Start KernelMain
begin

text \<open>
  The whole run of the machine: the boot sector (\<open>boot/boot.S\<close>, \<open>boot/main.c\<close>) is entered by
  the BIOS, loads the kernel from the disk and enters it, and the kernel's \<open>main\<close> sets up the
  components and plays the game.

  The kernel is entered when the entry point of the ELF header is the address of \<open>main\<close>. Of
  the machine, the memory, the protection bit and the interrupt flag pass from the boot
  sector to the kernel; the tables, which are in the kernel's own data, hold anything
  there.
\<close>

section \<open>The chain\<close>

definition boot_sector :: "'d bios \<Rightarrow> 'd device \<Rightarrow> u32 \<Rightarrow> cpu \<times> mem \<times> 'd \<Rightarrow> (boot_end \<times> cpu \<times> mem \<times> 'd) option" where
  "boot_sector int10 dv desc_a s =
     (case start int10 dv desc_a s of
        None \<Rightarrow> None
      | Some (c, m, d) \<Rightarrow>
          (case bootmain dv (m, d) of
             None \<Rightarrow> None
           | Some (e, m, d) \<Rightarrow> Some (e, c, m, d)))"

definition hand_over :: "cpu \<Rightarrow> mem \<Rightarrow> machine \<Rightarrow> machine" where
  "hand_over c m mc = mc\<lparr>mif := c_if c, mv := (mv mc)\<lparr>kern := (kern (mv mc))\<lparr>kmem := m, cr0 := c_cr0 c\<rparr>\<rparr>\<rparr>"

definition power_on :: "'d bios \<Rightarrow> 'd device \<Rightarrow> u32 \<Rightarrow> u32 \<Rightarrow> (string \<Rightarrow> u32) \<Rightarrow> symbols \<Rightarrow> u32 \<Rightarrow> int \<Rightarrow> int \<Rightarrow>
    machine \<Rightarrow> cpu \<times> mem \<times> 'd \<Rightarrow> ('d, GameState \<times> machine \<times> 'd) attempt option" where
  "power_on int10 dv desc_a main_a lit sy pic pic_w pic_h mc s =
     (case boot_sector int10 dv desc_a s of
        None \<Rightarrow> None
      | Some (Spin, c, m, d) \<Rightarrow> None
      | Some (Enter a, c, m, d) \<Rightarrow>
          if a = main_a then main_c dv lit sy pic pic_w pic_h (hand_over c m mc) d else None)"

section \<open>Loading above 1 MB\<close>

definition above_1m :: "Proghdr \<Rightarrow> bool" where
  "above_1m p \<longleftrightarrow> 0x100000 \<le> unat (p_pa p) div 512 * 512"

lemma load_segs_below:
  "list_all above_1m ps \<Longrightarrow> unat a < 0x100000 \<Longrightarrow> load_segs img ps m a = m a"
  by (induction ps arbitrary: m) (auto simp: load_segs_def above_1m_def load_seg_def)

text \<open>The first page of the kernel file, with the headers, lies at \<open>0x10000\<close>, whatever was in memory.\<close>

definition loaded :: "(nat \<Rightarrow> byte) \<Rightarrow> Proghdr list \<Rightarrow> mem \<Rightarrow> mem" where
  "loaded img ps m = load_segs img ps (load_seg img 65536 4096 0 m)"

lemma mode_info_loaded:
  assumes "list_all above_1m ps"
  shows "ModeInfoBlock_at (loaded img ps m) 0xf000 = ModeInfoBlock_at m 0xf000"
proof (rule mode_info_kept [of "0xf100"])
  fix a :: u32 assume "unat a < 0xf100"
  then show "loaded img ps m a = m a"
    using load_segs_below [OF assms, of a img "load_seg img 65536 4096 0 m"] by (simp add: loaded_def load_seg_def)
qed simp

section \<open>The run\<close>

text \<open>What the boot sector needs of the kernel image on the disk: the ELF magic, a program header table in the
  header page and segments above 1 MB.\<close>

definition header_page :: "(nat \<Rightarrow> byte) \<Rightarrow> mem" where
  "header_page img = load_seg img 65536 4096 0 (\<lambda>_. 0)"

definition disk_ok :: "(nat \<Rightarrow> byte) \<Rightarrow> Elf \<Rightarrow> Proghdr list \<Rightarrow> bool" where
  "disk_ok img e ps \<longleftrightarrow> e = Elf_at (header_page img) ELFHDR \<and> e_magic e = ELF_MAGIC
     \<and> unat (e_phoff e) + 32 * unat (e_phnum e) \<le> 4096
     \<and> ps = headers (header_page img) (ELFHDR + e_phoff e) (unat (e_phnum e)) \<and> list_all seg_ok ps \<and> list_all above_1m ps"

lemma header_page_same:
  "in_reg ELFHDR 4096 x \<Longrightarrow> load_seg img 65536 4096 0 m x = header_page img x"
  by (simp add: header_page_def load_seg_def ELFHDR_def in_reg_nat)

lemma headers_same:
  assumes "unat po + 32 * n \<le> 4096"
  shows "headers (load_seg img 65536 4096 0 m) (ELFHDR + po) n = headers (header_page img) (ELFHDR + po) n"
  unfolding headers_def
proof (rule map_cong [OF refl], rule Proghdr_at_cong)
  fix i x assume i: "i \<in> set [0..<n]" and x: "in_reg (ELFHDR + po + of_nat (32 * i)) 32 x"
  have "unat (of_nat (32 * i) :: u32) = 32 * i" using i assms by (intro unat_of_nat32) simp
  then have "unat (ELFHDR + po + of_nat (32 * i)) = 65536 + unat po + 32 * i"
    using i assms by (simp add: unat_add_word ELFHDR_def)
  then have "in_reg ELFHDR 4096 x" using x i assms by (simp add: in_reg_nat ELFHDR_def)
  then show "load_seg img 65536 4096 0 m x = header_page img x" by (rule header_page_same)
qed

lemma boot_sector_runs:
  assumes vbe: "vbe_laws int10 modes info own vmode keep" "0x115 \<in> modes" "bios_beside (own 0 (c_esp c))"
    and kbc: "kbc_laws dv pend a20 (\<lambda>d. (vmode d, keep d))"
    and disk: "disk_laws dv ph reg img" "\<And>d'. keep d' = keep d \<Longrightarrow> ph d' = Idle"
    and gdt: "bytes_at m gdt_a boot_gdt" "in_sector gdt_a 24"
    and dsc: "bytes_at m desc_a (gdtdesc gdt_a)" "in_sector desc_a 6"
    and ok: "disk_ok img e ps"
  shows "\<exists>c' m1 d1 d'. boot_sector int10 dv desc_a (c, m, d) = Some (Enter (e_entry e), c', loaded img ps m1, d')
    \<and> after_bios (own 0 (c_esp c)) (info 0x115) m m1 \<and> c_cr0 c' = c_cr0 c OR CR0_PE_ON \<and> \<not> c_if c'
    \<and> keep d1 = keep d \<and> bootmain dv (m1, d1) = Some (Enter (e_entry e), loaded img ps m1, d')"
proof -
  obtain c' m1 d1 where st: "start int10 dv desc_a (c, m, d) = Some (c', m1, d1)"
    "after_bios (own 0 (c_esp c)) (info 0x115) m m1" "c_cr0 c' = c_cr0 c OR CR0_PE_ON" "\<not> c_if c'" "keep d1 = keep d"
    using start_runs [OF vbe kbc gdt dsc, of d] by blast
  have magic: "e_magic e = ELF_MAGIC" and tab: "unat (e_phoff e) + 32 * unat (e_phnum e) \<le> 4096" and segs: "list_all seg_ok ps"
    and e: "e = Elf_at (header_page img) ELFHDR" and ps: "ps = headers (header_page img) (ELFHDR + e_phoff e) (unat (e_phnum e))"
    using ok unfolding disk_ok_def by blast+
  have e1: "e = Elf_at (load_seg img 65536 4096 0 m1) ELFHDR"
    unfolding e by (rule Elf_at_cong) (simp add: header_page_same)
  have ps1: "ps = headers (load_seg img 65536 4096 0 m1) (ELFHDR + e_phoff e) (unat (e_phnum e))"
    unfolding headers_same [OF tab] by (rule ps)
  obtain d2 where "bootmain dv (m1, d1) = Some (Enter (e_entry e), loaded img ps m1, d2)"
    using bootmain_spec [OF disk(1) disk(2) [OF st(5)] refl e1 tab ps1 segs] magic unfolding loaded_def by auto
  then show ?thesis using st
    by (intro exI [of _ c'] exI [of _ m1] exI [of _ d1] exI [of _ d2]) (simp add: boot_sector_def)
qed

text \<open>The condition of \<open>main\<close> on the machine looks at its memory and the lengths of its tables only.\<close>

definition with_mem :: "mem \<Rightarrow> machine \<Rightarrow> machine" where
  "with_mem m mc = mc\<lparr>mv := (mv mc)\<lparr>kern := (kern (mv mc))\<lparr>kmem := m\<rparr>\<rparr>\<rparr>"

lemma boot_ok_hand_over: "boot_ok lit sy (hand_over c m mc) mi sz nt \<longleftrightarrow> boot_ok lit sy (with_mem m mc) mi sz nt"
  by (simp add: boot_ok_def boot_image_def hand_over_def with_mem_def)

lemma hand_over_parts: "vmemory (mv (hand_over c m mc)) = m" "vmem_buffer (mv (hand_over c m mc)) = vmem_buffer (mv mc)"
  by (simp_all add: hand_over_def)

lemma power_on_runs:
  assumes vbe: "vbe_laws int10 modes info own vmode keep" "0x115 \<in> modes" "bios_beside (own 0 (c_esp c))"
    and kbc: "kbc_laws dv pend a20 (\<lambda>d. (vmode d, keep d))"
    and disk: "disk_laws dv ph reg img" "\<And>d'. keep d' = keep d \<Longrightarrow> ph d' = Idle"
    and gdt: "bytes_at m gdt_a boot_gdt" "in_sector gdt_a 24"
    and dsc: "bytes_at m desc_a (gdtdesc gdt_a)" "in_sector desc_a 6"
    and img: "disk_ok img e ps"
    and uart: "uart_laws dv sent ctl" "pic_quiet dv sent ctl"
    and ok: "\<forall>m1. after_bios (own 0 (c_esp c)) (info 0x115) m m1 \<longrightarrow> boot_ok lit sy (with_mem (loaded img ps m1) mc) mi sz nt"
  obtains c' m1 d0 d1 mc' d2 where "after_bios (own 0 (c_esp c)) (info 0x115) m m1"
    and "boot_sector int10 dv desc_a (c, m, d) = Some (Enter (e_entry e), c', loaded img ps m1, d1)"
    and "keep d0 = keep d" and "bootmain dv (m1, d0) = Some (Enter (e_entry e), loaded img ps m1, d1)"
    and "main_init dv lit sy (hand_over c' (loaded img ps m1) mc) d1 = Some (Inr (mc', d2))"
    and "boot_ok lit sy (hand_over c' (loaded img ps m1) mc) mi sz nt" and "game_ready lit mc'" and "uart_open dv sent ctl d2"
    and "cr0 (kern (mv mc')) = c_cr0 c OR CR0_PE_ON OR CR0_PG" and "mode_info (mv mc') = ModeInfoBlock_at m1 0xf000"
proof -
  obtain c' m1 d0 d1 where b: "boot_sector int10 dv desc_a (c, m, d) = Some (Enter (e_entry e), c', loaded img ps m1, d1)"
    "after_bios (own 0 (c_esp c)) (info 0x115) m m1" "c_cr0 c' = c_cr0 c OR CR0_PE_ON" "keep d0 = keep d"
    "bootmain dv (m1, d0) = Some (Enter (e_entry e), loaded img ps m1, d1)"
    using boot_sector_runs [OF vbe kbc disk gdt dsc img] by blast
  have bok: "boot_ok lit sy (with_mem (loaded img ps m1) mc) mi sz nt" using ok b(2) by blast
  then have mi: "mi = ModeInfoBlock_at (loaded img ps m1) 0xf000"
    unfolding boot_ok_def boot_image_def Let_def by (simp add: with_mem_def)
  have "list_all above_1m ps" using img unfolding disk_ok_def by blast
  then have mi': "mi = ModeInfoBlock_at m1 0xf000" using mode_info_loaded [of ps img m1] unfolding mi by simp
  have ok': "boot_ok lit sy (hand_over c' (loaded img ps m1) mc) mi sz nt"
    using bok unfolding boot_ok_hand_over .
  obtain mc' d2 where r: "main_init dv lit sy (hand_over c' (loaded img ps m1) mc) d1 = Some (Inr (mc', d2))"
    "cr0 (kern (mv mc')) = cr0 (kern (mv (hand_over c' (loaded img ps m1) mc))) OR CR0_PG" "mode_info (mv mc') = mi"
    "game_ready lit mc'" "uart_open dv sent ctl d2"
    using main_init_boots [OF uart ok', of d1] by (elim exE conjE)
  have "cr0 (kern (mv mc')) = c_cr0 c OR CR0_PE_ON OR CR0_PG"
    unfolding r(2) by (simp add: hand_over_def b(3) or.assoc)
  moreover have "mode_info (mv mc') = ModeInfoBlock_at m1 0xf000"
    using r(3) mi' by simp
  ultimately show thesis using b r ok' by (intro that [of m1 c' d1 d0 mc' d2])
qed

lemma power_on_main:
  "boot_sector int10 dv desc_a s = Some (Enter a, c', m', d1) \<Longrightarrow>
   power_on int10 dv desc_a a lit sy pic w h mc s = main_c dv lit sy pic w h (hand_over c' m' mc) d1"
  by (simp add: power_on_def)

text \<open>C1: the machine boots into the game and the game can be won. There is a sequence of keys, which depends on
  the picture only, such that for every machine whose devices keep their protocols, with a BIOS that
  supports the video mode and a well-formed kernel on the disk: from the first instruction of
  the boot sector the run reaches the game loop in paged protected mode with the video mode that
  the BIOS reported; whatever is typed, the run never faults, and when it ends the puzzle is
  solved, the screen shows the picture of the kernel image, and the serial line has carried
  the kernel's whole log; and if the keyboard delivers these keys when the game has begun, it does end.\<close>

theorem power_on_plays:
  "\<exists>cs. set cs \<subseteq> game_keys
    \<and> (\<forall>(dv :: 'd device) int10 modes info own vmode pend a20 ph reg img sent ctl gdt_a desc_a e ps lit sy mi sz nt mc (c :: cpu) m d.
        vbe_laws int10 modes info own vmode ph \<and> 0x115 \<in> modes \<and> bios_beside (own 0 (c_esp c))
        \<and> kbc_laws dv pend a20 (\<lambda>d. (vmode d, ph d))
        \<and> disk_laws dv ph reg img \<and> ph d = Idle \<and> disk_ok img e ps
        \<and> bytes_at m gdt_a boot_gdt \<and> in_sector gdt_a 24 \<and> bytes_at m desc_a (gdtdesc gdt_a) \<and> in_sector desc_a 6
        \<and> uart_laws dv sent ctl \<and> pic_quiet dv sent ctl \<and> keys_quiet dv sent ctl
        \<and> (\<forall>m1. after_bios (own 0 (c_esp c)) (info 0x115) m m1 \<longrightarrow> boot_ok lit sy (with_mem (loaded img ps m1) mc) mi sz nt)
        \<and> picture_at pic w h mc
      \<longrightarrow> (\<exists>c' m1 d1. boot_sector int10 dv desc_a (c, m, d) = Some (Enter (e_entry e), c', loaded img ps m1, d1)
        \<and> after_bios (own 0 (c_esp c)) (info 0x115) m m1
        \<and> (\<forall>r. power_on int10 dv desc_a (e_entry e) lit sy pic w h mc (c, m, d) = Some r
          \<longrightarrow> (\<exists>res. r = Inr res \<and> game_over sent pic w h (loaded img ps m1) (sent (init_serial dv d1)
            @ map chr (log_text (boot_log sy mi sz nt @ [LogLine ''kernel/game.c'' ''game_mainloop'' 155 ''Success'']))) res))
        \<and> (\<exists>mc' d2. main_init dv lit sy (hand_over c' (loaded img ps m1) mc) d1 = Some (Inr (mc', d2))
          \<and> cr0 (kern (mv mc')) = c_cr0 c OR CR0_PE_ON OR CR0_PG \<and> mode_info (mv mc') = ModeInfoBlock_at m1 0xf000
          \<and> (\<forall>d'. answers dv 0x60 (typed cs) d2 d'
            \<longrightarrow> (\<exists>res. power_on int10 dv desc_a (e_entry e) lit sy pic w h mc (c, m, d) = Some (Inr res))))))"
proof (cases "100 \<le> w \<and> 100 \<le> h")
  case False
  then have "\<not> picture_at pic w h mc" for mc by (auto simp: picture_at_def)
  then show ?thesis by (intro exI [of _ "[]"]) simp
next
  case True
  then have size: "100 \<le> w" "100 \<le> h" by simp_all
  obtain cs where cs: "set cs \<subseteq> game_keys"
    and wins: "\<And>(dv :: 'd device) sent ctl lit sy mc d mc' d' d''. keys_quiet dv sent ctl \<Longrightarrow>
      main_init dv lit sy mc d = Some (Inr (mc', d')) \<Longrightarrow> uart_open dv sent ctl d' \<Longrightarrow> game_ready lit mc' \<Longrightarrow>
      answers dv 0x60 (typed cs) d' d'' \<Longrightarrow> \<exists>r. main_c dv lit sy pic w h mc d = Some (Inr r)"
    by (rule main_c_wins [OF size, where 'd = 'd and pic = pic]) (rule that)
  show ?thesis
  proof (rule exI [of _ cs], rule conjI, rule cs, intro allI impI, elim conjE)
    fix dv :: "'d device" and int10 modes info own vmode pend a20 ph reg img sent ctl gdt_a desc_a e ps lit sy mi sz nt mc and c :: cpu and m d
    assume vbe: "vbe_laws int10 modes info own vmode ph" "0x115 \<in> modes" "bios_beside (own 0 (c_esp c))"
      and kbc: "kbc_laws dv pend a20 (\<lambda>d. (vmode d, ph d))" and disk: "disk_laws dv ph reg img" "ph d = Idle" and img: "disk_ok img e ps"
      and gdt: "bytes_at m gdt_a boot_gdt" "in_sector gdt_a 24" and dsc: "bytes_at m desc_a (gdtdesc gdt_a)" "in_sector desc_a 6"
      and uart: "uart_laws dv sent ctl" "pic_quiet dv sent ctl" and keys: "keys_quiet dv sent ctl"
      and ok: "\<forall>m1. after_bios (own 0 (c_esp c)) (info 0x115) m m1 \<longrightarrow> boot_ok lit sy (with_mem (loaded img ps m1) mc) mi sz nt"
      and pic: "picture_at pic w h mc"
    have idle: "ph d' = Idle" if "ph d' = ph d" for d' using that disk(2) by simp
    obtain c' m1 d0 d1 mc' d2 where m1: "after_bios (own 0 (c_esp c)) (info 0x115) m m1"
      and b: "boot_sector int10 dv desc_a (c, m, d) = Some (Enter (e_entry e), c', loaded img ps m1, d1)"
      and i: "main_init dv lit sy (hand_over c' (loaded img ps m1) mc) d1 = Some (Inr (mc', d2))"
      and bok: "boot_ok lit sy (hand_over c' (loaded img ps m1) mc) mi sz nt" and ready: "game_ready lit mc'" and open_d2: "uart_open dv sent ctl d2"
      and k: "cr0 (kern (mv mc')) = c_cr0 c OR CR0_PE_ON OR CR0_PG" "mode_info (mv mc') = ModeInfoBlock_at m1 0xf000"
      by (rule power_on_runs [OF vbe kbc disk(1) idle gdt dsc img uart ok])
    have pic': "picture_at pic w h (hand_over c' (loaded img ps m1) mc)"
      using pic by (simp add: picture_at_def hand_over_parts)
    note run = power_on_main [OF b, of lit sy pic w h mc]
    show "\<exists>c' m1 d1. boot_sector int10 dv desc_a (c, m, d) = Some (Enter (e_entry e), c', loaded img ps m1, d1)
        \<and> after_bios (own 0 (c_esp c)) (info 0x115) m m1
        \<and> (\<forall>r. power_on int10 dv desc_a (e_entry e) lit sy pic w h mc (c, m, d) = Some r
          \<longrightarrow> (\<exists>res. r = Inr res \<and> game_over sent pic w h (loaded img ps m1) (sent (init_serial dv d1)
            @ map chr (log_text (boot_log sy mi sz nt @ [LogLine ''kernel/game.c'' ''game_mainloop'' 155 ''Success'']))) res))
        \<and> (\<exists>mc' d2. main_init dv lit sy (hand_over c' (loaded img ps m1) mc) d1 = Some (Inr (mc', d2))
          \<and> cr0 (kern (mv mc')) = c_cr0 c OR CR0_PE_ON OR CR0_PG \<and> mode_info (mv mc') = ModeInfoBlock_at m1 0xf000
          \<and> (\<forall>d'. answers dv 0x60 (typed cs) d2 d'
            \<longrightarrow> (\<exists>res. power_on int10 dv desc_a (e_entry e) lit sy pic w h mc (c, m, d) = Some (Inr res))))"
      unfolding run
      using main_c_over [OF uart keys bok pic', unfolded hand_over_parts] wins [OF keys i open_d2 ready] b m1 i k by blast
  qed
qed

section \<open>A machine with a disk\<close>

text \<open>One device with the UART and keyboard of \<open>KernelMain\<close>, the drive of \<open>Boot\<close> and the keyboard controller and
  video service of \<open>Start\<close>; a kernel of one segment at 1 MB whose data are the literals.\<close>

record box =
  box_pc :: pc
  box_disk :: sim
  box_ctl :: ctl

definition box_in :: "(nat \<Rightarrow> byte) \<Rightarrow> width \<Rightarrow> u16 \<Rightarrow> box \<Rightarrow> u32 \<times> box" where
  "box_in img w port d =
     (if port = 0x1F7 \<or> port = 0x1F0 then map_prod id (\<lambda>s. d\<lparr>box_disk := s\<rparr>) (dev_in (sim_disk img) w port (box_disk d))
      else if port = 0x64 then map_prod id (\<lambda>s. d\<lparr>box_ctl := s\<rparr>) (dev_in sim_ctl w port (box_ctl d))
      else map_prod id (\<lambda>s. d\<lparr>box_pc := s\<rparr>) (dev_in sim_pc w port (box_pc d)))"

definition box_out :: "width \<Rightarrow> u16 \<Rightarrow> u32 \<Rightarrow> box \<Rightarrow> box" where
  "box_out w port x d =
     (if port \<in> {0x1F2, 0x1F3, 0x1F4, 0x1F5, 0x1F6, 0x1F7} then d\<lparr>box_disk := sim_out w port x (box_disk d)\<rparr>
      else if port \<in> {0x60, 0x64} then d\<lparr>box_ctl := ctl_out port (ucast x) (box_ctl d)\<rparr>
      else d\<lparr>box_pc := pc_out w port x (box_pc d)\<rparr>)"

definition sim_box :: "(nat \<Rightarrow> byte) \<Rightarrow> box device" where
  "sim_box img = \<lparr>dev_in = box_in img, dev_out = box_out\<rparr>"

definition box_start :: "byte list \<Rightarrow> box" where
  "box_start keys = \<lparr>box_pc = pc_start keys, box_disk = sim_start,
     box_ctl = \<lparr>ctl_busy = True, ctl_pend = False, ctl_a20 = False, ctl_mode = 3\<rparr>\<rparr>"

definition box_sent :: "box \<Rightarrow> byte list" where "box_sent d = pc_sent (box_pc d)"
definition box_keys :: "box \<Rightarrow> byte list" where "box_keys d = pc_keys (box_pc d)"
definition box_ctlr :: "box \<Rightarrow> byte \<times> byte" where "box_ctlr d = pc_ctl (box_pc d)"
definition box_phase :: "box \<Rightarrow> phase" where "box_phase d = sim_phase (box_disk d)"

text \<open>Each port is one of the parts'.\<close>

lemma box_ports:
  "inb (sim_box img) 0x1F7 d = map_prod id (\<lambda>s. d\<lparr>box_disk := s\<rparr>) (inb (sim_disk img) 0x1F7 (box_disk d))"
  "inl (sim_box img) 0x1F0 d = map_prod id (\<lambda>s. d\<lparr>box_disk := s\<rparr>) (inl (sim_disk img) 0x1F0 (box_disk d))"
  "inb (sim_box img) 0x64 d = map_prod id (\<lambda>s. d\<lparr>box_ctl := s\<rparr>) (inb sim_ctl 0x64 (box_ctl d))"
  "inb (sim_box img) 0x60 d = map_prod id (\<lambda>s. d\<lparr>box_pc := s\<rparr>) (inb sim_pc 0x60 (box_pc d))"
  "inb (sim_box img) (COM1 + 5) d = map_prod id (\<lambda>s. d\<lparr>box_pc := s\<rparr>) (inb sim_pc (COM1 + 5) (box_pc d))"
  "port \<in> {0x1F2, 0x1F3, 0x1F4, 0x1F5, 0x1F6, 0x1F7} \<Longrightarrow> outb (sim_box img) port x d = d\<lparr>box_disk := outb (sim_disk img) port x (box_disk d)\<rparr>"
  "port \<in> {0x60, 0x64} \<Longrightarrow> outb (sim_box img) port x d = d\<lparr>box_ctl := outb sim_ctl port x (box_ctl d)\<rparr>"
  "port \<notin> {0x1F2, 0x1F3, 0x1F4, 0x1F5, 0x1F6, 0x1F7, 0x60, 0x64} \<Longrightarrow> outb (sim_box img) port x d = d\<lparr>box_pc := outb sim_pc port x (box_pc d)\<rparr>"
  by (auto simp: inb_def inl_def outb_def sim_box_def sim_disk_def sim_ctl_def sim_pc_def box_in_def box_out_def COM1_def map_prod_def
      split: prod.split)

lemma part_ports:
  "outb (sim_disk img) port x s = sim_out W8 port (ucast x) s" "inl (sim_disk img) port s = sim_in img W32 port s"
  "outb sim_ctl port x c = ctl_out port x c"
  by (simp_all add: outb_def inl_def sim_disk_def sim_ctl_def ucast_byte)

lemma box_disk_laws: "disk_laws (sim_box img) box_phase (\<lambda>d. sim_reg (box_disk d)) img"
proof -
  have "ready 0x40" "\<not> ready 0x80" by (simp_all add: ready_def)
  moreover have "answers (sim_box img) 0x1F7 (replicate (sim_busy (box_disk d)) 0x80 @ [0x40]) d (d\<lparr>box_disk := (box_disk d)\<lparr>sim_busy := 0\<rparr>\<rparr>)" for d
    by (rule answers_part [where put = "\<lambda>s d. d\<lparr>box_disk := s\<rparr>" and get = box_disk and dv' = "sim_disk img", OF box_ports(1)])
      (simp_all add: sim_busy_looks)
  ultimately have "\<exists>xs y d'. answers (sim_box img) 0x1F7 (xs @ [y]) d d' \<and> (\<forall>x \<in> set xs. \<not> ready x) \<and> ready y
      \<and> sim_busy (box_disk d') = 0 \<and> box_phase d' = box_phase d \<and> sim_reg (box_disk d') = sim_reg (box_disk d)" for d
    by (intro exI [of _ "replicate (sim_busy (box_disk d)) 0x80"] exI [of _ "0x40"] exI [of _ "d\<lparr>box_disk := (box_disk d)\<lparr>sim_busy := 0\<rparr>\<rparr>"])
      (simp add: box_phase_def)
  then show ?thesis
    unfolding disk_laws_def
    by (intro exI [of _ "\<lambda>d. sim_busy (box_disk d) = 0"])
      (auto simp: box_ports part_ports box_phase_def sim_in_def sim_out_def ucast_byte)
qed

lemma box_disk_keeps: "disk_keeps (sim_box img) box_pc"
  by (auto simp: disk_keeps_def box_ports)

lemma box_uart: "uart_laws (sim_box img) (\<lambda>d. f (box_keys d) @ box_sent d) box_ctlr"
proof -
  have "\<exists>xs y d'. answers (sim_box img) (COM1 + 5) (xs @ [y]) d d' \<and> (\<forall>x \<in> set xs. \<not> transmit_empty x)
        \<and> transmit_empty y \<and> \<not> u_busy (pc_uart (box_pc d')) \<and> f (box_keys d') @ box_sent d' = f (box_keys d) @ box_sent d
        \<and> box_ctlr d' = box_ctlr d" for d
  proof -
    let ?pc = "(box_pc d)\<lparr>pc_uart := (pc_uart (box_pc d))\<lparr>u_busy := False\<rparr>\<rparr>"
    have "answers (sim_box img) (COM1 + 5) ((if u_busy (pc_uart (box_pc d)) then [0] else []) @ [0x20]) d (d\<lparr>box_pc := ?pc\<rparr>)"
      by (rule answers_part [where put = "\<lambda>s d. d\<lparr>box_pc := s\<rparr>" and get = box_pc and dv' = sim_pc, OF box_ports(5)]) (simp_all add: pc_looks)
    then show ?thesis
      by (intro exI [of _ "if u_busy (pc_uart (box_pc d)) then [0] else []"] exI [of _ "0x20"] exI [of _ "d\<lparr>box_pc := ?pc\<rparr>"])
        (simp add: transmit_empty_def box_keys_def box_sent_def box_ctlr_def pc_sent_def pc_ctl_def)
  qed
  moreover have out: "outb (sim_box img) port c d = d\<lparr>box_pc := (box_pc d)\<lparr>pc_uart := uart_out port c (pc_uart (box_pc d))\<rparr>\<rparr>"
    if "port \<in> {COM1, COM1 + 1, COM1 + 2, COM1 + 3, COM1 + 4}" for port c d
  proof -
    have "port \<notin> {0x1F2, 0x1F3, 0x1F4, 0x1F5, 0x1F6, 0x1F7, 0x60, 0x64}" using that by (auto simp: COM1_def)
    then show ?thesis by (simp add: box_ports(8) pc_outb)
  qed
  ultimately show ?thesis
    unfolding uart_laws_def
    by (intro exI [of _ "\<lambda>d. \<not> u_busy (pc_uart (box_pc d))"])
      (simp add: uart_out_keeps box_keys_def box_sent_def box_ctlr_def pc_sent_def pc_ctl_def)
qed

lemmas box_uart_laws = box_uart [where f = "\<lambda>_. []", unfolded append_Nil]

lemma box_pic: "pic_quiet (sim_box img) (\<lambda>d. f (box_pc d)) (\<lambda>d. g (box_pc d))"
proof -
  have "box_pc (init_i8259_pic (sim_box img) d) = init_i8259_pic sim_pc (box_pc d)" for d
    by (simp add: init_i8259_pic_def Let_def box_ports PORT_PIC_MASTER_DATA_def PORT_PIC_SLAVE_DATA_def PORT_PIC_MASTER_CMD_def PORT_PIC_SLAVE_CMD_def)
  then show ?thesis by (simp add: pic_quiet_def pic_ports)
qed

lemma box_pic_quiet:
  "pic_quiet (sim_box img) box_sent box_ctlr" "pic_quiet (sim_box img) (\<lambda>d. box_keys d @ box_sent d) box_ctlr"
  using box_pic [where f = pc_sent and g = pc_ctl] box_pic [where f = "\<lambda>p. pc_keys p @ pc_sent p" and g = pc_ctl]
  by (simp_all add: box_sent_def [abs_def] box_ctlr_def [abs_def] box_keys_def [abs_def])

lemma box_init_serial: "box_pc (init_serial (sim_box img) d) = init_serial sim_pc (box_pc d)"
  by (simp add: init_serial_def init_serial_com_def Let_def box_ports COM1_def)

lemma box_keys_quiet: "keys_quiet (sim_box img) box_sent box_ctlr"
  using sim_pc_keys by (simp add: keys_quiet_def box_ports box_sent_def box_ctlr_def)

lemma box_kbc: "kbc_laws (sim_box img) (\<lambda>d. ctl_pend (box_ctl d)) (\<lambda>d. ctl_a20 (box_ctl d)) (\<lambda>d. (ctl_mode (box_ctl d), f (box_pc d) (box_disk d)))"
proof -
  have "answers (sim_box img) 0x64 ((if ctl_busy (box_ctl d) then [2] else []) @ [0]) d (d\<lparr>box_ctl := (box_ctl d)\<lparr>ctl_busy := False\<rparr>\<rparr>)" for d
    by (rule answers_part [where put = "\<lambda>s d. d\<lparr>box_ctl := s\<rparr>" and get = box_ctl and dv' = sim_ctl, OF box_ports(3)]) (simp_all add: ctl_looks)
  then have "\<exists>xs y d'. answers (sim_box img) 0x64 (xs @ [y]) d d' \<and> (\<forall>x \<in> set xs. x AND 2 \<noteq> 0) \<and> y AND 2 = 0
        \<and> \<not> ctl_busy (box_ctl d') \<and> ctl_pend (box_ctl d') = ctl_pend (box_ctl d) \<and> ctl_a20 (box_ctl d') = ctl_a20 (box_ctl d)
        \<and> (ctl_mode (box_ctl d'), f (box_pc d') (box_disk d')) = (ctl_mode (box_ctl d), f (box_pc d) (box_disk d))" for d
    by (intro exI [of _ "if ctl_busy (box_ctl d) then [2] else []"] exI [of _ 0] exI [of _ "d\<lparr>box_ctl := (box_ctl d)\<lparr>ctl_busy := False\<rparr>\<rparr>"]) simp
  then show ?thesis
    unfolding kbc_laws_def
    by (intro exI [of _ "\<lambda>d. \<not> ctl_busy (box_ctl d)"]) (simp add: box_ports part_ports ctl_out_def)
qed

definition box_bios :: "box bios" where
  "box_bios = sim_bios (\<lambda>x d. d\<lparr>box_ctl := (box_ctl d)\<lparr>ctl_mode := x\<rparr>\<rparr>)"

lemma box_vbe: "vbe_laws box_bios {0x115} bios_info bios_own (\<lambda>d. ctl_mode (box_ctl d)) (\<lambda>d. f (box_pc d) (box_disk d))"
  unfolding box_bios_def by (rule sim_bios_laws) simp_all

definition box_image :: "nat \<Rightarrow> byte" where
  "box_image n = (if n < 4608 then ((\<lambda>_. 0)(512 := 0x7F, 513 := 0x45, 514 := 0x4C, 515 := 0x46, 538 := 0x10, 540 := 52,
     556 := 1, 564 := 1, 569 := 0x10, 578 := 0x10, 585 := 0x40)) n else slot_mem main_strings (of_nat (n - 4608)))"

definition box_mem :: mem where
  "box_mem = mem_write (mem_write (\<lambda>_. 0) 0x7D00 boot_gdt) 0x7D20 (gdtdesc 0x7D00)"

definition box_segs :: "Proghdr list" where
  "box_segs = headers (header_page box_image) (ELFHDR + 52) 1"

lemma box_page_bytes: "unat x < 69632 \<Longrightarrow> 65536 \<le> unat x \<Longrightarrow> header_page box_image x = box_image (unat x - 65024)"
  by (simp add: header_page_def load_seg_def)

lemma box_elf:
  "e_magic (Elf_at (header_page box_image) ELFHDR) = ELF_MAGIC" "e_entry (Elf_at (header_page box_image) ELFHDR) = 0x100000"
  "e_phoff (Elf_at (header_page box_image) ELFHDR) = 52" "e_phnum (Elf_at (header_page box_image) ELFHDR) = 1"
  by (simp_all add: Elf_at_def load32_def load16_def ELFHDR_def ELF_MAGIC_def box_page_bytes box_image_def)

lemma box_segs_eq: "\<exists>p. box_segs = [p] \<and> p_offset p = 0x1000 \<and> p_pa p = 0x100000 \<and> p_memsz p = 0x4000"
  by (simp add: box_segs_def headers_def Proghdr_at_def load32_def ELFHDR_def box_page_bytes box_image_def)

lemma box_disk_ok: "disk_ok box_image (Elf_at (header_page box_image) ELFHDR) box_segs"
  using box_segs_eq unfolding disk_ok_def box_elf
  by (auto simp: box_segs_def box_elf seg_ok_def above_1m_def)

text \<open>The kernel in memory, on top of whatever the BIOS has left.\<close>

definition box_kernel :: "mem \<Rightarrow> mem" where
  "box_kernel m = loaded box_image box_segs m"

lemma box_kernel_bytes:
  assumes "unat x < 0x4000"
  shows "box_kernel m (x + 0x100000) = slot_mem main_strings x"
proof -
  have "unat (x + 0x100000) = unat x + 0x100000" using assms by (simp add: unat_add_word)
  moreover obtain p where p: "box_segs = [p]" "p_offset p = 0x1000" "p_pa p = 0x100000" "p_memsz p = 0x4000"
    using box_segs_eq by blast
  ultimately show ?thesis
    using assms unfolding box_kernel_def loaded_def load_segs_def p(1) by (simp add: p(2-4) load_seg_def box_image_def)
qed

definition box_lit :: "string \<Rightarrow> u32" where
  "box_lit t = str_slot main_strings t + 0x100000"

lemma str_at_shift:
  assumes "str_at ro m p xs" and "\<And>x. x \<in> ro \<Longrightarrow> x + k \<in> ro' \<and> m' (x + k) = m x"
  shows "str_at ro' m' (p + k) xs"
proof -
  have c: "cstr m' (q + k) ys" if "cstr m q ys" "\<forall>i \<le> length ys. q + of_nat i \<in> ro" for q ys
    using that
  proof (induction ys arbitrary: q)
    case Nil
    then show ?case using assms(2) [of q] by simp
  next
    case (Cons y ys)
    have "\<forall>i \<le> length ys. q + 1 + of_nat i \<in> ro"
    proof (intro allI impI)
      fix i assume "i \<le> length ys"
      then show "q + 1 + of_nat i \<in> ro" using Cons.prems(2) [rule_format, of "Suc i"] by (simp add: add.assoc)
    qed
    then have "cstr m' (q + 1 + k) ys" using Cons by simp
    moreover have "q + 1 + k = q + k + 1" by simp
    moreover have "m' (q + k) = m q" using Cons.prems(2) [rule_format, of 0] assms(2) by simp
    ultimately show ?case using Cons.prems(1) by simp
  qed
  have "p + k + of_nat i \<in> ro'" if "i \<le> length xs" for i
    using assms(2) [of "p + of_nat i"] assms(1) that by (simp add: str_at_def ac_simps)
  then show ?thesis using c [of p xs] assms(1) by (simp add: str_at_def)
qed

lemma box_string:
  assumes "t \<in> set main_strings"
  shows "in_image 0x300000 (box_kernel m) box_lit t"
proof -
  have l: "length t < 64" "\<forall>c \<in> set t. chr c \<noteq> 0" "length main_strings < 100"
    using assms main_strings_small by blast+
  have short: "length main_strings < 1000" "length t < 1000000"
    using less_trans [OF l(3), of 1000] less_trans [OF l(1), of 1000000] by simp_all
  let ?ro = "{x :: u32. unat x < 0x1000 + 64 * length main_strings}"
  note slot = slot_str(1) [OF assms l(1) short(1) l(2)]
  have ro: "unat x < 0x4000" if "x \<in> ?ro" for x using that l(3) by simp
  have sum: "unat (x + 0x100000) = unat x + 0x100000" if "x \<in> ?ro" for x :: u32
    using ro [OF that] by (simp add: unat_add_word)
  have "str_at {x. unat x < unat (0x300000 :: u32)} (box_kernel m) (box_lit t) (map chr t)"
    unfolding box_lit_def
  proof (rule str_at_shift [OF slot])
    show "x + 0x100000 \<in> {x. unat x < unat (0x300000 :: u32)} \<and> box_kernel m (x + 0x100000) = slot_mem main_strings x"
      if "x \<in> ?ro" for x
      using ro [OF that] sum [OF that] box_kernel_bytes by simp
  qed
  moreover have "str_slot main_strings t \<in> ?ro" using slot by (auto simp: str_at_def)
  then have "unat (box_lit t) \<noteq> 0" unfolding box_lit_def using sum by simp
  then have "box_lit t \<noteq> 0" by auto
  ultimately show ?thesis using short(2) by (simp add: in_image_def)
qed

text \<open>The mode information is the BIOS's.\<close>

definition box_mode_info :: ModeInfoBlock where
  "box_mode_info = ModeInfoBlock_at (mem_write box_mem 0xf000 (bios_info 0x115)) 0xf000"

lemma box_mode:
  "Xres box_mode_info = 800" "Yres box_mode_info = 600" "pitch box_mode_info = 2400" "physbase box_mode_info = 0xFD000000"
proof -
  have b: "mem_write box_mem 0xf000 (bios_info 0x115) (0xf000 + of_nat i) = bios_info 0x115 ! i" if "i < 256" for i
    using that by (intro mem_write_nth) (simp_all add: bios_info_def)
  show "Xres box_mode_info = 800" "Yres box_mode_info = 600" "pitch box_mode_info = 2400" "physbase box_mode_info = 0xFD000000"
    unfolding box_mode_info_def
    using b [of 16] b [of 17] b [of 18] b [of 19] b [of 20] b [of 21] b [of 40] b [of 41] b [of 42] b [of 43]
    by (simp_all add: ModeInfoBlock_at_def load16_def load32_def bios_info_def)
qed

lemma box_info_loaded:
  assumes "after_bios (bios_own 0 0x7c00) (bios_info 0x115) box_mem m1"
  shows "ModeInfoBlock_at (box_kernel m1) 0xf000 = box_mode_info"
proof -
  have "list_all above_1m box_segs" using box_disk_ok unfolding disk_ok_def by blast
  then have "ModeInfoBlock_at (box_kernel m1) 0xf000 = ModeInfoBlock_at m1 0xf000"
    unfolding box_kernel_def by (rule mode_info_loaded)
  also have "\<dots> = box_mode_info" unfolding box_mode_info_def
  proof (rule mode_info_same)
    fix a :: u32 assume "0xf000 \<le> unat a" "unat a < 0xf100"
    then have "in_reg 0xf000 256 a" by (simp add: in_reg_nat)
    then have "a \<notin> bios_own 0 0x7c00" using bios_beside_stack unfolding bios_beside_def by blast
    then show "m1 a = mem_write box_mem 0xf000 (bios_info 0x115) a" using assms unfolding after_bios_def by blast
  qed
  finally show ?thesis .
qed

lemma box_machine_parts:
  "vmemory (mv (with_mem m pc_machine)) = m" "vmem_buffer (mv (with_mem m pc_machine)) = 0x300000"
  "klog (kern (mv (with_mem m pc_machine))) = []" "length (gdt (mseg (with_mem m pc_machine))) = NR_GDT"
  "length (idt (midt (with_mem m pc_machine))) = 48" "sym_end idle_symbols = 0x4A1234"
  using pc_machine_parts by (simp_all add: with_mem_def)

lemma box_boot_ok:
  assumes "after_bios (bios_own 0 0x7c00) (bios_info 0x115) box_mem m1"
  shows "boot_ok box_lit idle_symbols (with_mem (box_kernel m1) pc_machine) box_mode_info 1440000 1"
  unfolding boot_ok_def boot_image_def Let_def box_machine_parts box_info_loaded [OF assms] box_mode vga_mode_fits(2) [OF box_mode(1-3)]
  using box_string vga_mode_fits [OF box_mode(1-3)] by (simp add: VBUF_SIZE_def)

lemma box_tables:
  "bytes_at box_mem 0x7D00 boot_gdt" "bytes_at box_mem 0x7D20 (gdtdesc 0x7D00)"
proof -
  have g: "length boot_gdt = 24" "length (gdtdesc 0x7D00) = 6"
    by (simp_all add: boot_gdt_def asm_SEG_NULL_def asm_SEG_def asm_word_def gdtdesc_def asm_long_def)
  show "bytes_at box_mem 0x7D20 (gdtdesc 0x7D00)"
    unfolding bytes_at_def box_mem_def using g by (simp add: mem_write_nth)
  have "box_mem (0x7D00 + of_nat i) = boot_gdt ! i" if "i < length boot_gdt" for i
  proof -
    have "unat (0x7D00 + of_nat i :: u32) = 0x7D00 + i"
      using that g unat_of_nat32 [of i] by (simp add: unat_add_word)
    then have "\<not> in_reg 0x7D20 (length (gdtdesc 0x7D00)) (0x7D00 + of_nat i)" using that g by (simp add: in_reg_nat)
    then show ?thesis unfolding box_mem_def using that g by (simp add: mem_write_outside mem_write_nth)
  qed
  then show "bytes_at box_mem 0x7D00 boot_gdt" by (simp add: bytes_at_def)
qed

text \<open>The winning keys, waiting in the keyboard when the machine is switched on: the run ends with the puzzle
  solved, and the line has carried everything.\<close>

lemma box_keys_kept:
  assumes "boot_sector box_bios (sim_box box_image) 0x7D20 (start_cpu, box_mem, box_start keys) = Some (Enter a, c', m', d1)"
    and "main_init (sim_box box_image) box_lit idle_symbols (hand_over c' m' pc_machine) d1 = Some (Inr (mc', d2))"
  shows "box_pc d1 = pc_start keys" and "box_keys d2 = keys"
proof -
  have sp: "c_esp start_cpu = 0x7c00" by (simp add: start_cpu_def)
  have sec: "in_sector 0x7D00 24" "in_sector 0x7D20 6" by (simp_all add: in_sector_def)
  have idle: "box_phase d' = Idle" if "(box_pc d', box_disk d') = (box_pc (box_start keys), box_disk (box_start keys))" for d'
    using that by (simp add: box_phase_def box_start_def sim_start_def)
  have bok: "\<forall>m1. after_bios (bios_own 0 0x7c00) (bios_info 0x115) box_mem m1
      \<longrightarrow> boot_ok box_lit idle_symbols (with_mem (loaded box_image box_segs m1) pc_machine) box_mode_info 1440000 1"
    using box_boot_ok unfolding box_kernel_def by blast
  have mode: "(0x115 :: u16) \<in> {0x115}" by simp
  obtain c1 m1 d0 e1 mc1 d3 where r: "boot_sector box_bios (sim_box box_image) 0x7D20 (start_cpu, box_mem, box_start keys)
      = Some (Enter (e_entry (Elf_at (header_page box_image) ELFHDR)), c1, loaded box_image box_segs m1, e1)"
    "(box_pc d0, box_disk d0) = (box_pc (box_start keys), box_disk (box_start keys))"
    "bootmain (sim_box box_image) (m1, d0) = Some (Enter (e_entry (Elf_at (header_page box_image) ELFHDR)), loaded box_image box_segs m1, e1)"
    "boot_ok box_lit idle_symbols (hand_over c1 (loaded box_image box_segs m1) pc_machine) box_mode_info 1440000 1"
    by (rule power_on_runs [where c = start_cpu, unfolded sp, OF box_vbe [where f = Pair] mode bios_beside_stack box_kbc [where f = Pair]
        box_disk_laws idle box_tables(1) sec(1) box_tables(2) sec(2) box_disk_ok box_uart_laws box_pic_quiet(1) bok])
  have same: "c' = c1" "m' = loaded box_image box_segs m1" "d1 = e1" using assms(1) r(1) by simp_all
  show pc1: "box_pc d1 = pc_start keys"
    using bootmain_keeps [OF box_disk_keeps r(3)] r(2) by (simp add: same box_start_def)
  note r4 = r(4) [folded same]
  let ?t = "map chr (log_text (boot_log idle_symbols box_mode_info 1440000 1))"
  have "box_sent d2 = box_sent (init_serial (sim_box box_image) d1) @ ?t"
    using main_init_boots [OF box_uart_laws [where img = box_image] box_pic_quiet(1) r4, where d = d1] assms(2) by auto
  moreover have "box_keys d2 @ box_sent d2 = box_keys (init_serial (sim_box box_image) d1) @ box_sent (init_serial (sim_box box_image) d1) @ ?t"
    using main_init_boots [OF box_uart [where f = "\<lambda>ks. ks" and img = box_image] box_pic_quiet(2) r4, where d = d1] assms(2) by auto
  ultimately show "box_keys d2 = keys"
    using pc1 by (simp add: box_init_serial box_keys_def pc_serial)
qed

theorem power_on_plays_witness:
  "\<exists>cs g mc d. set cs \<subseteq> game_keys
    \<and> power_on box_bios (sim_box box_image) 0x7D20 0x100000 box_lit idle_symbols 0x200000 300 200 pc_machine
        (start_cpu, box_mem, box_start (typed cs)) = Some (Inr (g, mc, d))
    \<and> block g = [0, 1, 2, 3, 4, 5] \<and> \<not> mif mc
    \<and> box_sent d = map chr (log_text (boot_log idle_symbols box_mode_info 1440000 1
        @ [LogLine ''kernel/game.c'' ''game_mainloop'' 155 ''Success'']))"
proof -
  obtain cs where cs: "set cs \<subseteq> game_keys" and plays: "\<forall>(dv :: box device) int10 modes info own vmode pend a20 ph reg img sent ctl gdt_a desc_a e ps lit sy mi sz nt mc (c :: cpu) m d.
        vbe_laws int10 modes info own vmode ph \<and> 0x115 \<in> modes \<and> bios_beside (own 0 (c_esp c))
        \<and> kbc_laws dv pend a20 (\<lambda>d. (vmode d, ph d))
        \<and> disk_laws dv ph reg img \<and> ph d = Idle \<and> disk_ok img e ps
        \<and> bytes_at m gdt_a boot_gdt \<and> in_sector gdt_a 24 \<and> bytes_at m desc_a (gdtdesc gdt_a) \<and> in_sector desc_a 6
        \<and> uart_laws dv sent ctl \<and> pic_quiet dv sent ctl \<and> keys_quiet dv sent ctl
        \<and> (\<forall>m1. after_bios (own 0 (c_esp c)) (info 0x115) m m1 \<longrightarrow> boot_ok lit sy (with_mem (loaded img ps m1) mc) mi sz nt)
        \<and> picture_at 0x200000 300 200 mc
      \<longrightarrow> (\<exists>c' m1 d1. boot_sector int10 dv desc_a (c, m, d) = Some (Enter (e_entry e), c', loaded img ps m1, d1)
        \<and> after_bios (own 0 (c_esp c)) (info 0x115) m m1
        \<and> (\<forall>r. power_on int10 dv desc_a (e_entry e) lit sy 0x200000 300 200 mc (c, m, d) = Some r
          \<longrightarrow> (\<exists>res. r = Inr res \<and> game_over sent 0x200000 300 200 (loaded img ps m1) (sent (init_serial dv d1)
            @ map chr (log_text (boot_log sy mi sz nt @ [LogLine ''kernel/game.c'' ''game_mainloop'' 155 ''Success'']))) res))
        \<and> (\<exists>mc' d2. main_init dv lit sy (hand_over c' (loaded img ps m1) mc) d1 = Some (Inr (mc', d2))
          \<and> cr0 (kern (mv mc')) = c_cr0 c OR CR0_PE_ON OR CR0_PG \<and> mode_info (mv mc') = ModeInfoBlock_at m1 0xf000
          \<and> (\<forall>d'. answers dv 0x60 (typed cs) d2 d'
            \<longrightarrow> (\<exists>res. power_on int10 dv desc_a (e_entry e) lit sy 0x200000 300 200 mc (c, m, d) = Some (Inr res)))))"
    using power_on_plays [where 'd = box, of "0x200000" 300 200] by (elim exE conjE)
  have sp: "c_esp start_cpu = 0x7c00" by (simp add: start_cpu_def)
  have mode: "(0x115 :: u16) \<in> {0x115}" by simp
  have sec: "in_sector 0x7D00 24" "in_sector 0x7D20 6" by (simp_all add: in_sector_def)
  have idle: "box_phase (box_start (typed cs)) = Idle" by (simp add: box_phase_def box_start_def sim_start_def)
  have bok: "\<forall>m1. after_bios (bios_own 0 (c_esp start_cpu)) (bios_info 0x115) box_mem m1
      \<longrightarrow> boot_ok box_lit idle_symbols (with_mem (loaded box_image box_segs m1) pc_machine) box_mode_info 1440000 1"
    using box_boot_ok unfolding box_kernel_def sp by blast
  note vbe = box_vbe [where f = "\<lambda>_ s. sim_phase s", folded box_phase_def]
  note kbc = box_kbc [where f = "\<lambda>_ s. sim_phase s" and img = box_image, folded box_phase_def]
  note run = plays [rule_format, OF conjI [OF vbe conjI [OF mode conjI [OF bios_beside_stack [folded sp] conjI [OF kbc
      conjI [OF box_disk_laws conjI [OF idle conjI [OF box_disk_ok conjI [OF box_tables(1) conjI [OF sec(1) conjI [OF box_tables(2) conjI [OF sec(2)
      conjI [OF box_uart_laws conjI [OF box_pic_quiet(1) conjI [OF box_keys_quiet conjI [OF bok pc_picture]]]]]]]]]]]]]]], unfolded box_elf(2)]
  obtain c' m1 d1 mc' d2 where b: "boot_sector box_bios (sim_box box_image) 0x7D20 (start_cpu, box_mem, box_start (typed cs))
      = Some (Enter 0x100000, c', loaded box_image box_segs m1, d1)"
    and over: "\<forall>r. power_on box_bios (sim_box box_image) 0x7D20 0x100000 box_lit idle_symbols 0x200000 300 200 pc_machine
          (start_cpu, box_mem, box_start (typed cs)) = Some r
      \<longrightarrow> (\<exists>res. r = Inr res \<and> game_over box_sent 0x200000 300 200 (loaded box_image box_segs m1) (box_sent (init_serial (sim_box box_image) d1)
            @ map chr (log_text (boot_log idle_symbols box_mode_info 1440000 1 @ [LogLine ''kernel/game.c'' ''game_mainloop'' 155 ''Success'']))) res)"
    and i: "main_init (sim_box box_image) box_lit idle_symbols (hand_over c' (loaded box_image box_segs m1) pc_machine) d1 = Some (Inr (mc', d2))"
    and wins: "\<forall>d'. answers (sim_box box_image) 0x60 (typed cs) d2 d' \<longrightarrow> (\<exists>res. power_on box_bios (sim_box box_image) 0x7D20 0x100000 box_lit
          idle_symbols 0x200000 300 200 pc_machine (start_cpu, box_mem, box_start (typed cs)) = Some (Inr res))"
    using run by (elim exE conjE)
  note kept = box_keys_kept [OF b i]
  have "answers sim_pc 0x60 (typed cs) (box_pc d2) ((box_pc d2)\<lparr>pc_keys := []\<rparr>)"
    by (rule sim_pc_answers) (use kept(2) in \<open>simp add: box_keys_def\<close>)
  then have "answers (sim_box box_image) 0x60 (typed cs) d2 (d2\<lparr>box_pc := (box_pc d2)\<lparr>pc_keys := []\<rparr>\<rparr>)"
    by (intro answers_part [where put = "\<lambda>s d. d\<lparr>box_pc := s\<rparr>" and get = box_pc and dv' = sim_pc, OF box_ports(4)]) simp_all
  then obtain res where res: "power_on box_bios (sim_box box_image) 0x7D20 0x100000 box_lit
          idle_symbols 0x200000 300 200 pc_machine (start_cpu, box_mem, box_start (typed cs)) = Some (Inr res)"
    using wins by blast
  obtain g mc d where gmd: "res = (g, mc, d)" by (cases res)
  have none: "box_sent (init_serial (sim_box box_image) d1) = []" by (simp add: box_sent_def box_init_serial kept(1) pc_serial)
  have "[0..(5::int)] = [0, 1, 2, 3, 4, 5]" by (simp add: upto.simps)
  then show ?thesis using over res cs unfolding gmd none
    by (intro exI [of _ cs] exI [of _ g] exI [of _ mc] exI [of _ d]) (simp add: game_over_def)
qed

end
