(* ===== verification/Spec2Isabelle.thy ===== *)
theory Spec2Isabelle
  imports CMem CString PageMachine PageMap Interrupt Pic8259 Boot Serial Keyboard Video Game FsTest Printfmt Print Cpu TextMode Hardware Kbdreg Stab Protection Puzzle KernelPanic Assert PowerOn
begin

text \<open>
  scratch-os is a small i386 kernel in C: a boot sector loads an ELF kernel from the first IDE
  disk, the kernel sets up segmentation, paging, the frame buffer and interrupts, prints a
  log on the serial port and plays a picture puzzle. Beside it, two host programs make and read
  a simple disk format with the file system library. This development models the program as
  HOL functions, component by component, and proves what each component promises and what
  they give together.

  \<^bold>\<open>Parts and theories.\<close> The theories are in the order of use.

  \<^item> \<open>Prelude\<close>: machine words, the byte memory (a function from 32-bit addresses), little-endian
    accesses, memory regions modulo the address space, the faults, loop combinators; the lemma
    collections \<open>mem_simps\<close> and \<open>nat_word\<close>. \<open>Steps\<close>: traces of labelled step relations, invariants
    over their history and simulation.
  \<^item> \<open>CMem\<close>, \<open>CString\<close>: \<open>lib/string.c\<close>, the memory routines (string instructions and portable loops)
    and the routines on NUL-terminated strings with \<open>strtol\<close>.
  \<^item> \<open>Pages\<close>: the page allocator of \<open>kernel/page.c\<close>; \<open>PageMachine\<close>: the allocator as a machine driven
    by any sequence of allocations and releases; \<open>MMU\<close>: the bit fields and macros of
    \<open>inc/mmu.h\<close> and \<open>kernel/page.h\<close> and the processor's page walk (\<open>translate\<close>); \<open>PageMap\<close>:
    \<open>mm_continous_map\<close> and \<open>init_page\<close> of \<open>kernel/page.c\<close>; \<open>Protection\<close>: the processor's check of
    access rights on the tables that they build.
  \<^item> \<open>Segment\<close>: \<open>kernel/segment.c\<close> and the descriptors of \<open>inc/mmu.h\<close>; \<open>Interrupt\<close>:
    \<open>kernel/interrupt/interrupt.c\<close> and the gates; \<open>Pic8259\<close>: what its writes make of the interrupt
    controllers.
  \<^item> \<open>PortIO\<close>: port instructions of \<open>inc/x86.h\<close>; \<open>Serial\<close>, \<open>Keyboard\<close>, \<open>Video\<close>: the drivers
    \<open>kernel/serial.c\<close>, \<open>kernel/keyboard.c\<close>, \<open>kernel/video.c\<close>; \<open>Cpu\<close>: the register functions of
    \<open>inc/x86.h\<close> on a processor with a translation cache.
  \<^item> \<open>Printfmt\<close>: \<open>lib/printfmt.c\<close> with \<open>inc/error.h\<close>; \<open>Print\<close>: \<open>kernel/print.c\<close> and the macros
    of \<open>kernel/debug.h\<close>; \<open>KernelLog\<close>: sending the log that the components have made.
  \<^item> \<open>Game\<close>: \<open>kernel/game.c\<close>; \<open>Puzzle\<close>: the game as a machine driven by keys and the abstract puzzle that
    it refines.
  \<^item> \<open>Boot\<close>: \<open>boot/main.c\<close> with \<open>inc/elf.h\<close>; \<open>Start\<close>: \<open>boot/boot.S\<close> with the assembler macros of
    \<open>inc/mmu.h\<close>; \<open>Machine\<close>: the state of the whole kernel, the entry stub \<open>kernel/interrupt/entry.S\<close>,
    taking an interrupt and returning from it; \<open>KernelMain\<close>: \<open>kernel/main.c\<close>; \<open>KernelPanic\<close>: how it
    ends when memory runs out; \<open>PowerOn\<close>: the chain from the boot sector to the end of the game.
  \<^item> \<open>Fs\<close>: \<open>lib/fs.c\<close>; \<open>FsTest\<close>: \<open>fs-test/format.c\<close> and \<open>fs-test/extract.c\<close>. \<open>Assert\<close>: the macros of
    \<open>inc/assert.h\<close>.
  \<^item> \<open>TextMode\<close>, \<open>Memlayout\<close>, \<open>Hardware\<close>, \<open>Kbdreg\<close>, \<open>Stab\<close>: \<open>kernel/text.c\<close>, the address map of
    \<open>inc/memlayout.h\<close>, the other constants of \<open>inc/mmu.h\<close>, those of \<open>inc/kbdreg.h\<close> and \<open>inc/stab.h\<close>, most of which
    nothing in the kernel uses; they are compared with the numbers that the code writes out.

  \<^bold>\<open>State and operations.\<close> A C function is a definition of the same name. It takes the state that
  it reads and returns the state that it changes. Memory is explicit where pointers matter
  (strings, page tables, the frame buffer, descriptors in memory, directory objects); an object
  that is only named by its fields is a record (\<open>pages\<close>, \<open>kstate\<close>, \<open>vstate\<close>, \<open>segstate\<close>, \<open>idtstate\<close>,
  \<open>machine\<close>, \<open>GameState\<close>, \<open>bitmap\<close>). A bit field is a position and a width in its word.
  Integers keep their width: addresses and unsigned values are words, \<open>int\<close> values are
  integers with \<open>wrap\<close> or a bound where they could overflow.

  \<^bold>\<open>Errors and loops.\<close> A \<open>PANIC\<close>, with its place and text, and an access outside of an array are faults,
  the left side of \<open>result\<close>. Where what was done before matters, in the paging and the video code and in
  \<open>main\<close>, a fault comes with the state it leaves (\<open>attempt\<close>): \<open>main\<close> then still sends the lines that the
  component had logged, and a panic sends its own line (\<open>halt\<close>) before the machine spins. A loop
  that can run forever (polling, the game, a loop over words that can wrap around, C strings) is a
  \<open>partial_function (option)\<close> and \<open>None\<close> means that the call does not return; every theorem about such
  a function states that it returns, or names when it does not. Other loops are recursive functions
  with a measure. No fuel is used.

  \<^bold>\<open>Devices and other parameters.\<close> A device is a pair of functions on port inputs and outputs over
  its own state. What a driver relies on is a named predicate, which states the documented protocol and
  promises nothing to a driver that does not keep it, so that every wait loop is needed:

  \<^item> \<open>uart_laws\<close>, the 16550: the transmitter is found empty after finitely many looks at the status; a byte is
    sent when it is written to an empty transmitter while the line control register has the divisor latch
    out and the modem control register no loopback, which \<open>init_serial_com\<close> brings about (\<open>line_open\<close>);
  \<^item> \<open>disk_laws\<close>, the ATA read protocol: registers and commands are taken only from a drive that is found ready,
    after a command the data come only when it is found ready again;
  \<^item> \<open>kbc_laws\<close>, the keyboard controller: a command and its data byte are taken only while the input buffer is
    found empty;
  \<^item> \<open>vbe_laws\<close>, the video BIOS: the calls succeed for the modes that it supports, and change the stack and
    memory that the BIOS owns (\<open>own\<close>; \<open>bios_beside\<close> asks it to lie beside the boot sector's code and
    the mode information) besides the block that is asked for;
  \<^item> \<open>pic_quiet\<close>, \<open>keys_quiet\<close>: the ports of the interrupt controllers and of the keyboard do not send on the serial line;
  \<^item> \<open>answers\<close>: the bytes that a port gives in turn.

  Each is shown for a simulated device in the examples: a UART, a drive and a controller that are busy after
  every byte and then lose what is written, a BIOS that uses the stack and its data area, and a machine
  with all of them whose keyboard holds the keys. Addresses that the linker chooses, what the compiled
  interrupt handler leaves in its scratch registers, the place of string literals (\<open>lit\<close>) and the picture, a
  generated file, are parameters.

  \<^bold>\<open>Interfaces.\<close> Locales state the contracts, each interpreted on the code's own definitions:
  \<open>block_mover\<close> (one step of a string move; bytes and words), \<open>frame_source\<close> (an allocator that
  gives out the frames of a list; \<open>alloc_page\<close>), \<open>canvas\<close> (a surface of pixels; the back buffer, from
  which rows, columns, borders and the game's frame follow), \<open>text_sink\<close> (an output routine that
  leaves the format alone; the serial port, the buffer of \<open>vsnprintf\<close>, a constant memory),
  \<open>history_invariant\<close> (a machine with a property of start, history and state; the allocator), its
  special case \<open>state_invariant\<close>, and \<open>simulation\<close> (a machine that follows an abstract one; the game and
  the puzzle).

  \<^bold>\<open>What the lemmas show.\<close>

  \<^item> Memory and strings: the string instructions agree with the portable loops and with the
    abstract effect on regions, also on overlap and at the end of the address space; every
    string routine meets its specification on the list of the string's bytes.
  \<^item> Allocator: the free list is a list of frames (\<open>pages_inv\<close>); allocation gives its head,
    never twice; a released page is lost. Over every sequence of allocations and releases no frame is held
    twice, and a frame can be had exactly while fewer have been given out than were free.
  \<^item> Paging: filling a table, adding tables to a directory and the whole mapping, in terms of
    \<open>translate\<close>; \<open>init_page\<close> gives an identity mapping; the frame buffer's mapping needs no
    flush of the translation cache; user mode may write wherever something is mapped. The size of the
    kernel decides whether \<open>init_page\<close> succeeds, panics or writes out of bounds.
  \<^item> Descriptors and gates: what the processor reads back from what is written; the bytes of the
    assembler's macro are the descriptor of the C macro. The interrupt controllers end up with vector
    base 0 and every line of the master enabled.
  \<^item> Interrupts: with general registers, an explicit stack and the processor's check of the code segment
    in \<open>iret\<close>, the stub brings the machine back but for \<open>eax\<close>, \<open>ecx\<close> and \<open>edx\<close>, which it does not save; after an
    interrupt with an error code it ends in a general protection exception, or at the error code. A run with
    interrupts between the kernel's actions comes through and ends like the run without.
  \<^item> Drivers: polling returns when the device answers; text is sent complete and in order; keys
    are read as press and release; drawing changes the pixels it should and no other memory.
  \<^item> Printing: \<open>vprintfmt\<close> refines a list of format items (text, numbers with padding, strings,
    error numbers) to the characters that are put, for any output routine; numbers printed
    are read back by \<open>strtol\<close>; \<open>vsnprintf\<close> keeps to its buffer. Text lengths are below \<open>2 ^ 31\<close> and
    field widths below \<open>2 ^ 30\<close>, so that the counters do not overflow.
  \<^item> Game: an invariant that every key keeps; the main loop returns exactly for the plays that solve the
    puzzle, and refines the abstract puzzle; every arrangement can be solved; a frame shows the blocks and
    the last screen the picture; only the two buffers are written.
  \<^item> Boot: the start code ends in protected mode with the descriptors of the assembler's table; \<open>bootmain\<close>
    loads every segment; \<open>readseg\<close> returns exactly when the segment's end, modulo the address space, is
    not in the last sector.
  \<^item> File system: the bitmap refines a set of blocks, the block allocator takes the least unused
    one; \<open>extract\<close> returns what \<open>format\<close> stored, for files of at most 119 blocks (the 120th
    block number is the end mark), and both fail on larger ones; what they print is proved, too.
  \<^item> Composition: \<open>main\<close> sets up everything in order and reaches the game (\<open>boot_ok\<close> names what it
    needs), with the whole log sent; from the first instruction of the boot sector to the end of the game
    nothing faults, and one sequence of keys, fixed by the picture alone, brings every such machine to the end.
    With too little memory for the tables and the self test \<open>main\<close> stops, with the fault that the sizes
    decide and with exactly the lines on the serial port that it got to, those of the self test included.

  \<^bold>\<open>The log.\<close> The log lines of the components that have no device (\<open>init_page\<close>, \<open>init_video\<close>,
  \<open>test_page\<close>, the game) are entries of a trace in \<open>kstate\<close>, with file, function, line and value; \<open>main\<close> sends
  the trace with the log macros when such a component has returned or stopped. The text that the serial port has
  carried is proved byte for byte up to the start of the game and to its end. The host programs print
  to a list of bytes, which \<open>extract_format\<close> states.

  \<^bold>\<open>Physical memory.\<close> Accesses after paging is on use the same memory as before: the kernel, its page
  tables and the frame buffer are mapped to themselves, which is what the mapping theorems
  show; \<open>boot_ok\<close> asks for the tables to lie in the mapped part.

  \<^bold>\<open>Not modelled.\<close> \<open>inc/stdio.h\<close>, \<open>inc/string.h\<close> and the kernel's headers only declare functions; the build files
  and scripts do not run on the machine. Instruction timing is not modelled, nor when a device raises an
  interrupt: interrupts may come between any two actions (\<open>run_events\<close>). The general registers and the stack are
  explicit where assembly uses them, in the interrupt stub and in the switch to the game; what compiled C
  functions do with registers and stack is not modelled, nor the handlers of an exception that
  \<open>iret\<close> raises (\<open>GP\<close> ends the model's run). The game runs with interrupts disabled: \<open>main\<close> returns into it with
  the interrupt flag clear.
\<close>

end
